(* ===== verification/Raft_Prelude.thy ===== *)
theory Raft_Prelude
  imports Main "HOL-Library.Word" "HOL-Library.List_Lexorder" "HOL-Library.AList"
begin

text \<open>
  Types, byte encodings and generic list facts shared by the components.

  \<^item> Byte strings (\<open>Vec<u8>\<close>, \<open>&[u8]\<close>) are lists of \<open>8 word\<close>; their \<open>Ord\<close> is the
    lexicographic order of \<open>HOL-Library.List_Lexorder\<close>.
  \<^item> \<open>Term\<close>, \<open>LogIndex\<close>, \<open>NodeId\<close> and \<open>usize\<close> counters are \<open>nat\<close>: they only move by
    single increments from values received, so the 64-bit wrap is out of reach; where the code
    fixes a width (on-disk fields, hashes, revisions) the width is kept.
  \<^item> A subslice or index expression that panics out of range is \<open>None\<close>.
  \<^item> \<open>Result<T>\<close> is a sum, \<open>Inl\<close> the error.
\<close>

type_synonym byte = "8 word"
type_synonym bytes = "byte list"
type_synonym node_id = nat
type_synonym raft_term = nat
type_synonym log_index = nat
type_synonym instant = nat \<comment> \<open>nanoseconds\<close>

named_theorems byte_simps \<open>lengths and inverses of the byte encodings\<close>
named_theorems node_defs \<open>unfolding of the handlers of the Raft node\<close>
named_theorems log_simps \<open>facts about well-formed Raft logs\<close>

section \<open>Errors\<close>

datatype error =
    Storage string
  | Raft string
  | Io string
  | NotLeader "node_id option"
  | KeyNotFound
  | TransactionConflict
  | Corruption string

type_synonym 'a result = "error + 'a"

section \<open>Little- and big-endian integers\<close>

text \<open>\<open>le_bytes k n\<close> is the \<open>k\<close> low bytes of \<open>n\<close>, least significant first: \<open>to_le_bytes\<close>
  of a \<open>8 k\<close>-bit integer; \<open>le_value\<close> is \<open>from_le_bytes\<close>.\<close>

fun le_bytes :: "nat \<Rightarrow> nat \<Rightarrow> bytes" where
  "le_bytes 0 n = []"
| "le_bytes (Suc k) n = of_nat n # le_bytes k (n div 256)"

fun le_value :: "bytes \<Rightarrow> nat" where
  "le_value [] = 0"
| "le_value (b # bs) = unat b + 256 * le_value bs"

definition be_bytes :: "nat \<Rightarrow> nat \<Rightarrow> bytes" where
  "be_bytes k n = rev (le_bytes k n)"

definition be_value :: "bytes \<Rightarrow> nat" where
  "be_value bs = le_value (rev bs)"

lemma length_le_bytes [simp, byte_simps]: "length (le_bytes k n) = k"
  by (induction k n rule: le_bytes.induct) auto

lemma length_be_bytes [simp, byte_simps]: "length (be_bytes k n) = k"
  by (simp add: be_bytes_def)

lemma le_value_le_bytes [byte_simps]: "le_value (le_bytes k n) = n mod 256 ^ k"
proof (induction k n rule: le_bytes.induct)
  case (1 n)
  then show ?case by simp
next
  case (2 k n)
  have "unat (of_nat n :: byte) = n mod 256"
    by (simp add: unat_of_nat)
  then show ?case
    using 2 by (simp add: mod_mult2_eq)
qed

lemma le_value_bound: "le_value bs < 256 ^ length bs"
proof (induction bs)
  case Nil
  then show ?case by simp
next
  case (Cons b bs)
  have "unat b < 256" using unsigned_less [of b] by simp
  moreover have "le_value bs + 1 \<le> 256 ^ length bs" using Cons by simp
  then have "256 * (le_value bs + 1) \<le> 256 * 256 ^ length bs" by (rule mult_le_mono2)
  ultimately show ?case by simp
qed

lemma le_value_small [byte_simps]: "n < 256 ^ k \<Longrightarrow> le_value (le_bytes k n) = n"
  by (simp add: le_value_le_bytes)

lemma le_bytes_le_value [byte_simps]: "k = length bs \<Longrightarrow> le_bytes k (le_value bs) = bs"
proof (induction bs arbitrary: k)
  case Nil
  then show ?case by simp
next
  case (Cons b bs)
  have b: "unat b < 256" using unsigned_less [of b] by simp
  have "(of_nat (unat b + 256 * le_value bs) :: byte) = b + of_nat 256 * of_nat (le_value bs)"
    by simp
  also have "(of_nat 256 :: byte) = 0" by simp
  finally have "(of_nat (unat b + 256 * le_value bs) :: byte) = b" by simp
  moreover have "(unat b + 256 * le_value bs) div 256 = le_value bs" using b by simp
  ultimately show ?case using Cons by simp
qed

lemma be_value_small [byte_simps]: "n < 256 ^ k \<Longrightarrow> be_value (be_bytes k n) = n"
  by (simp add: be_value_def be_bytes_def le_value_small)

text \<open>\<open>x as u32\<close> of a \<open>usize\<close>.\<close>

definition as_u32 :: "nat \<Rightarrow> nat" where
  "as_u32 n = n mod 2 ^ 32"

lemma as_u32_small [simp]: "n < 2 ^ 32 \<Longrightarrow> as_u32 n = n"
  by (simp add: as_u32_def)

lemma as_u32_bound [simp]: "as_u32 n < 4294967296"
  by (simp add: as_u32_def)

section \<open>Slices\<close>

text \<open>\<open>data[a..b]\<close>: \<open>None\<close> where Rust panics.\<close>

definition subslice :: "'a list \<Rightarrow> nat \<Rightarrow> nat \<Rightarrow> 'a list option" where
  "subslice xs a b = (if a \<le> b \<and> b \<le> length xs then Some (take (b - a) (drop a xs)) else None)"

lemma subslice_append_mid:
  "a = length xs \<Longrightarrow> b = a + length ys \<Longrightarrow> subslice (xs @ ys @ zs) a b = Some ys"
  by (simp add: subslice_def)

lemma subslice_SomeD: "subslice xs a b = Some ys \<Longrightarrow> length ys = b - a \<and> a \<le> b \<and> b \<le> length xs"
  by (auto simp: subslice_def split: if_splits)

text \<open>\<open>Vec::get\<close>.\<close>

definition vec_get :: "'a list \<Rightarrow> nat \<Rightarrow> 'a option" where
  "vec_get xs i = (if i < length xs then Some (xs ! i) else None)"

lemma vec_get_append:
  "vec_get (xs @ ys) i = (if i < length xs then vec_get xs i else vec_get ys (i - length xs))"
  by (auto simp: vec_get_def nth_append)

lemma vec_get_take: "vec_get (take n xs) i = (if i < n then vec_get xs i else None)"
  by (auto simp: vec_get_def)

lemma vec_get_drop: "vec_get (drop n xs) i = vec_get xs (n + i)"
  by (auto simp: vec_get_def add.commute less_diff_conv2)

lemma vec_get_set: "vec_get xs i = Some x \<Longrightarrow> x \<in> set xs"
  by (auto simp: vec_get_def split: if_splits)

lemma vec_get_Nil [simp]: "vec_get [] i = None"
  by (simp add: vec_get_def)

section \<open>Outcomes of a file write\<close>

text \<open>\<open>std::fs::write\<close> succeeds, fails before it touches the file, or fails after it truncated the file
  and wrote some bytes.\<close>

datatype io_outcome = IoOk | IoRefused | IoShort nat

fun written :: "io_outcome \<Rightarrow> bytes \<Rightarrow> bytes option \<Rightarrow> bytes option" where
  "written IoOk data old = Some data"
| "written IoRefused data old = old"
| "written (IoShort n) data old = Some (take n data)"

section \<open>Decimal numbers in file names\<close>

definition digit_char :: "nat \<Rightarrow> char" where
  "digit_char d = char_of (48 + d)"

function decimal :: "nat \<Rightarrow> string" where
  "decimal n = (if n < 10 then [digit_char n] else decimal (n div 10) @ [digit_char (n mod 10)])"
  by pat_completeness auto
termination by (relation "measure id") auto

declare decimal.simps [simp del]

text \<open>\<open>{:0width}\<close>\<close>

definition pad_decimal :: "nat \<Rightarrow> nat \<Rightarrow> string" where
  "pad_decimal width n = replicate (width - length (decimal n)) (digit_char 0) @ decimal n"

definition is_digit :: "char \<Rightarrow> bool" where
  "is_digit c \<longleftrightarrow> 48 \<le> (of_char c :: nat) \<and> (of_char c :: nat) \<le> 57"

definition digits_value :: "string \<Rightarrow> nat" where
  "digits_value s = foldl (\<lambda>a c. 10 * a + (of_char c - 48)) 0 s"

text \<open>\<open>str::parse::<u64>\<close>: an optional plus sign, at least one digit, no overflow.\<close>

definition parse_u64 :: "string \<Rightarrow> nat option" where
  "parse_u64 s =
     (let ds = (case s of c # cs \<Rightarrow> if c = CHR ''+'' then cs else s | [] \<Rightarrow> [])
      in if ds \<noteq> [] \<and> list_all is_digit ds \<and> digits_value ds < 2 ^ 64
         then Some (digits_value ds) else None)"

lemma of_char_digit [simp]: "d < 10 \<Longrightarrow> (of_char (digit_char d) :: nat) = 48 + d"
  by (simp add: digit_char_def of_char_of take_bit_eq_mod)

lemma is_digit_digit_char [simp]: "d < 10 \<Longrightarrow> is_digit (digit_char d)"
  by (simp add: is_digit_def)

lemma digits_value_append [simp]:
  "digits_value (xs @ [c]) = 10 * digits_value xs + (of_char c - 48)"
  by (simp add: digits_value_def)

lemma decimal_digits: "list_all is_digit (decimal n) \<and> decimal n \<noteq> [] \<and> digits_value (decimal n) = n"
proof (induction n rule: decimal.induct)
  case (1 n)
  show ?case
  proof (cases "n < 10")
    case True
    then show ?thesis by (subst (1 2 3) decimal.simps) (simp add: digits_value_def)
  next
    case False
    with 1 show ?thesis by (subst (1 2 3) decimal.simps) simp
  qed
qed

lemma foldl_zeros: "digits_value (replicate k (digit_char 0) @ ds) = digits_value ds"
  by (induction k) (simp_all add: digits_value_def)

lemma parse_u64_pad: "n < 2 ^ 64 \<Longrightarrow> parse_u64 (pad_decimal width n) = Some n"
proof -
  assume n: "n < 2 ^ 64"
  let ?s = "pad_decimal width n"
  have s: "list_all is_digit ?s" "?s \<noteq> []" "digits_value ?s = n"
    using decimal_digits [of n] by (auto simp: pad_decimal_def foldl_zeros list_all_iff)
  have "\<not> is_digit (CHR ''+'')" by (simp add: is_digit_def)
  then have "(case ?s of c # cs \<Rightarrow> if c = CHR ''+'' then cs else ?s | [] \<Rightarrow> []) = ?s"
    using s(1) by (auto split: list.split)
  with s n show ?thesis by (simp add: parse_u64_def)
qed

lemma pad_decimal_inject [simp]:
  "pad_decimal width m = pad_decimal width n \<longleftrightarrow> m = n"
  by (metis decimal_digits foldl_zeros pad_decimal_def)

lemma pad_decimal_no_dot: "CHR ''.'' \<notin> set (pad_decimal width n)"
proof -
  have "\<not> is_digit (CHR ''.'')" by (simp add: is_digit_def)
  moreover have "list_all is_digit (pad_decimal width n)"
    using decimal_digits [of n] by (auto simp: pad_decimal_def list_all_iff)
  ultimately show ?thesis by (auto simp: list_all_iff)
qed

section \<open>UTF-8\<close>

text \<open>The byte sequences \<open>read_to_string\<close> and \<open>String::from_utf8\<close> accept.\<close>

abbreviation cont_byte :: "nat \<Rightarrow> bool" where
  "cont_byte b \<equiv> 128 \<le> b \<and> b < 192"

fun utf8_codes :: "nat list \<Rightarrow> bool" where
  "utf8_codes [] = True"
| "utf8_codes (a # bs) =
     (if a < 128 then utf8_codes bs
      else case bs of
        [] \<Rightarrow> False
      | b # cs \<Rightarrow>
          if 194 \<le> a \<and> a < 224 then cont_byte b \<and> utf8_codes cs
          else case cs of
            [] \<Rightarrow> False
          | c # ds \<Rightarrow>
              if 224 \<le> a \<and> a < 240 then
                cont_byte b \<and> (a = 224 \<longrightarrow> 160 \<le> b) \<and> (a = 237 \<longrightarrow> b < 160) \<and> cont_byte c \<and> utf8_codes ds
              else case ds of
                [] \<Rightarrow> False
              | d # es \<Rightarrow>
                  240 \<le> a \<and> a < 245 \<and> cont_byte b \<and> (a = 240 \<longrightarrow> 144 \<le> b) \<and> (a = 244 \<longrightarrow> b < 144) \<and>
                  cont_byte c \<and> cont_byte d \<and> utf8_codes es)"

definition utf8_valid :: "bytes \<Rightarrow> bool" where
  "utf8_valid bs = utf8_codes (map unat bs)"

lemma utf8_valid_ascii: "list_all (\<lambda>b. unat b < 128) bs \<Longrightarrow> utf8_valid bs"
  unfolding utf8_valid_def by (induction bs) simp_all

end
