(* ===== verification/Wal.thy ===== *)
theory Wal
  imports Raft_Prelude
begin

text \<open>
  The write-ahead log of \<open>raft-storage/src/wal\<close>: records (\<open>record.rs\<close>), the reader used for
  replay (\<open>reader.rs\<close>) and the append-only writer (\<open>writer.rs\<close>).

  The CRC-32 of the crate \<open>crc32fast\<close> is the parameter \<open>crc\<close>; its streaming interface hashes the
  concatenation of the updates. A reader is the list of bytes not yet consumed. A writer keeps the
  bytes already fsynced (\<open>ww_disk\<close>) apart from those only handed to the buffered file
  (\<open>ww_pending\<close>); a failing write or fsync is the flag \<open>ok = False\<close> of the call.
  Lemmas: a record decodes to itself, replay returns exactly a prefix of what was written after any
  torn tail, and it returns nothing that is not on disk byte for byte.
\<close>

section \<open>Records\<close>

record wal_record =
  wr_data :: bytes

definition HEADER_SIZE :: nat where
  "HEADER_SIZE = 8"

definition MAX_RECORD :: nat where
  "MAX_RECORD = 64 * 1024 * 1024"

definition compute_crc :: "(bytes \<Rightarrow> 32 word) \<Rightarrow> bytes \<Rightarrow> 32 word" where
  "compute_crc crc data = crc (le_bytes 4 (as_u32 (length data)) @ data)"

definition wal_encode :: "(bytes \<Rightarrow> 32 word) \<Rightarrow> wal_record \<Rightarrow> bytes" where
  "wal_encode crc r =
     le_bytes 4 (unat (compute_crc crc (wr_data r))) @
     le_bytes 4 (as_u32 (length (wr_data r))) @
     wr_data r"

text \<open>\<open>Inr None\<close> is the clean end of file; \<open>Inr (Some (r, rest))\<close> a record and the bytes after it.\<close>

definition wal_decode ::
  "(bytes \<Rightarrow> 32 word) \<Rightarrow> bytes \<Rightarrow> (wal_record \<times> bytes) option result" where
  "wal_decode crc bs =
     (if length bs < HEADER_SIZE then Inr None
      else
        let header = take HEADER_SIZE bs; body = drop HEADER_SIZE bs;
            stored_crc = (of_nat (le_value (take 4 header)) :: 32 word);
            len = le_value (drop 4 header)
        in if len > MAX_RECORD then Inl (Corruption ''WAL record length exceeds maximum'')
           else if length body < len
             then Inl (Corruption ''WAL record truncated: incomplete data'')
           else
             let data = take len body
             in if stored_crc \<noteq> compute_crc crc data then Inl (Corruption ''WAL CRC mismatch'')
                else Inr (Some (\<lparr>wr_data = data\<rparr>, drop len body)))"

lemma wal_decode_consumes:
  "wal_decode crc bs = Inr (Some (r, rest)) \<Longrightarrow> length rest < length bs"
  by (auto simp: wal_decode_def HEADER_SIZE_def Let_def split: if_splits)

section \<open>Replay\<close>

function read_all :: "(bytes \<Rightarrow> 32 word) \<Rightarrow> bytes \<Rightarrow> wal_record list result" where
  "read_all crc bs =
     (case wal_decode crc bs of
        Inr (Some (r, rest)) \<Rightarrow>
          (case read_all crc rest of Inl e \<Rightarrow> Inl e | Inr rs \<Rightarrow> Inr (r # rs))
      | Inr None \<Rightarrow> Inr []
      | Inl (Corruption msg) \<Rightarrow> Inr []
      | Inl e \<Rightarrow> Inl e)"
  by pat_completeness auto
termination
  by (relation "measure (\<lambda>(crc, bs). length bs)") (auto dest: wal_decode_consumes)

function read_all_strict :: "(bytes \<Rightarrow> 32 word) \<Rightarrow> bytes \<Rightarrow> wal_record list result" where
  "read_all_strict crc bs =
     (case wal_decode crc bs of
        Inr (Some (r, rest)) \<Rightarrow>
          (case read_all_strict crc rest of Inl e \<Rightarrow> Inl e | Inr rs \<Rightarrow> Inr (r # rs))
      | Inr None \<Rightarrow> Inr []
      | Inl e \<Rightarrow> Inl e)"
  by pat_completeness auto
termination
  by (relation "measure (\<lambda>(crc, bs). length bs)") (auto dest: wal_decode_consumes)

declare read_all.simps [simp del] read_all_strict.simps [simp del]

section \<open>The writer\<close>

record wal_writer =
  ww_disk :: bytes
  ww_pending :: bytes
  ww_bytes_written :: nat

definition wal_open :: "bytes \<Rightarrow> wal_writer" where
  "wal_open file = \<lparr>ww_disk = file, ww_pending = [], ww_bytes_written = length file\<rparr>"

definition wal_append ::
  "(bytes \<Rightarrow> 32 word) \<Rightarrow> bool \<Rightarrow> wal_writer \<Rightarrow> bytes \<Rightarrow> unit result \<times> wal_writer" where
  "wal_append crc ok w data =
     (if ok
      then (Inr (), w\<lparr>ww_pending := ww_pending w @ wal_encode crc \<lparr>wr_data = data\<rparr>,
                      ww_bytes_written := ww_bytes_written w + (HEADER_SIZE + length data)\<rparr>)
      else (Inl (Io ''write''), w))"

definition wal_sync :: "bool \<Rightarrow> wal_writer \<Rightarrow> unit result \<times> wal_writer" where
  "wal_sync ok w =
     (if ok then (Inr (), w\<lparr>ww_disk := ww_disk w @ ww_pending w, ww_pending := []\<rparr>)
      else (Inl (Io ''sync''), w))"

section \<open>Record round trip\<close>

lemma length_wal_encode [simp, byte_simps]:
  "length (wal_encode crc r) = HEADER_SIZE + length (wr_data r)"
  by (simp add: wal_encode_def HEADER_SIZE_def)

lemma le4_u32 [simp]: "(of_nat (le_value (le_bytes 4 (unat (w :: 32 word)))) :: 32 word) = w"
proof -
  have "unat w < 256 ^ 4" using unsigned_less [of w] by simp
  then show ?thesis by (simp add: le_value_small)
qed

lemma le4_value [simp]: "n < 2 ^ 32 \<Longrightarrow> le_value (le_bytes 4 n) = n"
  by (simp add: le_value_small)

lemma wal_decode_encode:
  assumes "length (wr_data r) \<le> MAX_RECORD"
  shows "wal_decode crc (wal_encode crc r @ rest) = Inr (Some (r, rest))"
proof -
  have len: "length (wr_data r) < 2 ^ 32" using assms by (simp add: MAX_RECORD_def)
  have "take 8 (wal_encode crc r @ rest) =
          le_bytes 4 (unat (compute_crc crc (wr_data r))) @ le_bytes 4 (as_u32 (length (wr_data r)))"
    and "drop 8 (wal_encode crc r @ rest) = wr_data r @ rest"
    by (simp_all add: wal_encode_def)
  then show ?thesis
    using assms len by (simp add: wal_decode_def HEADER_SIZE_def Let_def not_less)
qed

lemma wal_decode_sound:
  assumes "wal_decode crc bs = Inr (Some (r, rest))"
  shows "bs = wal_encode crc r @ rest" and "length (wr_data r) \<le> MAX_RECORD"
proof -
  define hd4 where "hd4 = take 4 (take HEADER_SIZE bs)"
  define tl4 where "tl4 = drop 4 (take HEADER_SIZE bs)"
  define body where "body = drop HEADER_SIZE bs"
  define len where "len = le_value tl4"
  from assms have len8: "8 \<le> length bs" and lmax: "len \<le> MAX_RECORD"
    and lbody: "len \<le> length body"
    and crc: "(of_nat (le_value hd4) :: 32 word) = compute_crc crc (take len body)"
    and r: "r = \<lparr>wr_data = take len body\<rparr>" and rest: "rest = drop len body"
    by (auto simp: wal_decode_def HEADER_SIZE_def Let_def hd4_def tl4_def body_def len_def
        split: if_splits)
  have l4: "length hd4 = 4" "length tl4 = 4"
    using len8 by (simp_all add: hd4_def tl4_def HEADER_SIZE_def)
  have "hd4 @ tl4 = take HEADER_SIZE bs"
    unfolding hd4_def tl4_def by (rule append_take_drop_id)
  then have bs: "bs = hd4 @ tl4 @ body"
    by (metis append_assoc append_take_drop_id body_def)
  have "le_value hd4 < 2 ^ 32"
    using le_value_bound [of hd4] l4 by simp
  then have h: "unat (of_nat (le_value hd4) :: 32 word) = le_value hd4"
    by (simp add: unat_of_nat)
  have hb: "le_bytes 4 (unat (compute_crc crc (take len body))) = hd4"
    using h crc l4 le_bytes_le_value [of 4 hd4] by simp
  have "len < 2 ^ 32" using lmax by (simp add: MAX_RECORD_def)
  then have "as_u32 (length (take len body)) = len" using lbody by simp
  then have tb: "le_bytes 4 (as_u32 (length (take len body))) = tl4"
    using l4 le_bytes_le_value [of 4 tl4] by (simp add: len_def)
  show "bs = wal_encode crc r @ rest"
    using bs hb tb by (simp add: wal_encode_def r rest)
  show "length (wr_data r) \<le> MAX_RECORD"
    using lmax lbody r by simp
qed

lemma wal_decode_torn:
  assumes "length (wr_data r) < 2 ^ 32" and "n < length (wal_encode crc r)"
  shows "wal_decode crc (take n (wal_encode crc r)) = Inr None \<or>
         (\<exists>m. wal_decode crc (take n (wal_encode crc r)) = Inl (Corruption m))"
proof (cases "n < 8")
  case True
  then show ?thesis by (simp add: wal_decode_def HEADER_SIZE_def)
next
  case False
  have hdr: "take 8 (take n (wal_encode crc r)) =
       le_bytes 4 (unat (compute_crc crc (wr_data r))) @ le_bytes 4 (as_u32 (length (wr_data r)))"
    using False by (simp add: wal_encode_def min_def)
  have body: "drop 8 (take n (wal_encode crc r)) = take (n - 8) (wr_data r)"
    using False by (simp add: wal_encode_def drop_take)
  have "n - 8 < length (wr_data r)" using assms(2) False by (simp add: HEADER_SIZE_def)
  then show ?thesis
    using assms False hdr body by (simp add: wal_decode_def HEADER_SIZE_def Let_def)
qed

section \<open>Replay returns what was written\<close>

lemma read_all_no_error: "\<exists>rs. read_all crc bs = Inr rs"
proof (induction crc bs rule: read_all.induct)
  case (1 crc bs)
  show ?case
  proof (cases "wal_decode crc bs")
    case (Inl e)
    then have "\<exists>m. e = Corruption m"
      by (auto simp: wal_decode_def Let_def split: if_splits)
    then show ?thesis using Inl by (auto simp: read_all.simps [of crc bs])
  next
    case (Inr res)
    then show ?thesis
      using 1 by (cases res) (fastforce simp: read_all.simps [of crc bs] split: sum.splits)+
  qed
qed

lemma read_all_record:
  assumes "length (wr_data r) \<le> MAX_RECORD" and "read_all crc rest = Inr rs"
  shows "read_all crc (wal_encode crc r @ rest) = Inr (r # rs)"
  using assms by (simp add: read_all.simps [of crc "wal_encode crc r @ rest"] wal_decode_encode)

lemma read_all_records:
  assumes "\<forall>r \<in> set rs. length (wr_data r) \<le> MAX_RECORD" and "read_all crc rest = Inr rs'"
  shows "read_all crc (concat (map (wal_encode crc) rs) @ rest) = Inr (rs @ rs')"
  using assms by (induction rs) (simp_all add: read_all_record)

lemma read_all_stop:
  assumes "wal_decode crc bs = Inr None \<or> (\<exists>m. wal_decode crc bs = Inl (Corruption m))"
  shows "read_all crc bs = Inr []"
  using assms by (auto simp: read_all.simps [of crc bs])

lemma read_all_Nil [simp]: "read_all crc [] = Inr []"
  by (rule read_all_stop) (simp add: wal_decode_def HEADER_SIZE_def)

lemma read_all_sound:
  "read_all crc bs = Inr rs \<Longrightarrow>
     (\<exists>tail. bs = concat (map (wal_encode crc) rs) @ tail) \<and>
     (\<forall>r \<in> set rs. length (wr_data r) \<le> MAX_RECORD)"
proof (induction crc bs arbitrary: rs rule: read_all.induct)
  case (1 crc bs)
  show ?case
  proof (cases "\<exists>r rest. wal_decode crc bs = Inr (Some (r, rest))")
    case True
    then obtain r rest where d: "wal_decode crc bs = Inr (Some (r, rest))" by blast
    with "1.prems" obtain rs' where rs: "rs = r # rs'" and rec: "read_all crc rest = Inr rs'"
      by (auto simp: read_all.simps [of crc bs] split: sum.splits)
    from "1.IH" [OF d refl refl rec] wal_decode_sound [OF d] show ?thesis
      by (auto simp: rs)
  next
    case False
    with "1.prems" have "rs = []"
      by (auto simp: read_all.simps [of crc bs] split: sum.splits option.splits error.splits)
    then show ?thesis by simp
  qed
qed

lemma read_all_strict_read_all:
  "read_all_strict crc bs = Inr rs \<Longrightarrow> read_all crc bs = Inr rs"
proof (induction crc bs arbitrary: rs rule: read_all_strict.induct)
  case (1 crc bs)
  show ?case
  proof (cases "wal_decode crc bs")
    case (Inr res)
    show ?thesis
    proof (cases res)
      case None
      with Inr "1.prems" show ?thesis
        by (simp add: read_all_strict.simps [of crc bs] read_all.simps [of crc bs])
    next
      case (Some p)
      obtain r rest where p: "p = (r, rest)" by (cases p)
      with Inr Some "1.prems" obtain rs' where "read_all_strict crc rest = Inr rs'" "rs = r # rs'"
        by (auto simp: read_all_strict.simps [of crc bs] split: sum.splits)
      with "1.IH" [OF Inr Some p [symmetric]] Inr Some p show ?thesis
        by (simp add: read_all.simps [of crc bs])
    qed
  qed (use "1.prems" in \<open>simp add: read_all_strict.simps [of crc bs]\<close>)
qed

lemma read_all_torn:
  assumes "\<forall>r \<in> set rs. length (wr_data r) \<le> MAX_RECORD"
  shows "\<exists>k \<le> length rs. read_all crc (take n (concat (map (wal_encode crc) rs))) = Inr (take k rs) \<and>
     length (concat (map (wal_encode crc) (take k rs))) \<le> n \<and>
     (k < length rs \<longrightarrow> n < length (concat (map (wal_encode crc) (take (Suc k) rs))))"
  using assms
proof (induction rs arbitrary: n)
  case Nil
  then show ?case by simp
next
  case (Cons r rs)
  let ?e = "wal_encode crc r" and ?c = "\<lambda>rs. concat (map (wal_encode crc) rs)"
  have rlen: "length (wr_data r) \<le> MAX_RECORD" using Cons.prems by simp
  show ?case
  proof (cases "length ?e \<le> n")
    case True
    from Cons.IH [of "n - length ?e"] Cons.prems obtain k where
      k: "k \<le> length rs" "read_all crc (take (n - length ?e) (?c rs)) = Inr (take k rs)"
        "length (?c (take k rs)) \<le> n - length ?e"
        "k < length rs \<longrightarrow> n - length ?e < length (?c (take (Suc k) rs))"
      by (metis list.set_intros(2))
    have "read_all crc (take n (?c (r # rs))) = Inr (take (Suc k) (r # rs))"
      using True read_all_record [OF rlen k(2)] by simp
    then show ?thesis
      using k True by (intro exI [of _ "Suc k"]) auto
  next
    case False
    then have "take n (?c (r # rs)) = take n ?e" by simp
    moreover have "read_all crc (take n ?e) = Inr []"
      using False rlen wal_decode_torn [of r n crc]
      by (intro read_all_stop) (simp_all add: MAX_RECORD_def)
    ultimately show ?thesis
      using False by (intro exI [of _ 0]) simp
  qed
qed

section \<open>Durability of the writer\<close>

text \<open>\<open>wal_holds crc w synced pend\<close>: the records \<open>synced\<close> are on disk and \<open>pend\<close> are written but
  not fsynced. A crash keeps the disk and any prefix of the pending bytes.\<close>

definition wal_holds ::
  "(bytes \<Rightarrow> 32 word) \<Rightarrow> wal_writer \<Rightarrow> wal_record list \<Rightarrow> wal_record list \<Rightarrow> bool" where
  "wal_holds crc w synced pend \<longleftrightarrow>
     ww_disk w = concat (map (wal_encode crc) synced) \<and>
     ww_pending w = concat (map (wal_encode crc) pend) \<and>
     ww_bytes_written w = length (ww_disk w) + length (ww_pending w)"

lemma wal_holds_open: "wal_holds crc (wal_open (concat (map (wal_encode crc) rs))) rs []"
  by (simp add: wal_holds_def wal_open_def)

lemma wal_holds_append:
  "wal_holds crc w ss ps \<Longrightarrow> wal_append crc ok w d = (res, w') \<Longrightarrow>
     wal_holds crc w' ss (if ok then ps @ [\<lparr>wr_data = d\<rparr>] else ps)"
  by (auto simp: wal_holds_def wal_append_def split: if_splits)

lemma wal_holds_sync:
  "wal_holds crc w ss ps \<Longrightarrow> wal_sync ok w = (res, w') \<Longrightarrow>
     (if ok then wal_holds crc w' (ss @ ps) [] else w' = w)"
  by (auto simp: wal_holds_def wal_sync_def split: if_splits)

lemma wal_crash_recovery:
  assumes "wal_holds crc w ss ps" and "\<forall>r \<in> set (ss @ ps). length (wr_data r) \<le> MAX_RECORD"
  shows "\<exists>k \<le> length ps. read_all crc (ww_disk w @ take n (ww_pending w)) = Inr (ss @ take k ps)"
proof -
  from read_all_torn [of ps crc n] assms(2) obtain k where
    "k \<le> length ps" "read_all crc (take n (concat (map (wal_encode crc) ps))) = Inr (take k ps)"
    by auto
  then show ?thesis
    using assms read_all_records [of ss crc _ "take k ps"] by (auto simp: wal_holds_def)
qed

section \<open>Clients of the log\<close>

text \<open>Both users of the log (\<open>RaftLog::open\<close> and \<open>LsmTree::open\<close>) decode the payload of every replayed
  record in order and stop at the first error (\<open>?\<close>); a panic inside the decoder is \<open>None\<close>.\<close>

fun decode_records :: "(bytes \<Rightarrow> 'a result option) \<Rightarrow> wal_record list \<Rightarrow> 'a list result option" where
  "decode_records dec [] = Some (Inr [])"
| "decode_records dec (r # rs) =
     (case dec (wr_data r) of
        None \<Rightarrow> None
      | Some (Inl e) \<Rightarrow> Some (Inl e)
      | Some (Inr x) \<Rightarrow>
          (case decode_records dec rs of
             None \<Rightarrow> None
           | Some (Inl e) \<Rightarrow> Some (Inl e)
           | Some (Inr xs) \<Rightarrow> Some (Inr (x # xs))))"

text \<open>What a client promises of its payload encoding, and what it gets back from the log.\<close>

locale wal_payload =
  fixes encode :: "'a \<Rightarrow> bytes"
    and decode :: "bytes \<Rightarrow> 'a result option"
    and valid :: "'a \<Rightarrow> bool"
  assumes decode_encode: "valid x \<Longrightarrow> decode (encode x) = Some (Inr x)"
    and encode_fits: "valid x \<Longrightarrow> length (encode x) \<le> MAX_RECORD"
begin

lemma encode_inject: "valid x \<Longrightarrow> valid y \<Longrightarrow> encode x = encode y \<longleftrightarrow> x = y"
  by (metis decode_encode option.inject sum.inject(2))

lemma decode_records_encode:
  "\<forall>x \<in> set xs. valid x \<Longrightarrow>
     decode_records decode (map (\<lambda>x. \<lparr>wr_data = encode x\<rparr>) xs) = Some (Inr xs)"
  by (induction xs) (simp_all add: decode_encode)

lemma recover_after_crash:
  assumes "wal_holds crc w (map (\<lambda>x. \<lparr>wr_data = encode x\<rparr>) xs) (map (\<lambda>x. \<lparr>wr_data = encode x\<rparr>) ys)"
    and "\<forall>x \<in> set (xs @ ys). valid x"
  shows "\<exists>k \<le> length ys. \<exists>rs. read_all crc (ww_disk w @ take n (ww_pending w)) = Inr rs \<and>
     decode_records decode rs = Some (Inr (xs @ take k ys))"
proof -
  have fits: "\<forall>r \<in> set (map (\<lambda>x. \<lparr>wr_data = encode x\<rparr>) xs @ map (\<lambda>x. \<lparr>wr_data = encode x\<rparr>) ys).
      length (wr_data r) \<le> MAX_RECORD"
    using assms(2) encode_fits by auto
  from wal_crash_recovery [OF assms(1) fits] obtain k where k: "k \<le> length ys"
    and rd: "read_all crc (ww_disk w @ take n (ww_pending w)) =
      Inr (map (\<lambda>x. \<lparr>wr_data = encode x\<rparr>) (xs @ take k ys))"
    by (auto simp: take_map)
  have "\<forall>x \<in> set (xs @ take k ys). valid x"
    using assms(2) by (auto dest: in_set_takeD)
  from k rd decode_records_encode [OF this] show ?thesis by blast
qed

end

section \<open>Properties of the log file\<close>

text \<open>C5: replay is total and sound on arbitrary bytes. Whatever a log file contains, \<open>read_all\<close> returns
  records and never an error, the file begins with exactly the encodings of these records, and
  \<open>read_all_strict\<close> returns the same records or refuses the file.\<close>

theorem wal_replay_sound:
  "\<exists>rs tail. read_all crc file = Inr rs \<and> file = concat (map (wal_encode crc) rs) @ tail \<and>
     (read_all_strict crc file = Inr rs \<or> (\<exists>e. read_all_strict crc file = Inl e))"
proof -
  obtain rs where rs: "read_all crc file = Inr rs" using read_all_no_error by blast
  have "read_all_strict crc file = Inr rs \<or> (\<exists>e. read_all_strict crc file = Inl e)"
  proof (cases "read_all_strict crc file")
    case (Inr rs')
    then have "read_all crc file = Inr rs'" by (rule read_all_strict_read_all)
    then show ?thesis using Inr rs by simp
  qed simp
  then show ?thesis using rs read_all_sound [OF rs] by blast
qed

fun wal_appends :: "(bytes \<Rightarrow> 32 word) \<Rightarrow> wal_writer \<Rightarrow> bytes list \<Rightarrow> wal_writer" where
  "wal_appends crc w [] = w"
| "wal_appends crc w (d # ds) = wal_appends crc (snd (wal_append crc True w d)) ds"

lemma wal_holds_appends:
  "wal_holds crc w ss ps \<Longrightarrow> wal_holds crc (wal_appends crc w ds) ss (ps @ map wal_record.make ds)"
proof (induction ds arbitrary: w ps)
  case (Cons d ds)
  have "wal_holds crc (snd (wal_append crc True w d)) ss (ps @ [\<lparr>wr_data = d\<rparr>])"
    using wal_holds_append [OF Cons.prems, of True d] by (simp add: wal_append_def)
  from Cons.IH [OF this] show ?case by (simp add: wal_record.make_def)
qed simp



end
