(* ===== verification/Raft_Log.thy ===== *)
theory Raft_Log
  imports Wal
begin

text \<open>
  The Raft log of \<open>raft-consensus/src/log.rs\<close>, with the entries of \<open>message.rs\<close>.

  Entries live in a vector behind a snapshot point: entry \<open>k\<close> of the vector has index
  \<open>snapshot_index + k + 1\<close> in a well-formed log (\<open>wf_log\<close>). Every operation is stated through
  \<open>log_get\<close>, the partial map from indices to entries. \<open>append\<close> writes to the WAL first; the \<open>k\<close>-th
  WAL call of an operation succeeds iff \<open>ok k\<close>.
\<close>

datatype entry_type = Normal | ConfigChange | Noop

record log_entry =
  e_index :: log_index
  e_term :: raft_term
  e_data :: bytes
  e_type :: entry_type

record raft_log =
  rl_entries :: "log_entry list"
  rl_wal :: wal_writer
  rl_snapshot_index :: log_index
  rl_snapshot_term :: raft_term

section \<open>Entry encoding\<close>

fun type_byte :: "entry_type \<Rightarrow> byte" where
  "type_byte Normal = 0"
| "type_byte ConfigChange = 1"
| "type_byte Noop = 2"

definition encode_entry :: "log_entry \<Rightarrow> bytes" where
  "encode_entry e =
     le_bytes 8 (e_index e) @ le_bytes 8 (e_term e) @ [type_byte (e_type e)] @
     le_bytes 4 (as_u32 (length (e_data e))) @ e_data e"

definition decode_entry :: "bytes \<Rightarrow> log_entry result option" where
  "decode_entry data =
     (if length data < 21 then Some (Inl (Corruption ''log entry too short''))
      else
        let index = le_value (take 8 data);
            term = le_value (take 8 (drop 8 data));
            t = data ! 16
        in if t \<notin> {0, 1, 2} then Some (Inl (Corruption ''unknown entry type''))
           else
             let ty = (if t = 0 then Normal else if t = 1 then ConfigChange else Noop);
                 data_len = le_value (take 4 (drop 17 data))
             in case subslice data 21 (21 + data_len) of
                  None \<Rightarrow> None
                | Some d \<Rightarrow> Some (Inr \<lparr>e_index = index, e_term = term, e_data = d, e_type = ty\<rparr>))"

section \<open>Operations\<close>

definition log_open :: "(bytes \<Rightarrow> 32 word) \<Rightarrow> bytes option \<Rightarrow> raft_log result option" where
  "log_open crc file =
     (case (case file of
              None \<Rightarrow> Some (Inr [])
            | Some bs \<Rightarrow>
                (case read_all crc bs of
                   Inl e \<Rightarrow> Some (Inl e)
                 | Inr rs \<Rightarrow> decode_records decode_entry rs)) of
        None \<Rightarrow> None
      | Some (Inl e) \<Rightarrow> Some (Inl e)
      | Some (Inr es) \<Rightarrow>
          Some (Inr \<lparr>rl_entries = es,
                     rl_wal = wal_open (case file of None \<Rightarrow> [] | Some bs \<Rightarrow> bs),
                     rl_snapshot_index = 0, rl_snapshot_term = 0\<rparr>))"

fun wal_append_all ::
  "(bytes \<Rightarrow> 32 word) \<Rightarrow> (nat \<Rightarrow> bool) \<Rightarrow> nat \<Rightarrow> wal_writer \<Rightarrow> log_entry list \<Rightarrow> unit result \<times> wal_writer" where
  "wal_append_all crc ok k w [] = (Inr (), w)"
| "wal_append_all crc ok k w (e # es) =
     (case wal_append crc (ok k) w (encode_entry e) of
        (Inl err, w') \<Rightarrow> (Inl err, w')
      | (Inr _, w') \<Rightarrow> wal_append_all crc ok (Suc k) w' es)"

definition log_append ::
  "(bytes \<Rightarrow> 32 word) \<Rightarrow> (nat \<Rightarrow> bool) \<Rightarrow> raft_log \<Rightarrow> log_entry list \<Rightarrow> unit result \<times> raft_log" where
  "log_append crc ok l es =
     (case wal_append_all crc ok 0 (rl_wal l) es of
        (Inl err, w) \<Rightarrow> (Inl err, l\<lparr>rl_wal := w\<rparr>)
      | (Inr _, w) \<Rightarrow>
          (case wal_sync (ok (length es)) w of
             (Inl err, w') \<Rightarrow> (Inl err, l\<lparr>rl_wal := w'\<rparr>)
           | (Inr _, w') \<Rightarrow> (Inr (), l\<lparr>rl_wal := w', rl_entries := rl_entries l @ es\<rparr>)))"

definition log_get :: "raft_log \<Rightarrow> log_index \<Rightarrow> log_entry option" where
  "log_get l i =
     (if i = 0 \<or> i \<le> rl_snapshot_index l then None
      else vec_get (rl_entries l) (i - rl_snapshot_index l - 1))"

definition log_last_index :: "raft_log \<Rightarrow> log_index" where
  "log_last_index l =
     (if rl_entries l = [] then rl_snapshot_index l else e_index (last (rl_entries l)))"

definition log_last_term :: "raft_log \<Rightarrow> raft_term" where
  "log_last_term l =
     (if rl_entries l = [] then rl_snapshot_term l else e_term (last (rl_entries l)))"

definition log_term_at :: "raft_log \<Rightarrow> log_index \<Rightarrow> raft_term option" where
  "log_term_at l i =
     (if i = 0 then Some 0
      else if i = rl_snapshot_index l then Some (rl_snapshot_term l)
      else map_option e_term (log_get l i))"

definition log_match_term :: "raft_log \<Rightarrow> log_index \<Rightarrow> raft_term \<Rightarrow> bool" where
  "log_match_term l i t \<longleftrightarrow> log_term_at l i = Some t"

definition log_entries_from :: "raft_log \<Rightarrow> log_index \<Rightarrow> log_entry list" where
  "log_entries_from l start =
     (if start \<le> rl_snapshot_index l then rl_entries l
      else
        let vec_idx = start - rl_snapshot_index l - 1
        in if vec_idx \<ge> length (rl_entries l) then [] else drop vec_idx (rl_entries l))"

definition log_truncate_after :: "raft_log \<Rightarrow> log_index \<Rightarrow> raft_log" where
  "log_truncate_after l i =
     (if i \<le> rl_snapshot_index l then l\<lparr>rl_entries := []\<rparr>
      else l\<lparr>rl_entries := take (i - rl_snapshot_index l) (rl_entries l)\<rparr>)"

definition log_len :: "raft_log \<Rightarrow> nat" where
  "log_len l = length (rl_entries l)"

definition log_is_empty :: "raft_log \<Rightarrow> bool" where
  "log_is_empty l \<longleftrightarrow> rl_entries l = []"

definition log_compact :: "raft_log \<Rightarrow> log_index \<Rightarrow> raft_term \<Rightarrow> raft_log" where
  "log_compact l si st =
     (if si \<le> rl_snapshot_index l then l
      else
        let discard = si - rl_snapshot_index l
        in l\<lparr>rl_entries := (if discard \<ge> length (rl_entries l) then [] else drop discard (rl_entries l)),
             rl_snapshot_index := si, rl_snapshot_term := st\<rparr>)"

section \<open>Entry encoding round trip\<close>

definition valid_entry :: "log_entry \<Rightarrow> bool" where
  "valid_entry e \<longleftrightarrow> e_index e < 2 ^ 64 \<and> e_term e < 2 ^ 64 \<and> 21 + length (e_data e) \<le> MAX_RECORD"

lemma decode_encode_entry:
  assumes "valid_entry e"
  shows "decode_entry (encode_entry e) = Some (Inr e)"
proof -
  have bounds: "e_index e < 256 ^ 8" "e_term e < 256 ^ 8" "length (e_data e) < 2 ^ 32"
    using assms by (auto simp: valid_entry_def MAX_RECORD_def)
  have t16: "encode_entry e ! 16 = type_byte (e_type e)"
    by (simp add: encode_entry_def nth_append)
  have l4: "take 4 (drop 17 (encode_entry e)) = le_bytes 4 (length (e_data e))"
    using bounds by (simp add: encode_entry_def drop_Cons')
  have d: "subslice (encode_entry e) 21 (21 + length (e_data e)) = Some (e_data e)"
    by (simp add: encode_entry_def subslice_def drop_Cons')
  have i8: "take 8 (encode_entry e) = le_bytes 8 (e_index e)"
    and t8: "take 8 (drop 8 (encode_entry e)) = le_bytes 8 (e_term e)"
    by (simp_all add: encode_entry_def)
  have len: "\<not> length (encode_entry e) < 21" by (simp add: encode_entry_def)
  have ty: "type_byte (e_type e) \<in> {0, 1, 2}" by (cases "e_type e") auto
  have "\<lparr>e_index = e_index e, e_term = e_term e, e_data = e_data e, e_type = e_type e\<rparr> = e"
    by simp
  then show ?thesis
    using len ty d bounds
    by (cases "e_type e") (simp_all add: decode_entry_def Let_def t16 l4 i8 t8 le_value_small)
qed

interpretation log_payload: wal_payload encode_entry decode_entry valid_entry
proof
  show "decode_entry (encode_entry e) = Some (Inr e)" if "valid_entry e" for e
    using that by (rule decode_encode_entry)
  show "length (encode_entry e) \<le> MAX_RECORD" if "valid_entry e" for e
    using that by (simp add: encode_entry_def valid_entry_def)
qed

section \<open>Well-formed logs\<close>

definition contiguous :: "log_index \<Rightarrow> log_entry list \<Rightarrow> bool" where
  "contiguous i es \<longleftrightarrow> map e_index es = [Suc i ..< Suc i + length es]"

definition wf_log :: "raft_log \<Rightarrow> bool" where
  "wf_log l \<longleftrightarrow> contiguous (rl_snapshot_index l) (rl_entries l)"

lemma contiguous_Nil [simp]: "contiguous i []"
  by (simp add: contiguous_def)

lemma contiguous_Cons [simp]:
  "contiguous i (e # es) \<longleftrightarrow> e_index e = Suc i \<and> contiguous (Suc i) es"
  by (simp add: contiguous_def upt_conv_Cons del: upt_Suc)

lemma contiguous_nth: "contiguous i es \<Longrightarrow> k < length es \<Longrightarrow> e_index (es ! k) = Suc (i + k)"
  by (induction es arbitrary: i k) (auto simp: nth_Cons split: nat.splits)

lemma contiguous_append [simp]:
  "contiguous i (xs @ ys) \<longleftrightarrow> contiguous i xs \<and> contiguous (i + length xs) ys"
  by (induction xs arbitrary: i) auto

lemma contiguous_take: "contiguous i es \<Longrightarrow> contiguous i (take n es)"
  by (metis append_take_drop_id contiguous_append)

lemma contiguous_drop: "contiguous i es \<Longrightarrow> n \<le> length es \<Longrightarrow> contiguous (i + n) (drop n es)"
  by (metis append_take_drop_id contiguous_append length_take min.absorb2)

lemma log_last_index_wf [log_simps]:
  assumes "wf_log l"
  shows "log_last_index l = rl_snapshot_index l + length (rl_entries l)"
proof (cases "rl_entries l = []")
  case True
  then show ?thesis by (simp add: log_last_index_def)
next
  case False
  then have "e_index (last (rl_entries l)) = Suc (rl_snapshot_index l + (length (rl_entries l) - 1))"
    using assms contiguous_nth [of _ "rl_entries l" "length (rl_entries l) - 1"]
    by (simp add: last_conv_nth wf_log_def)
  then show ?thesis using False by (simp add: log_last_index_def)
qed

lemma log_get_index: "wf_log l \<Longrightarrow> log_get l i = Some e \<Longrightarrow> e_index e = i"
  by (auto simp: log_get_def vec_get_def wf_log_def contiguous_nth split: if_splits)

lemma log_get_defined [log_simps]:
  "wf_log l \<Longrightarrow> log_get l i \<noteq> None \<longleftrightarrow> rl_snapshot_index l < i \<and> i \<le> log_last_index l"
  by (auto simp: log_get_def vec_get_def log_last_index_wf)

lemma log_get_None_iff [log_simps]:
  "wf_log l \<Longrightarrow> log_get l i = None \<longleftrightarrow> i \<le> rl_snapshot_index l \<or> log_last_index l < i"
  using log_get_defined [of l i] by auto

lemma wf_log_append:
  "wf_log l \<Longrightarrow> contiguous (log_last_index l) es \<Longrightarrow> wf_log (l\<lparr>rl_entries := rl_entries l @ es\<rparr>)"
  using log_last_index_wf [of l] by (simp add: wf_log_def)

lemma log_get_append:
  assumes "wf_log l"
  shows "log_get (l\<lparr>rl_entries := rl_entries l @ es\<rparr>) i =
     (if i \<le> log_last_index l then log_get l i else vec_get es (i - log_last_index l - 1))"
proof -
  have "i - rl_snapshot_index l - 1 < length (rl_entries l) \<longleftrightarrow>
      i \<le> rl_snapshot_index l + length (rl_entries l)" if "rl_snapshot_index l < i"
    using that by linarith
  then show ?thesis
    using assms by (simp add: log_get_def log_last_index_wf vec_get_append)
qed

lemma wf_log_truncate [simp]: "wf_log l \<Longrightarrow> wf_log (log_truncate_after l i)"
  by (simp add: wf_log_def log_truncate_after_def contiguous_take)

lemma snapshot_truncate [simp]:
  "rl_snapshot_index (log_truncate_after l i) = rl_snapshot_index l"
  "rl_snapshot_term (log_truncate_after l i) = rl_snapshot_term l"
  by (simp_all add: log_truncate_after_def)

lemma log_get_truncate:
  "log_get (log_truncate_after l i) j = (if j \<le> i then log_get l j else None)"
  by (auto simp: log_get_def log_truncate_after_def vec_get_take)

lemma last_index_truncate:
  "wf_log l \<Longrightarrow> rl_snapshot_index l \<le> i \<Longrightarrow> i \<le> log_last_index l \<Longrightarrow>
     log_last_index (log_truncate_after l i) = i"
  using log_last_index_wf [OF wf_log_truncate, of l i]
  by (auto simp: log_last_index_wf log_truncate_after_def)

lemma wf_log_compact: "wf_log l \<Longrightarrow> wf_log (log_compact l si st)"
  using contiguous_drop [of "rl_snapshot_index l" "rl_entries l" "si - rl_snapshot_index l"]
  by (auto simp: wf_log_def log_compact_def Let_def)

lemma log_get_compact:
  "log_get (log_compact l si st) i =
     (if i \<le> si \<or> i \<le> rl_snapshot_index l then None else log_get l i)"
  by (auto simp: log_get_def log_compact_def Let_def vec_get_drop vec_get_def)

lemma last_index_compact:
  "wf_log l \<Longrightarrow> log_last_index (log_compact l si st) = max si (log_last_index l)"
  using log_last_index_wf [OF wf_log_compact, of l si st]
  by (auto simp: log_last_index_wf log_compact_def Let_def)

lemma log_entries_from_contiguous:
  assumes "wf_log l" and "rl_snapshot_index l < start"
  shows "contiguous (start - 1) (log_entries_from l start)"
proof (cases "start - rl_snapshot_index l - 1 < length (rl_entries l)")
  case True
  then show ?thesis
    using assms contiguous_drop [of "rl_snapshot_index l" "rl_entries l" "start - rl_snapshot_index l - 1"]
    by (simp add: log_entries_from_def Let_def wf_log_def)
next
  case False
  then show ?thesis
    using assms by (simp add: log_entries_from_def Let_def)
qed

lemma vec_get_entries_from:
  "rl_snapshot_index l < start \<Longrightarrow> vec_get (log_entries_from l start) k = log_get l (start + k)"
  by (simp add: log_entries_from_def Let_def log_get_def vec_get_drop) (auto simp: vec_get_def)

lemma length_entries_from:
  "wf_log l \<Longrightarrow> rl_snapshot_index l < start \<Longrightarrow>
     length (log_entries_from l start) = Suc (log_last_index l) - start"
  by (auto simp: log_entries_from_def Let_def log_last_index_wf)

section \<open>Durability\<close>

abbreviation entry_record :: "log_entry \<Rightarrow> wal_record" where
  "entry_record e \<equiv> \<lparr>wr_data = encode_entry e\<rparr>"

lemma wal_append_all_holds:
  "wal_append_all crc ok k w es = (res, w') \<Longrightarrow> wal_holds crc w ss ps \<Longrightarrow>
     \<exists>n \<le> length es. wal_holds crc w' ss (ps @ map entry_record (take n es)) \<and>
       (res = Inr () \<longrightarrow> n = length es)"
proof (induction crc ok k w es arbitrary: ps rule: wal_append_all.induct)
  case (1 crc ok k w)
  then show ?case by simp
next
  case (2 crc ok k w e es)
  obtain r1 w1 where a: "wal_append crc (ok k) w (encode_entry e) = (r1, w1)"
    by (cases "wal_append crc (ok k) w (encode_entry e)")
  show ?case
  proof (cases "ok k")
    case True
    then have r1: "r1 = Inr ()" using a by (auto simp: wal_append_def)
    have hold: "wal_holds crc w1 ss (ps @ [entry_record e])"
      using wal_holds_append [OF "2.prems"(2) a] True by simp
    have rec: "wal_append_all crc ok (Suc k) w1 es = (res, w')"
      using "2.prems"(1) a r1 by simp
    from "2.IH" [OF a [symmetric] r1 rec hold] obtain n where
      "n \<le> length es" "wal_holds crc w' ss ((ps @ [entry_record e]) @ map entry_record (take n es))"
      "res = Inr () \<longrightarrow> n = length es"
      by blast
    then show ?thesis by (intro exI [of _ "Suc n"]) simp
  next
    case False
    then show ?thesis using "2.prems" by (auto simp: wal_append_def)
  qed
qed

lemma wal_append_all_ok:
  "(\<And>k. ok k) \<Longrightarrow> fst (wal_append_all crc ok k w es) = Inr ()"
  by (induction crc ok k w es rule: wal_append_all.induct) (auto simp: wal_append_def)

lemma log_append_fields:
  assumes "log_append crc ok l es = (res, l')"
  shows "rl_entries l' = (if res = Inr () then rl_entries l @ es else rl_entries l)"
    and "rl_snapshot_index l' = rl_snapshot_index l" "rl_snapshot_term l' = rl_snapshot_term l"
  using assms by (auto simp: log_append_def split: prod.splits sum.splits)

lemma log_append_ok: "(\<And>k. ok k) \<Longrightarrow> fst (log_append crc ok l es) = Inr ()"
  using wal_append_all_ok [of ok crc 0 "rl_wal l" es]
  by (auto simp: log_append_def wal_sync_def split: prod.splits sum.splits)

lemma log_append_holds:
  assumes "log_append crc ok l es = (Inr (), l')" and "wal_holds crc (rl_wal l) ss []"
  shows "wal_holds crc (rl_wal l') (ss @ map entry_record es) []"
proof -
  obtain w where w: "wal_append_all crc ok 0 (rl_wal l) es = (Inr (), w)"
    and sync: "wal_sync (ok (length es)) w = (Inr (), rl_wal l')"
    using assms(1) by (auto simp: log_append_def split: prod.splits sum.splits)
  have "wal_holds crc w ss (map entry_record es)"
    using wal_append_all_holds [OF w assms(2)] by auto
  from wal_holds_sync [OF this sync] show ?thesis
    using sync by (auto simp: wal_sync_def split: if_splits)
qed

lemma log_open_recovers:
  assumes "wal_holds crc w (map entry_record es) []" and "\<forall>e \<in> set es. valid_entry e"
  shows "log_open crc (Some (ww_disk w)) =
     Some (Inr \<lparr>rl_entries = es, rl_wal = wal_open (ww_disk w),
                rl_snapshot_index = 0, rl_snapshot_term = 0\<rparr>)"
proof -
  have "ww_pending w = []" using assms(1) by (simp add: wal_holds_def)
  with log_payload.recover_after_crash [of crc w es "[]" 0] assms
  show ?thesis by (auto simp: log_open_def)
qed

text \<open>A log whose file holds the records of the entries \<open>es\<close>, all synced.\<close>

definition log_on_disk :: "(bytes \<Rightarrow> 32 word) \<Rightarrow> raft_log \<Rightarrow> log_entry list \<Rightarrow> bool" where
  "log_on_disk crc l es \<longleftrightarrow> wal_holds crc (rl_wal l) (map entry_record es) []"

lemma log_append_crash:
  assumes "log_append crc ok l es' = (res, l')" and "log_on_disk crc l es"
  shows "\<exists>ss ps. wal_holds crc (rl_wal l') (map entry_record ss) (map entry_record ps) \<and>
     (\<exists>m \<le> length es'. ss @ ps = es @ take m es') \<and> (\<exists>ss'. ss = es @ ss') \<and> (res = Inr () \<longrightarrow> ss = es @ es' \<and> ps = [])"
proof -
  obtain r w where w: "wal_append_all crc ok 0 (rl_wal l) es' = (r, w)"
    by (cases "wal_append_all crc ok 0 (rl_wal l) es'")
  from wal_append_all_holds [OF w, of "map entry_record es" "[]"] assms(2) obtain m where
    m: "m \<le> length es'" "wal_holds crc w (map entry_record es) (map entry_record (take m es'))"
      "r = Inr () \<longrightarrow> m = length es'"
    by (auto simp: log_on_disk_def)
  show ?thesis
  proof (cases "r = Inr () \<and> ok (length es')")
    case True
    then have m': "m = length es'" "rl_wal l' = snd (wal_sync True w)" "res = Inr ()"
      using assms(1) w m(3) by (auto simp: log_append_def wal_sync_def)
    have "wal_holds crc (rl_wal l') (map entry_record (es @ es')) (map entry_record [])"
      using wal_holds_sync [OF m(2), of True] m' by (simp add: wal_sync_def)
    then show ?thesis by (intro exI [of _ "es @ es'"] exI [of _ "[]"]) auto
  next
    case False
    then have "rl_wal l' = w" "res \<noteq> Inr ()"
      using assms(1) w by (auto simp: log_append_def wal_sync_def split: sum.splits)
    then show ?thesis using m by (intro exI [of _ es] exI [of _ "take m es'"]) auto
  qed
qed


definition demo_entry :: "log_index \<Rightarrow> raft_term \<Rightarrow> byte \<Rightarrow> log_entry" where
  "demo_entry i t b = \<lparr>e_index = i, e_term = t, e_data = [b], e_type = Normal\<rparr>"

lemma valid_demo_entry: "i < 2 ^ 64 \<Longrightarrow> t < 2 ^ 64 \<Longrightarrow> valid_entry (demo_entry i t b)"
  by (simp add: valid_entry_def demo_entry_def MAX_RECORD_def)


end
