(* ===== verification/Raft_State.thy ===== *)
theory Raft_State
  imports Raft_Log
begin

text \<open>
  The data of a Raft node outside its log: the messages of \<open>message.rs\<close>, the roles and the persistent,
  leader and election state of \<open>state.rs\<close>, the vote predicate of \<open>election.rs\<close>, the transfer state of
  \<open>leadership_transfer.rs\<close> and the timer configuration of \<open>tick.rs\<close>.

  A \<open>HashMap\<close> is an association list with distinct keys (its order is one iteration order), a
  \<open>HashSet\<close> a set. The JSON codec of \<open>serde_json\<close> is a pair of parameters \<open>enc\<close>, \<open>dec\<close>; clock
  readings are arguments \<open>now\<close>; the random generator is an argument \<open>rng\<close>.
\<close>

section \<open>Messages\<close>

record vote_request =
  vq_term :: raft_term
  vq_candidate_id :: node_id
  vq_last_log_index :: log_index
  vq_last_log_term :: raft_term
  vq_is_pre_vote :: bool

record vote_response =
  vp_term :: raft_term
  vp_vote_granted :: bool

record append_request =
  aq_term :: raft_term
  aq_leader_id :: node_id
  aq_prev_log_index :: log_index
  aq_prev_log_term :: raft_term
  aq_entries :: "log_entry list"
  aq_leader_commit :: log_index

record append_response =
  ap_term :: raft_term
  ap_success :: bool
  ap_match_index :: log_index

record timeout_now =
  tn_term :: raft_term
  tn_leader_id :: node_id

datatype proposal_result =
    Success log_index
  | NotLeaderNow "node_id option"
  | TransferInProgress
  | ProposalError error

section \<open>Roles and state\<close>

datatype role = Follower | PreCandidate | Candidate | Leader

record persistent_state =
  ps_current_term :: raft_term
  ps_voted_for :: "node_id option"

definition persistent_new :: persistent_state where
  "persistent_new = \<lparr>ps_current_term = 0, ps_voted_for = None\<rparr>"

definition persistent_load ::
  "(bytes \<Rightarrow> persistent_state option) \<Rightarrow> bytes option \<Rightarrow> persistent_state" where
  "persistent_load dec file =
     (case file of
        None \<Rightarrow> persistent_new
      | Some data \<Rightarrow> (case dec data of None \<Rightarrow> persistent_new | Some p \<Rightarrow> p))"

text \<open>The state file and the temporary file beside it. \<open>save\<close> writes the temporary file and renames
  it over the state file; the results of both calls are dropped, so a short write followed by a
  rename replaces the state by a torn file.\<close>

record state_files =
  sf_state :: "bytes option"
  sf_tmp :: "bytes option"

definition persistent_save ::
  "(persistent_state \<Rightarrow> bytes) \<Rightarrow> io_outcome \<Rightarrow> bool \<Rightarrow> persistent_state \<Rightarrow> state_files \<Rightarrow> state_files" where
  "persistent_save enc write_io rename_ok p fs =
     (let tmp = written write_io (enc p) (sf_tmp fs)
      in if rename_ok \<and> tmp \<noteq> None then \<lparr>sf_state = tmp, sf_tmp = None\<rparr>
         else fs\<lparr>sf_tmp := tmp\<rparr>)"

record raft_state =
  rs_id :: node_id
  rs_role :: role
  rs_persistent :: persistent_state
  rs_leader_id :: "node_id option"
  rs_commit_index :: log_index
  rs_last_applied :: log_index

record leader_state =
  ls_next_index :: "(node_id \<times> log_index) list"
  ls_match_index :: "(node_id \<times> log_index) list"

definition track_peer :: "log_index \<Rightarrow> node_id \<Rightarrow> leader_state \<Rightarrow> leader_state" where
  "track_peer last_log_index peer s =
     s\<lparr>ls_next_index := AList.update peer (last_log_index + 1) (ls_next_index s),
       ls_match_index := AList.update peer 0 (ls_match_index s)\<rparr>"

definition leader_state_new :: "node_id list \<Rightarrow> log_index \<Rightarrow> leader_state" where
  "leader_state_new peers last_log_index =
     fold (track_peer last_log_index) peers \<lparr>ls_next_index = [], ls_match_index = []\<rparr>"

record election_state =
  es_votes_received :: "node_id set"
  es_votes_needed :: nat

definition election_state_new :: "nat \<Rightarrow> election_state" where
  "election_state_new cluster_size =
     \<lparr>es_votes_received = {}, es_votes_needed = cluster_size div 2 + 1\<rparr>"

definition election_has_quorum :: "election_state \<Rightarrow> bool" where
  "election_has_quorum e \<longleftrightarrow> card (es_votes_received e) \<ge> es_votes_needed e"

definition record_vote :: "election_state \<Rightarrow> node_id \<Rightarrow> election_state \<times> bool" where
  "record_vote e from =
     (let e' = e\<lparr>es_votes_received := insert from (es_votes_received e)\<rparr>
      in (e', election_has_quorum e'))"

section \<open>Granting votes\<close>

definition is_log_up_to_date ::
  "raft_term \<Rightarrow> log_index \<Rightarrow> raft_term \<Rightarrow> log_index \<Rightarrow> bool" where
  "is_log_up_to_date candidate_last_term candidate_last_index our_last_term our_last_index =
     (if candidate_last_term \<noteq> our_last_term then candidate_last_term > our_last_term
      else candidate_last_index \<ge> our_last_index)"

definition should_grant_vote ::
  "raft_state \<Rightarrow> vote_request \<Rightarrow> log_index \<Rightarrow> raft_term \<Rightarrow> bool" where
  "should_grant_vote state request our_last_log_index our_last_log_term =
     (if vq_term request < ps_current_term (rs_persistent state) then False
      else if (case ps_voted_for (rs_persistent state) of
                 Some voted_for \<Rightarrow> voted_for \<noteq> vq_candidate_id request
               | None \<Rightarrow> False)
        then False
      else is_log_up_to_date (vq_last_log_term request) (vq_last_log_index request)
             our_last_log_term our_last_log_index)"

section \<open>Leadership transfer\<close>

record transfer_state =
  ts_target :: node_id
  ts_started_at :: instant
  ts_timeout_now_sent :: bool

definition transfer_state_new :: "instant \<Rightarrow> node_id \<Rightarrow> transfer_state" where
  "transfer_state_new now target =
     \<lparr>ts_target = target, ts_started_at = now, ts_timeout_now_sent = False\<rparr>"

definition as_millis :: "nat \<Rightarrow> nat" where
  "as_millis nanos = nanos div 1000000"

definition transfer_is_expired :: "instant \<Rightarrow> transfer_state \<Rightarrow> nat \<Rightarrow> bool" where
  "transfer_is_expired now t timeout_ms \<longleftrightarrow>
     as_millis (now - ts_started_at t) mod 2 ^ 64 > timeout_ms"

datatype transfer_error =
  TransferNotLeader | TransferAlreadyInProgress | TargetNotInCluster | AlreadyLeader

section \<open>Timers\<close>

record tick_config =
  tc_election_timeout_min :: nat
  tc_election_timeout_max :: nat
  tc_heartbeat_interval :: nat

definition tick_config_new :: "nat \<Rightarrow> nat \<Rightarrow> nat \<Rightarrow> tick_config" where
  "tick_config_new min_ms max_ms heartbeat_ms =
     \<lparr>tc_election_timeout_min = min_ms * 1000000, tc_election_timeout_max = max_ms * 1000000,
      tc_heartbeat_interval = heartbeat_ms * 1000000\<rparr>"

definition tick_config_default :: tick_config where
  "tick_config_default = tick_config_new 150 300 50"

definition election_timeout_max_ms :: "tick_config \<Rightarrow> nat" where
  "election_timeout_max_ms c = as_millis (tc_election_timeout_max c) mod 2 ^ 64"

text \<open>\<open>gen_range(min..=max)\<close> panics on an empty range.\<close>

definition random_election_timeout :: "(nat \<Rightarrow> nat \<Rightarrow> nat) \<Rightarrow> tick_config \<Rightarrow> nat option" where
  "random_election_timeout rng c =
     (let lo = as_millis (tc_election_timeout_min c) mod 2 ^ 64;
          hi = as_millis (tc_election_timeout_max c) mod 2 ^ 64
      in if lo > hi then None else Some (rng lo hi * 1000000))"

section \<open>Facts\<close>

lemma persistent_save_ok [simp]:
  "persistent_save enc IoOk True p fs = \<lparr>sf_state = Some (enc p), sf_tmp = None\<rparr>"
  by (simp add: persistent_save_def)

lemma persistent_load_save:
  "(\<And>p. dec (enc p) = Some p) \<Longrightarrow> persistent_load dec (sf_state (persistent_save enc IoOk True p fs)) = p"
  by (simp add: persistent_load_def)

text \<open>A crash before the rename keeps the old state.\<close>

lemma persistent_save_crash [simp]: "sf_state (persistent_save enc io False p fs) = sf_state fs"
  by (simp add: persistent_save_def)

lemma fold_track_peer:
  "map_of (ls_match_index (fold (track_peer l) peers s)) p =
     (if p \<in> set peers then Some 0 else map_of (ls_match_index s) p)"
  "map_of (ls_next_index (fold (track_peer l) peers s)) p =
     (if p \<in> set peers then Some (l + 1) else map_of (ls_next_index s) p)"
  by (induction peers arbitrary: s) (auto simp: track_peer_def update_conv')

lemma leader_state_new_maps:
  "map_of (ls_match_index (leader_state_new peers l)) p = (if p \<in> set peers then Some 0 else None)"
  "map_of (ls_next_index (leader_state_new peers l)) p = (if p \<in> set peers then Some (l + 1) else None)"
  by (simp_all add: leader_state_new_def fold_track_peer)

lemma is_log_up_to_date_refl [simp]: "is_log_up_to_date t i t i"
  by (simp add: is_log_up_to_date_def)

lemma is_log_up_to_date_trans:
  "is_log_up_to_date t1 i1 t2 i2 \<Longrightarrow> is_log_up_to_date t2 i2 t3 i3 \<Longrightarrow> is_log_up_to_date t1 i1 t3 i3"
  by (auto simp: is_log_up_to_date_def split: if_splits)

lemma is_log_up_to_date_total: "is_log_up_to_date t1 i1 t2 i2 \<or> is_log_up_to_date t2 i2 t1 i1"
  by (auto simp: is_log_up_to_date_def)

lemma should_grant_vote_iff:
  "should_grant_vote s r i t \<longleftrightarrow>
     ps_current_term (rs_persistent s) \<le> vq_term r \<and>
     (ps_voted_for (rs_persistent s) = None \<or>
      ps_voted_for (rs_persistent s) = Some (vq_candidate_id r)) \<and>
     is_log_up_to_date (vq_last_log_term r) (vq_last_log_index r) t i"
  by (auto simp: should_grant_vote_def split: option.splits)

end
