(* ===== verification/Membership.thy ===== *)
theory Membership
  imports Raft_State
begin

text \<open>
  Cluster membership with joint consensus (\<open>raft-consensus/src/membership.rs\<close>) and the quorum
  arguments built on it.

  The locale \<open>voting_config\<close> is what the node relies on: two quorums of one configuration share a
  member, so votes that a member casts once choose one candidate. It is interpreted on the election
  quorum of \<open>state.rs\<close> and on \<open>MembershipState::has_quorum\<close>.
\<close>

section \<open>Quorum systems\<close>

locale voting_config =
  fixes wf :: "'c \<Rightarrow> bool"
    and quorum :: "'c \<Rightarrow> node_id set \<Rightarrow> bool"
  assumes quorum_intersect: "wf c \<Longrightarrow> quorum c A \<Longrightarrow> quorum c B \<Longrightarrow> A \<inter> B \<noteq> {}"
begin

lemma quorum_nonempty: "wf c \<Longrightarrow> quorum c A \<Longrightarrow> A \<noteq> {}"
  using quorum_intersect [of c A A] by simp

lemma unique_choice:
  assumes "wf c" "quorum c A" "quorum c B"
    and "\<And>v. v \<in> A \<Longrightarrow> vote v x" "\<And>v. v \<in> B \<Longrightarrow> vote v y"
    and "\<And>v a b. vote v a \<Longrightarrow> vote v b \<Longrightarrow> a = b"
  shows "x = y"
  using assms quorum_intersect [of c A B] by (metis disjoint_iff)

end

section \<open>Counting majorities\<close>

lemma length_filter_disjoint:
  "(\<And>x. x \<in> set xs \<Longrightarrow> \<not> (P x \<and> Q x)) \<Longrightarrow> length (filter P xs) + length (filter Q xs) \<le> length xs"
  by (induction xs) (auto simp: le_Suc_eq intro: le_SucI)

lemma majorities_share_element:
  assumes "length xs div 2 + 1 \<le> length (filter P xs)" and "length xs div 2 + 1 \<le> length (filter Q xs)"
  shows "\<exists>x \<in> set xs. P x \<and> Q x"
proof (rule ccontr)
  assume "\<not> (\<exists>x \<in> set xs. P x \<and> Q x)"
  then have "length (filter P xs) + length (filter Q xs) \<le> length xs"
    by (intro length_filter_disjoint) blast
  then show False using assms by linarith
qed

text \<open>The quorum of an election: \<open>cluster_size / 2 + 1\<close> distinct voters of the cluster.\<close>

definition election_quorum :: "node_id list \<Rightarrow> node_id set \<Rightarrow> bool" where
  "election_quorum cluster A \<longleftrightarrow>
     A \<subseteq> set cluster \<and> election_has_quorum ((election_state_new (length cluster))\<lparr>es_votes_received := A\<rparr>)"

lemma election_quorum_intersect:
  assumes "distinct cluster" "election_quorum cluster A" "election_quorum cluster B"
  shows "A \<inter> B \<noteq> {}"
proof -
  have count: "length cluster div 2 + 1 \<le> length (filter (\<lambda>x. x \<in> S) cluster)"
    if "election_quorum cluster S" for S
  proof -
    have "set (filter (\<lambda>x. x \<in> S) cluster) = S"
      using that by (auto simp: election_quorum_def)
    then have "length (filter (\<lambda>x. x \<in> S) cluster) = card S"
      using assms(1) by (metis distinct_card distinct_filter)
    then show ?thesis
      using that by (simp add: election_quorum_def election_has_quorum_def election_state_new_def)
  qed
  from majorities_share_element [OF count [OF assms(2)] count [OF assms(3)]]
  show ?thesis by auto
qed

interpretation elections: voting_config distinct election_quorum
  by unfold_locales (rule election_quorum_intersect)

section \<open>Configurations\<close>

record member_info =
  mi_id :: node_id
  mi_address :: string

record cluster_config =
  cc_members :: "member_info list"

definition cluster_config_new :: "member_info list \<Rightarrow> cluster_config" where
  "cluster_config_new members = \<lparr>cc_members = members\<rparr>"

definition member_ids :: "cluster_config \<Rightarrow> node_id set" where
  "member_ids c = mi_id ` set (cc_members c)"

definition config_contains :: "cluster_config \<Rightarrow> node_id \<Rightarrow> bool" where
  "config_contains c i \<longleftrightarrow> list_ex (\<lambda>m. mi_id m = i) (cc_members c)"

definition config_len :: "cluster_config \<Rightarrow> nat" where
  "config_len c = length (cc_members c)"

definition config_is_empty :: "cluster_config \<Rightarrow> bool" where
  "config_is_empty c \<longleftrightarrow> cc_members c = []"

datatype config_change = AddNode node_id string | RemoveNode node_id

datatype membership_error =
    ChangeInProgress
  | NodeAlreadyExists node_id
  | NodeNotFound node_id
  | CannotRemoveLastNode
  | InvalidConfigData
  | MemberNotLeader

record joint_config_data =
  jc_old :: cluster_config
  jc_new :: cluster_config

record membership_state =
  ms_current :: cluster_config
  ms_pending :: "cluster_config option"
  ms_change_in_progress :: bool

definition membership_new :: "node_id \<Rightarrow> node_id list \<Rightarrow> membership_state" where
  "membership_new self_id peers =
     \<lparr>ms_current = cluster_config_new
        (\<lparr>mi_id = self_id, mi_address = ''''\<rparr> # map (\<lambda>p. \<lparr>mi_id = p, mi_address = ''''\<rparr>) peers),
      ms_pending = None, ms_change_in_progress = False\<rparr>"

definition from_config :: "cluster_config \<Rightarrow> membership_state" where
  "from_config c = \<lparr>ms_current = c, ms_pending = None, ms_change_in_progress = False\<rparr>"

definition in_joint_consensus :: "membership_state \<Rightarrow> bool" where
  "in_joint_consensus m \<longleftrightarrow> ms_pending m \<noteq> None"

definition all_voters :: "membership_state \<Rightarrow> node_id set" where
  "all_voters m =
     (case ms_pending m of
        None \<Rightarrow> member_ids (ms_current m)
      | Some p \<Rightarrow> member_ids (ms_current m) \<union> member_ids p)"

definition current_size :: "membership_state \<Rightarrow> nat" where
  "current_size m = config_len (ms_current m)"

definition has_quorum :: "membership_state \<Rightarrow> node_id set \<Rightarrow> bool" where
  "has_quorum m voters =
     (let old_count = length (filter (\<lambda>x. mi_id x \<in> voters) (cc_members (ms_current m)));
          old_quorum = config_len (ms_current m) div 2 + 1
      in if old_count < old_quorum then False
         else
           (case ms_pending m of
              None \<Rightarrow> True
            | Some new_config \<Rightarrow>
                (let new_count = length (filter (\<lambda>x. mi_id x \<in> voters) (cc_members new_config));
                     new_quorum = config_len new_config div 2 + 1
                 in \<not> new_count < new_quorum)))"

definition begin_change ::
  "membership_state \<Rightarrow> config_change \<Rightarrow> (membership_error + joint_config_data) \<times> membership_state" where
  "begin_change m change =
     (if ms_change_in_progress m then (Inl ChangeInProgress, m)
      else
        case (case change of
                AddNode i address \<Rightarrow>
                  (if config_contains (ms_current m) i then Inl (NodeAlreadyExists i)
                   else Inr (cc_members (ms_current m) @ [\<lparr>mi_id = i, mi_address = address\<rparr>]))
              | RemoveNode i \<Rightarrow>
                  (if \<not> config_contains (ms_current m) i then Inl (NodeNotFound i)
                   else
                     let new_members = filter (\<lambda>x. mi_id x \<noteq> i) (cc_members (ms_current m))
                     in if new_members = [] then Inl CannotRemoveLastNode else Inr new_members)) of
          Inl e \<Rightarrow> (Inl e, m)
        | Inr new_members \<Rightarrow>
            let new_config = cluster_config_new new_members
            in (Inr \<lparr>jc_old = ms_current m, jc_new = new_config\<rparr>,
                m\<lparr>ms_pending := Some new_config, ms_change_in_progress := True\<rparr>))"

definition finalize_joint :: "membership_state \<Rightarrow> cluster_config option \<times> membership_state" where
  "finalize_joint m =
     (case ms_pending m of
        Some new_config \<Rightarrow>
          (Some new_config,
           m\<lparr>ms_pending := None, ms_current := new_config, ms_change_in_progress := False\<rparr>)
      | None \<Rightarrow> (None, m))"

definition apply_new_config :: "membership_state \<Rightarrow> cluster_config \<Rightarrow> membership_state" where
  "apply_new_config m c =
     m\<lparr>ms_current := c, ms_pending := None, ms_change_in_progress := False\<rparr>"

definition abort_change :: "membership_state \<Rightarrow> membership_state" where
  "abort_change m = m\<lparr>ms_pending := None, ms_change_in_progress := False\<rparr>"

definition is_voter :: "membership_state \<Rightarrow> node_id \<Rightarrow> bool" where
  "is_voter m i \<longleftrightarrow> i \<in> all_voters m"

text \<open>\<open>JointConfigData::encode\<close> and \<open>decode\<close> over the JSON codec.\<close>

definition joint_encode :: "(joint_config_data \<Rightarrow> bytes) \<Rightarrow> joint_config_data \<Rightarrow> bytes" where
  "joint_encode enc j = enc j"

definition joint_decode ::
  "(bytes \<Rightarrow> joint_config_data option) \<Rightarrow> bytes \<Rightarrow> membership_error + joint_config_data" where
  "joint_decode dec data = (case dec data of None \<Rightarrow> Inl InvalidConfigData | Some j \<Rightarrow> Inr j)"

section \<open>Quorums of a membership state\<close>

lemma has_quorum_iff:
  "has_quorum m A \<longleftrightarrow>
     config_len (ms_current m) div 2 + 1 \<le> length (filter (\<lambda>x. mi_id x \<in> A) (cc_members (ms_current m))) \<and>
     (\<forall>p. ms_pending m = Some p \<longrightarrow>
        config_len p div 2 + 1 \<le> length (filter (\<lambda>x. mi_id x \<in> A) (cc_members p)))"
  by (auto simp: has_quorum_def Let_def not_less split: option.splits)

definition config_majority :: "cluster_config \<Rightarrow> node_id set \<Rightarrow> bool" where
  "config_majority c A \<longleftrightarrow> config_len c div 2 + 1 \<le> length (filter (\<lambda>x. mi_id x \<in> A) (cc_members c))"

lemma config_majority_intersect:
  "config_majority c A \<Longrightarrow> config_majority c B \<Longrightarrow> A \<inter> B \<noteq> {}"
  using majorities_share_element [of "cc_members c" "\<lambda>x. mi_id x \<in> A" "\<lambda>x. mi_id x \<in> B"]
  by (auto simp: config_majority_def config_len_def)

lemma has_quorum_majorities:
  "has_quorum m A \<longleftrightarrow> config_majority (ms_current m) A \<and>
     (\<forall>p. ms_pending m = Some p \<longrightarrow> config_majority p A)"
  by (simp add: has_quorum_iff config_majority_def)

definition wf_config :: "cluster_config \<Rightarrow> bool" where
  "wf_config c \<longleftrightarrow> cc_members c \<noteq> [] \<and> distinct (map mi_id (cc_members c))"

definition wf_membership :: "membership_state \<Rightarrow> bool" where
  "wf_membership m \<longleftrightarrow> wf_config (ms_current m) \<and> (\<forall>p. ms_pending m = Some p \<longrightarrow> wf_config p)"

interpretation membership: voting_config wf_membership has_quorum
  by unfold_locales (auto simp: has_quorum_majorities dest: config_majority_intersect)

lemma length_filter_mono: "(\<And>x. P x \<Longrightarrow> Q x) \<Longrightarrow> length (filter P xs) \<le> length (filter Q xs)"
  by (induction xs) (auto simp: le_Suc_eq)

lemma config_majority_mono:
  assumes "config_majority c A" and "A \<subseteq> B"
  shows "config_majority c B"
proof -
  have "length (filter (\<lambda>x. mi_id x \<in> A) (cc_members c))
      \<le> length (filter (\<lambda>x. mi_id x \<in> B) (cc_members c))"
    using assms(2) by (intro length_filter_mono) auto
  with assms(1) show ?thesis by (simp add: config_majority_def)
qed

lemma has_quorum_mono: "has_quorum m A \<Longrightarrow> A \<subseteq> B \<Longrightarrow> has_quorum m B"
  unfolding has_quorum_majorities using config_majority_mono by blast

text \<open>Everybody together is a quorum, so commits are possible.\<close>

lemma has_quorum_all_voters: "wf_membership m \<Longrightarrow> has_quorum m (all_voters m)"
proof -
  assume wf: "wf_membership m"
  have full: "config_majority c A" if "wf_config c" "member_ids c \<subseteq> A" for c A
  proof -
    have "filter (\<lambda>x. mi_id x \<in> A) (cc_members c) = cc_members c"
      using that(2) by (auto simp: filter_id_conv member_ids_def)
    moreover have "0 < length (cc_members c)" using that(1) by (simp add: wf_config_def)
    then have "length (cc_members c) div 2 + 1 \<le> length (cc_members c)" by linarith
    ultimately show ?thesis by (simp add: config_majority_def config_len_def)
  qed
  have "member_ids (ms_current m) \<subseteq> all_voters m"
    and "\<And>p. ms_pending m = Some p \<Longrightarrow> member_ids p \<subseteq> all_voters m"
    by (auto simp: all_voters_def split: option.splits)
  with wf show ?thesis
    unfolding has_quorum_majorities wf_membership_def using full by blast
qed

section \<open>Changes keep well-formedness\<close>

lemma wf_membership_new:
  "distinct peers \<Longrightarrow> i \<notin> set peers \<Longrightarrow> wf_membership (membership_new i peers)"
  by (simp add: wf_membership_def wf_config_def membership_new_def cluster_config_new_def comp_def)

lemma begin_change_error: "begin_change m ch = (Inl e, m') \<Longrightarrow> m' = m"
  by (auto simp: begin_change_def Let_def split: if_splits config_change.splits sum.splits)

lemma begin_change_ok:
  assumes "begin_change m ch = (Inr j, m')"
  shows "\<not> ms_change_in_progress m" "ms_current m' = ms_current m" "ms_pending m' = Some (jc_new j)"
    "ms_change_in_progress m'" "jc_old j = ms_current m"
    "member_ids (jc_new j) =
       (case ch of AddNode i a \<Rightarrow> insert i (member_ids (ms_current m))
                 | RemoveNode i \<Rightarrow> member_ids (ms_current m) - {i})"
  using assms
  by (auto simp: begin_change_def Let_def cluster_config_new_def member_ids_def
      split: if_splits config_change.splits sum.splits)

lemma config_contains_iff: "config_contains c i \<longleftrightarrow> i \<in> member_ids c"
  by (auto simp: config_contains_def member_ids_def list_ex_iff)

lemma wf_config_begin_change:
  assumes "wf_config (ms_current m)" and "begin_change m ch = (Inr j, m')"
  shows "wf_config (jc_new j)"
proof (cases ch)
  case (AddNode i a)
  then have "i \<notin> mi_id ` set (cc_members (ms_current m))"
    and "jc_new j = \<lparr>cc_members = cc_members (ms_current m) @ [\<lparr>mi_id = i, mi_address = a\<rparr>]\<rparr>"
    using assms(2)
    by (auto simp: begin_change_def Let_def cluster_config_new_def config_contains_iff member_ids_def
        split: if_splits)
  then show ?thesis using assms(1) by (simp add: wf_config_def)
next
  case (RemoveNode i)
  then show ?thesis
    using assms by (auto simp: wf_config_def begin_change_def Let_def cluster_config_new_def
        config_is_empty_def intro!: distinct_map_filter split: if_splits)
qed

lemma wf_begin_change:
  assumes "wf_membership m" and "begin_change m ch = (r, m')"
  shows "wf_membership m'"
proof (cases r)
  case (Inl e)
  then show ?thesis using assms begin_change_error by blast
next
  case (Inr j)
  with assms show ?thesis
    using begin_change_ok [of m ch j m'] wf_config_begin_change [of m ch j m']
    by (simp add: wf_membership_def)
qed

lemma wf_finalize_joint: "wf_membership m \<Longrightarrow> finalize_joint m = (r, m') \<Longrightarrow> wf_membership m'"
  by (auto simp: wf_membership_def finalize_joint_def split: option.splits)

lemma wf_abort_change: "wf_membership m \<Longrightarrow> wf_membership (abort_change m)"
  by (simp add: wf_membership_def abort_change_def)

lemma wf_apply_new_config: "wf_config c \<Longrightarrow> wf_membership (apply_new_config m c)"
  by (simp add: wf_membership_def apply_new_config_def)

section \<open>No disjoint majorities across a change\<close>

text \<open>C6: the two-phase change never allows disjoint decisions. A quorum taken under the old
  configuration meets every quorum of the joint configuration that \<open>begin_change\<close> enters, and a quorum
  of the joint configuration meets every quorum of the configuration \<open>finalize_joint\<close> moves to.\<close>

theorem joint_consensus_overlap:
  assumes "begin_change m change = (Inr j, mj)" and "finalize_joint mj = (Some c, mn)"
    and "has_quorum m A" and "has_quorum mj B" and "has_quorum mn D"
  shows "c = jc_new j \<and> A \<inter> B \<noteq> {} \<and> B \<inter> D \<noteq> {}"
proof -
  note ok = begin_change_ok [OF assms(1)]
  have mn: "c = jc_new j" "ms_current mn = jc_new j"
    using assms(2) ok by (auto simp: finalize_joint_def)
  have "config_majority (ms_current m) A" "config_majority (ms_current m) B"
    "config_majority (jc_new j) B" "config_majority (jc_new j) D"
    using assms(3-5) ok mn by (auto simp: has_quorum_majorities)
  then show ?thesis using mn config_majority_intersect by metis
qed

theorem joint_consensus_overlap_witness:
  "let m = membership_new 1 [2, 3]; mj = snd (begin_change m (AddNode 4 ''n4''));
       mn = snd (finalize_joint mj)
   in has_quorum m {1, 2} \<and> has_quorum mj {1, 2, 4} \<and> has_quorum mn {2, 3, 4} \<and>
      {1, 2} \<inter> {1, 2, 4 :: nat} \<noteq> {} \<and> {1, 2, 4} \<inter> {2, 3, 4 :: nat} \<noteq> {}"
proof -
  define m where "m = membership_new 1 [2, 3]"
  define j where "j = projr (fst (begin_change m (AddNode 4 ''n4'')))"
  define mj where "mj = snd (begin_change m (AddNode 4 ''n4''))"
  define mn where "mn = snd (finalize_joint mj)"
  have b: "begin_change m (AddNode 4 ''n4'') = (Inr j, mj)"
    and f: "finalize_joint mj = (Some (jc_new j), mn)"
    and q: "has_quorum m {1, 2}" "has_quorum mj {1, 2, 4}" "has_quorum mn {2, 3, 4}"
    by (simp_all add: m_def j_def mj_def mn_def membership_new_def begin_change_def finalize_joint_def
        has_quorum_def config_contains_def config_len_def cluster_config_new_def Let_def)
  from joint_consensus_overlap [OF b f q] q show ?thesis
    by (simp add: m_def mj_def mn_def Let_def)
qed

end
