(* ===== verification/Read_Index.thy ===== *)
theory Read_Index
  imports Raft_Prelude
begin

text \<open>
  Linearizable reads (\<open>raft-consensus/src/read_index.rs\<close>): the requests that wait for a quorum of
  heartbeat acknowledgements. The hash map of pending requests is an association list; the code
  iterates over it in hash order, so the order of the confirmed ids is not part of any statement.
\<close>

section \<open>One request\<close>

record read_index_request =
  rr_read_index :: log_index
  rr_acks :: "node_id set"
  rr_cluster_size :: nat

definition read_request_new :: "log_index \<Rightarrow> node_id \<Rightarrow> nat \<Rightarrow> read_index_request" where
  "read_request_new read_index self_id cluster_size =
     \<lparr>rr_read_index = read_index, rr_acks = {self_id}, rr_cluster_size = cluster_size\<rparr>"

definition read_quorum_size :: "read_index_request \<Rightarrow> nat" where
  "read_quorum_size r = rr_cluster_size r div 2 + 1"

definition read_has_quorum :: "read_index_request \<Rightarrow> bool" where
  "read_has_quorum r \<longleftrightarrow> card (rr_acks r) \<ge> read_quorum_size r"

definition request_record_ack :: "node_id \<Rightarrow> read_index_request \<Rightarrow> read_index_request" where
  "request_record_ack from r = r\<lparr>rr_acks := insert from (rr_acks r)\<rparr>"

section \<open>The pending requests\<close>

record read_index_state =
  ri_next_id :: nat
  ri_pending :: "(nat \<times> read_index_request) list"

definition read_state_new :: read_index_state where
  "read_state_new = \<lparr>ri_next_id = 1, ri_pending = []\<rparr>"

definition read_register :: "read_index_state \<Rightarrow> log_index \<Rightarrow> node_id \<Rightarrow> nat \<Rightarrow> nat \<times> read_index_state" where
  "read_register s read_index self_id cluster_size =
     (ri_next_id s,
      s\<lparr>ri_next_id := ri_next_id s + 1,
        ri_pending := AList.update (ri_next_id s) (read_request_new read_index self_id cluster_size)
          (ri_pending s)\<rparr>)"

definition read_record_ack :: "read_index_state \<Rightarrow> node_id \<Rightarrow> nat list \<times> read_index_state" where
  "read_record_ack s from =
     (let pending = map (\<lambda>(i, r). (i, request_record_ack from r)) (ri_pending s)
      in (map fst (filter (\<lambda>(i, r). read_has_quorum r) pending), s\<lparr>ri_pending := pending\<rparr>))"

definition read_remove :: "read_index_state \<Rightarrow> nat \<Rightarrow> read_index_request option \<times> read_index_state" where
  "read_remove s i = (map_of (ri_pending s) i, s\<lparr>ri_pending := AList.delete i (ri_pending s)\<rparr>)"

definition take_confirmed :: "read_index_state \<Rightarrow> nat \<Rightarrow> log_index option \<times> read_index_state" where
  "take_confirmed s i =
     (map_option rr_read_index (map_of (ri_pending s) i),
      s\<lparr>ri_pending := AList.delete i (ri_pending s)\<rparr>)"

definition get_read_index :: "read_index_state \<Rightarrow> nat \<Rightarrow> log_index option" where
  "get_read_index s i = map_option rr_read_index (map_of (ri_pending s) i)"

definition read_clear :: "read_index_state \<Rightarrow> read_index_state" where
  "read_clear s = s\<lparr>ri_pending := []\<rparr>"

definition pending_count :: "read_index_state \<Rightarrow> nat" where
  "pending_count s = length (ri_pending s)"

definition is_confirmed :: "read_index_state \<Rightarrow> nat \<Rightarrow> bool" where
  "is_confirmed s i = (case map_of (ri_pending s) i of None \<Rightarrow> False | Some r \<Rightarrow> read_has_quorum r)"

section \<open>Invariant\<close>

text \<open>Keys are unique and below the counter, so a fresh id never meets an old request, and every ack
  set is finite, so \<open>card\<close> counts it.\<close>

definition wf_reads :: "read_index_state \<Rightarrow> bool" where
  "wf_reads s \<longleftrightarrow> distinct (map fst (ri_pending s)) \<and>
     (\<forall>(i, r) \<in> set (ri_pending s). i < ri_next_id s \<and> finite (rr_acks r))"

lemma wf_reads_new: "wf_reads read_state_new"
  by (simp add: wf_reads_def read_state_new_def)

lemma update_fresh: "k \<notin> fst ` set xs \<Longrightarrow> AList.update k v xs = xs @ [(k, v)]"
  by (induction xs) auto

lemma wf_reads_fresh: "wf_reads s \<Longrightarrow> ri_next_id s \<notin> fst ` set (ri_pending s)"
  by (auto simp: wf_reads_def)

lemma wf_reads_register:
  assumes "wf_reads s" and "read_register s c i n = (k, s')"
  shows "wf_reads s'"
proof -
  have s': "ri_pending s' = ri_pending s @ [(ri_next_id s, read_request_new c i n)]"
      "ri_next_id s' = Suc (ri_next_id s)"
    using assms update_fresh [OF wf_reads_fresh [OF assms(1)]] by (auto simp: read_register_def)
  show ?thesis
    using assms(1) wf_reads_fresh [OF assms(1)]
    unfolding wf_reads_def s' by (auto simp: read_request_new_def)
qed

lemma map_fst_ack: "map fst (map (\<lambda>(i, r). (i, f r)) xs) = map fst xs"
  by (induction xs) auto

lemma wf_reads_ack:
  assumes "wf_reads s" and "read_record_ack s from = (ids, s')"
  shows "wf_reads s'"
proof -
  have s': "ri_next_id s' = ri_next_id s"
      "ri_pending s' = map (\<lambda>(i, r). (i, request_record_ack from r)) (ri_pending s)"
    using assms(2) by (auto simp: read_record_ack_def Let_def)
  show ?thesis
    using assms(1) unfolding wf_reads_def s' map_fst_ack by (auto simp: request_record_ack_def)
qed

lemma wf_reads_clear: "wf_reads s \<Longrightarrow> wf_reads (read_clear s)"
  by (simp add: wf_reads_def read_clear_def)

lemma wf_reads_take: "wf_reads s \<Longrightarrow> take_confirmed s i = (r, s') \<Longrightarrow> wf_reads s'"
  by (auto simp: wf_reads_def take_confirmed_def AList.delete_eq intro!: distinct_map_filter)

section \<open>Acknowledgements\<close>

lemma map_of_map_values: "map_of (map (\<lambda>(i, r). (i, f r)) xs) i = map_option f (map_of xs i)"
  by (induction xs) auto

lemma record_ack_lookup:
  "map_of (ri_pending (snd (read_record_ack s from))) i = map_option (request_record_ack from) (map_of (ri_pending s) i)"
  by (simp add: read_record_ack_def Let_def map_of_map_values)

lemma record_ack_ids:
  assumes "wf_reads s"
  shows "i \<in> set (fst (read_record_ack s from)) \<longleftrightarrow> is_confirmed (snd (read_record_ack s from)) i"
proof -
  define ps where "ps = map (\<lambda>(i, r). (i, request_record_ack from r)) (ri_pending s)"
  have d: "distinct (map fst ps)"
    using assms by (simp add: ps_def wf_reads_def comp_def case_prod_beta)
  have "i \<in> set (map fst (filter (\<lambda>(i, r). read_has_quorum r) ps)) \<longleftrightarrow>
      (\<exists>r. (i, r) \<in> set ps \<and> read_has_quorum r)"
    by force
  also have "\<dots> \<longleftrightarrow> (\<exists>r. map_of ps i = Some r \<and> read_has_quorum r)"
    using d by (simp add: map_of_eq_Some_iff)
  finally show ?thesis
    by (auto simp: read_record_ack_def Let_def is_confirmed_def ps_def split: option.splits)
qed

fun record_acks :: "read_index_state \<Rightarrow> node_id list \<Rightarrow> read_index_state" where
  "record_acks s [] = s"
| "record_acks s (n # ns) = record_acks (snd (read_record_ack s n)) ns"

lemma record_acks_lookup:
  "map_of (ri_pending (record_acks s ns)) i =
     map_option (\<lambda>r. r\<lparr>rr_acks := set ns \<union> rr_acks r\<rparr>) (map_of (ri_pending s) i)"
  by (induction s ns rule: record_acks.induct)
    (auto simp: record_ack_lookup request_record_ack_def option.map_comp comp_def option.map_ident)

text \<open>C7: registering a read hands out an id that no pending read has and leaves the other pending
  reads alone; the read is confirmed after a sequence of heartbeat acknowledgements exactly when the
  leader and the distinct acknowledging nodes together are a majority of the cluster size the read was
  registered with (duplicates never help), and the read index handed out is the one recorded at
  registration.\<close>

theorem read_index_confirmation:
  assumes "wf_reads s" and "read_register s commit self n = (i, s')"
  shows "map_of (ri_pending s) i = None \<and>
         (\<forall>j. j \<noteq> i \<longrightarrow> map_of (ri_pending s') j = map_of (ri_pending s) j) \<and>
         (is_confirmed (record_acks s' ns) i \<longleftrightarrow> card (insert self (set ns)) \<ge> n div 2 + 1) \<and>
         fst (take_confirmed (record_acks s' ns) i) = Some commit"
proof -
  have "map_of (ri_pending s) i = None"
    using assms wf_reads_fresh [OF assms(1)] by (auto simp: read_register_def map_of_eq_None_iff)
  moreover have "map_of (ri_pending s') = (map_of (ri_pending s)) (i \<mapsto> read_request_new commit self n)"
    using assms(2) by (auto simp: read_register_def update_conv')
  ultimately show ?thesis
    by (simp add: is_confirmed_def take_confirmed_def record_acks_lookup read_has_quorum_def
        read_quorum_size_def read_request_new_def Un_commute)
qed

theorem read_index_confirmation_witness:
  "wf_reads read_state_new \<and> fst (read_register read_state_new 7 1 5) = 1 \<and>
   is_confirmed (record_acks (snd (read_register read_state_new 7 1 5)) [2, 2, 4]) 1"
proof -
  have r: "read_register read_state_new 7 1 5 = (1, snd (read_register read_state_new 7 1 5))"
    by (simp add: read_register_def read_state_new_def)
  have "card {1 :: nat, 2, 4} = 3" by simp
  then show ?thesis
    using read_index_confirmation [OF wf_reads_new r, of "[2, 2, 4]"] r wf_reads_new
    by (simp add: read_state_new_def read_register_def)
qed

end
