(* ===== verification/Snapshot.thy ===== *)
theory Snapshot
  imports Raft_Prelude
begin

text \<open>
  The snapshot directory (\<open>raft-consensus/src/snapshot.rs\<close>). A directory is an association list from
  file names to contents; the file names, their zero-padded numbers and the parsing that finds the
  newest snapshot are modelled on strings. The CRC-32 and the JSON codec of the metadata are
  parameters; the outcome of every file-system call of an operation is given by a \<open>snap_io\<close>.
\<close>

type_synonym directory = "(string \<times> bytes) list"

record snapshot_metadata =
  sm_last_included_index :: log_index
  sm_last_included_term :: raft_term
  sm_checksum :: "32 word"
  sm_size :: nat

record snap_io =
  io_mkdir :: bool
  io_data :: io_outcome
  io_meta :: io_outcome
  io_list :: bool
  io_rm :: "string \<Rightarrow> bool"

definition io_all_ok :: snap_io where
  "io_all_ok = \<lparr>io_mkdir = True, io_data = IoOk, io_meta = IoOk, io_list = True, io_rm = (\<lambda>_. True)\<rparr>"

section \<open>Strings\<close>

definition strip_prefix :: "string \<Rightarrow> string \<Rightarrow> string option" where
  "strip_prefix p s = (if take (length p) s = p then Some (drop (length p) s) else None)"

definition strip_suffix :: "string \<Rightarrow> string \<Rightarrow> string option" where
  "strip_suffix p s =
     (if length p \<le> length s \<and> drop (length s - length p) s = p
      then Some (take (length s - length p) s) else None)"

lemma strip_prefix_append [simp]: "strip_prefix p (p @ s) = Some s"
  by (simp add: strip_prefix_def)

lemma strip_suffix_append [simp]: "strip_suffix p (s @ p) = Some s"
  by (simp add: strip_suffix_def)

section \<open>File names\<close>

definition snapshot_data_path :: "log_index \<Rightarrow> string" where
  "snapshot_data_path i = ''snapshot-'' @ pad_decimal 20 i @ ''.data''"

definition snapshot_meta_path :: "log_index \<Rightarrow> string" where
  "snapshot_meta_path i = ''snapshot-'' @ pad_decimal 20 i @ ''.meta''"

definition meta_index :: "string \<Rightarrow> log_index option" where
  "meta_index name =
     (if strip_prefix ''snapshot-'' name \<noteq> None \<and> strip_suffix ''.meta'' name \<noteq> None
      then parse_u64 (case Option.bind (strip_prefix ''snapshot-'' name) (strip_suffix ''.meta'') of
                        Some s \<Rightarrow> s | None \<Rightarrow> ''0'')
      else None)"

definition file_index :: "string \<Rightarrow> log_index option" where
  "file_index name =
     (case strip_prefix ''snapshot-'' name of
        None \<Rightarrow> None
      | Some s \<Rightarrow> parse_u64 (takeWhile (\<lambda>c. c \<noteq> CHR ''.'') s))"

section \<open>Operations\<close>

definition write_file :: "io_outcome \<Rightarrow> string \<Rightarrow> bytes \<Rightarrow> directory \<Rightarrow> unit result \<times> directory" where
  "write_file io name data dir =
     (case io of
        IoOk \<Rightarrow> (Inr (), AList.update name data dir)
      | IoRefused \<Rightarrow> (Inl (Io ''write''), dir)
      | IoShort n \<Rightarrow> (Inl (Io ''write''), AList.update name (take n data) dir))"

definition find_latest_snapshot :: "directory \<Rightarrow> log_index option" where
  "find_latest_snapshot dir =
     fold (\<lambda>(name, _) latest.
             case meta_index name of
               None \<Rightarrow> latest
             | Some i \<Rightarrow> Some (case latest of None \<Rightarrow> i | Some l \<Rightarrow> max l i))
       dir None"

definition cleanup_old_snapshots ::
  "snap_io \<Rightarrow> directory \<Rightarrow> log_index \<Rightarrow> unit result \<times> directory" where
  "cleanup_old_snapshots io dir keep =
     (if io_list io
      then (Inr (), filter (\<lambda>(name, _). \<not> (case file_index name of
                                            None \<Rightarrow> False | Some i \<Rightarrow> i < keep \<and> io_rm io name)) dir)
      else (Inl (Io ''read_dir''), dir))"

definition store_snapshot ::
  "(snapshot_metadata \<Rightarrow> bytes option) \<Rightarrow> snap_io \<Rightarrow> directory \<Rightarrow> snapshot_metadata \<Rightarrow> bytes \<Rightarrow>
   unit result \<times> directory" where
  "store_snapshot enc io dir meta data =
     (case write_file (io_data io) (snapshot_data_path (sm_last_included_index meta)) data dir of
        (Inl e, d1) \<Rightarrow> (Inl e, d1)
      | (Inr _, d1) \<Rightarrow>
          (case enc meta of
             None \<Rightarrow> (Inl (Storage ''serialize snapshot metadata''), d1)
           | Some json \<Rightarrow>
               (case write_file (io_meta io) (snapshot_meta_path (sm_last_included_index meta)) json d1 of
                  (Inl e, d2) \<Rightarrow> (Inl e, d2)
                | (Inr _, d2) \<Rightarrow> cleanup_old_snapshots io d2 (sm_last_included_index meta))))"

definition create_snapshot ::
  "(bytes \<Rightarrow> 32 word) \<Rightarrow> (snapshot_metadata \<Rightarrow> bytes option) \<Rightarrow> snap_io \<Rightarrow> directory \<Rightarrow>
   log_index \<Rightarrow> raft_term \<Rightarrow> bytes \<Rightarrow> snapshot_metadata result \<times> directory" where
  "create_snapshot crc enc io dir last_index last_term data =
     (let metadata = \<lparr>sm_last_included_index = last_index, sm_last_included_term = last_term,
                      sm_checksum = crc data, sm_size = length data\<rparr>
      in case store_snapshot enc io dir metadata data of
           (Inl e, d) \<Rightarrow> (Inl e, d)
         | (Inr _, d) \<Rightarrow> (Inr metadata, d))"

definition receive_snapshot ::
  "(bytes \<Rightarrow> 32 word) \<Rightarrow> (snapshot_metadata \<Rightarrow> bytes option) \<Rightarrow> snap_io \<Rightarrow> directory \<Rightarrow>
   snapshot_metadata \<Rightarrow> bytes \<Rightarrow> unit result \<times> directory" where
  "receive_snapshot crc enc io dir metadata data =
     (if crc data \<noteq> sm_checksum metadata
      then (Inl (Corruption ''received snapshot checksum mismatch''), dir)
      else store_snapshot enc io dir metadata data)"

definition load_metadata ::
  "(bytes \<Rightarrow> snapshot_metadata option) \<Rightarrow> directory \<Rightarrow> log_index \<Rightarrow> snapshot_metadata result" where
  "load_metadata dec dir i =
     (case map_of dir (snapshot_meta_path i) of
        None \<Rightarrow> Inl (Io ''not found'')
      | Some d \<Rightarrow>
          if \<not> utf8_valid d then Inl (Io ''invalid utf-8'')
          else (case dec d of None \<Rightarrow> Inl (Corruption ''parse snapshot metadata'') | Some m \<Rightarrow> Inr m))"

definition load_data :: "directory \<Rightarrow> log_index \<Rightarrow> bytes result" where
  "load_data dir i =
     (case map_of dir (snapshot_data_path i) of None \<Rightarrow> Inl (Io ''not found'') | Some d \<Rightarrow> Inr d)"

definition read_snapshot_data :: "directory \<Rightarrow> log_index \<Rightarrow> bytes result" where
  "read_snapshot_data dir i = load_data dir i"

definition load_latest ::
  "(bytes \<Rightarrow> 32 word) \<Rightarrow> (bytes \<Rightarrow> snapshot_metadata option) \<Rightarrow> directory \<Rightarrow>
   (snapshot_metadata \<times> bytes) option result" where
  "load_latest crc dec dir =
     (case find_latest_snapshot dir of
        None \<Rightarrow> Inr None
      | Some i \<Rightarrow>
          (case load_metadata dec dir i of
             Inl e \<Rightarrow> Inl e
           | Inr meta \<Rightarrow>
               (case load_data dir i of
                  Inl e \<Rightarrow> Inl e
                | Inr data \<Rightarrow>
                    if crc data \<noteq> sm_checksum meta then Inl (Corruption ''snapshot checksum mismatch'')
                    else Inr (Some (meta, data)))))"

section \<open>Names and numbers\<close>

lemma meta_index_meta [simp]: "i < 2 ^ 64 \<Longrightarrow> meta_index (snapshot_meta_path i) = Some i"
proof -
  assume "i < 2 ^ 64"
  moreover have "strip_suffix ''.meta'' (snapshot_meta_path i) \<noteq> None"
    using strip_suffix_append [of "''.meta''" "''snapshot-'' @ pad_decimal 20 i"]
    by (simp add: snapshot_meta_path_def)
  moreover have "strip_prefix ''snapshot-'' (snapshot_meta_path i) = Some (pad_decimal 20 i @ ''.meta'')"
    unfolding snapshot_meta_path_def by (rule strip_prefix_append)
  ultimately show ?thesis by (simp add: meta_index_def parse_u64_pad)
qed

lemma meta_index_data [simp]: "meta_index (snapshot_data_path i) = None"
  by (simp add: meta_index_def snapshot_data_path_def strip_suffix_def)

lemma takeWhile_pad: "takeWhile (\<lambda>c. c \<noteq> CHR ''.'') (pad_decimal w i @ CHR ''.'' # s) = pad_decimal w i"
  using pad_decimal_no_dot [of w i] by (subst takeWhile_append2) auto

lemma file_index_paths [simp]:
  "i < 2 ^ 64 \<Longrightarrow> file_index (snapshot_meta_path i) = Some i"
  "i < 2 ^ 64 \<Longrightarrow> file_index (snapshot_data_path i) = Some i"
  unfolding file_index_def snapshot_meta_path_def snapshot_data_path_def strip_prefix_append
  by (simp_all add: takeWhile_pad parse_u64_pad)

lemma path_inject [simp]:
  "snapshot_meta_path i = snapshot_meta_path j \<longleftrightarrow> i = j"
  "snapshot_data_path i = snapshot_data_path j \<longleftrightarrow> i = j"
  "snapshot_data_path i \<noteq> snapshot_meta_path j" "snapshot_meta_path j \<noteq> snapshot_data_path i"
proof -
  show "snapshot_meta_path i = snapshot_meta_path j \<longleftrightarrow> i = j"
    "snapshot_data_path i = snapshot_data_path j \<longleftrightarrow> i = j"
    by (simp_all add: snapshot_meta_path_def snapshot_data_path_def)
  have "rev (snapshot_data_path i) \<noteq> rev (snapshot_meta_path j)"
    by (simp add: snapshot_meta_path_def snapshot_data_path_def)
  then show "snapshot_data_path i \<noteq> snapshot_meta_path j" "snapshot_meta_path j \<noteq> snapshot_data_path i"
    by metis+
qed

section \<open>The newest snapshot\<close>

definition meta_indices :: "directory \<Rightarrow> log_index set" where
  "meta_indices dir = {i. \<exists>name \<in> fst ` set dir. meta_index name = Some i}"

lemma meta_indices_Cons:
  "meta_indices ((n, d) # dir) = (case meta_index n of None \<Rightarrow> {} | Some i \<Rightarrow> {i}) \<union> meta_indices dir"
  by (auto simp: meta_indices_def split: option.splits)

lemma meta_indices_Nil [simp]: "meta_indices [] = {}"
  by (simp add: meta_indices_def)

lemma finite_meta_indices [simp]: "finite (meta_indices dir)"
  by (induction dir) (auto simp: meta_indices_Cons split: option.splits)

lemma fold_latest:
  "fold (\<lambda>(name, _) latest.
       case meta_index name of None \<Rightarrow> latest
       | Some i \<Rightarrow> Some (case latest of None \<Rightarrow> i | Some l \<Rightarrow> max l i)) dir acc =
   (let S = meta_indices dir \<union> set_option acc in if S = {} then None else Some (Max S))"
proof (induction dir arbitrary: acc)
  case Nil
  then show ?case by (cases acc) auto
next
  case (Cons x dir)
  obtain n d where x: "x = (n, d)" by (cases x)
  have M: "Max (insert (max l i) S) = Max (insert i (insert l S))" if "finite S" for i l :: nat and S
    using that by (cases "S = {}") (auto simp: max.assoc max.commute max.left_commute)
  show ?case
    by (cases "meta_index n"; cases acc)
      (simp_all add: x Cons.IH meta_indices_Cons Let_def M insert_commute del: Max_insert)
qed

lemma find_latest_spec:
  "find_latest_snapshot dir = (if meta_indices dir = {} then None else Some (Max (meta_indices dir)))"
  by (simp add: find_latest_snapshot_def fold_latest Let_def)

lemma find_latest_eqI:
  assumes "i \<in> meta_indices dir" and "\<And>j. j \<in> meta_indices dir \<Longrightarrow> j \<le> i"
  shows "find_latest_snapshot dir = Some i"
proof -
  have "Max (meta_indices dir) = i" using assms by (intro Max_eqI) auto
  then show ?thesis using assms(1) by (auto simp: find_latest_spec)
qed

lemma meta_indices_update:
  "meta_indices (AList.update n d dir) = (case meta_index n of None \<Rightarrow> {} | Some i \<Rightarrow> {i}) \<union> meta_indices dir"
proof -
  have "fst ` set (AList.update n d dir) = insert n (fst ` set dir)"
    by (induction dir) auto
  then show ?thesis by (auto simp: meta_indices_def split: option.splits)
qed

lemma map_of_filter_key:
  "map_of (filter (\<lambda>(k, _). P k) xs) k = (if P k then map_of xs k else None)"
  by (induction xs) auto

lemma cleanup_lookup:
  assumes "cleanup_old_snapshots io dir keep = (Inr (), dir')" and "file_index n = Some i" and "keep \<le> i"
  shows "map_of dir' n = map_of dir n"
  using assms by (auto simp: cleanup_old_snapshots_def map_of_filter_key split: if_splits)

lemma cleanup_meta_indices:
  assumes "cleanup_old_snapshots io dir keep = (Inr (), dir')"
  shows "meta_indices dir' \<subseteq> meta_indices dir"
  using assms by (auto simp: cleanup_old_snapshots_def meta_indices_def split: if_splits)

lemma meta_indices_lookup:
  "i < 2 ^ 64 \<Longrightarrow> map_of dir (snapshot_meta_path i) = Some d \<Longrightarrow> i \<in> meta_indices dir"
  unfolding meta_indices_def using meta_index_meta map_of_SomeD by (force intro!: bexI)

section \<open>Storing and loading\<close>

lemma store_snapshot_ok:
  assumes "store_snapshot enc io dir meta data = (Inr (), dir')"
    and "sm_last_included_index meta = i" and "i < 2 ^ 64"
  shows "\<exists>json. enc meta = Some json \<and> map_of dir' (snapshot_meta_path i) = Some json"
    and "map_of dir' (snapshot_data_path i) = Some data"
    and "meta_indices dir' \<subseteq> insert i (meta_indices dir)"
proof -
  from assms(1,2) obtain json where json: "enc meta = Some json"
    and cl: "cleanup_old_snapshots io
        (AList.update (snapshot_meta_path i) json (AList.update (snapshot_data_path i) data dir)) i = (Inr (), dir')"
    by (auto simp: store_snapshot_def write_file_def split: io_outcome.splits option.splits prod.splits)
  note look = cleanup_lookup [OF cl _ order_refl]
  show "\<exists>json. enc meta = Some json \<and> map_of dir' (snapshot_meta_path i) = Some json"
    using json look [of "snapshot_meta_path i"] assms(3) by (simp add: update_conv')
  show "map_of dir' (snapshot_data_path i) = Some data"
    using look [of "snapshot_data_path i"] assms(3) by (simp add: update_conv')
  show "meta_indices dir' \<subseteq> insert i (meta_indices dir)"
    using cleanup_meta_indices [OF cl] assms(3) by (auto simp: meta_indices_update)
qed

lemma load_latest_stored:
  assumes "store_snapshot enc io dir meta data = (Inr (), dir')"
    and "sm_last_included_index meta = i" and "i < 2 ^ 64" and "\<forall>j \<in> meta_indices dir. j \<le> i"
    and "sm_checksum meta = crc data"
    and "\<And>json. enc meta = Some json \<Longrightarrow> dec json = Some meta \<and> utf8_valid json"
  shows "load_latest crc dec dir' = Inr (Some (meta, data))"
proof -
  note st = store_snapshot_ok [OF assms(1,2,3)]
  obtain json where json: "enc meta = Some json" "map_of dir' (snapshot_meta_path i) = Some json"
    using st(1) by blast
  have "find_latest_snapshot dir' = Some i"
    using st(3) assms(4) meta_indices_lookup [OF assms(3) json(2)] by (intro find_latest_eqI) auto
  then show ?thesis
    using json st(2) assms(5) assms(6) [OF json(1)] by (simp add: load_latest_def load_metadata_def load_data_def)
qed

text \<open>C8: after \<open>create_snapshot\<close> succeeds for an index that is not older than the snapshots of the
  directory, \<open>load_latest\<close> returns exactly the metadata and the data that were stored, whatever other
  files the directory holds and whichever removals of old files failed. The JSON codec is required to
  read back what it wrote.\<close>

theorem snapshot_round_trip:
  assumes "create_snapshot crc enc io dir i t data = (Inr meta, dir')"
    and "i < 2 ^ 64" and "\<forall>j \<in> meta_indices dir. j \<le> i"
    and "\<forall>m json. enc m = Some json \<longrightarrow> dec json = Some m \<and> utf8_valid json"
  shows "load_latest crc dec dir' = Inr (Some (meta, data)) \<and>
         sm_last_included_index meta = i \<and> sm_last_included_term meta = t \<and> sm_size meta = length data"
proof -
  have "store_snapshot enc io dir meta data = (Inr (), dir')"
    and meta: "meta = \<lparr>sm_last_included_index = i, sm_last_included_term = t,
                      sm_checksum = crc data, sm_size = length data\<rparr>"
    using assms(1) by (auto simp: create_snapshot_def Let_def split: prod.splits sum.splits)
  from load_latest_stored [OF this(1) _ assms(2,3)] meta assms(4) show ?thesis by simp
qed

text \<open>A metadata codec for witnesses: index, term, checksum and size in seven-bit digits.\<close>

fun sevens :: "nat \<Rightarrow> nat \<Rightarrow> bytes" where
  "sevens 0 n = []"
| "sevens (Suc k) n = of_nat (n mod 128) # sevens k (n div 128)"

fun sevens_value :: "bytes \<Rightarrow> nat" where
  "sevens_value [] = 0"
| "sevens_value (b # bs) = unat b + 128 * sevens_value bs"

definition enc_meta :: "snapshot_metadata \<Rightarrow> bytes option" where
  "enc_meta m =
     (if sm_last_included_index m < 128 ^ 10 \<and> sm_last_included_term m < 128 ^ 10 \<and> sm_size m < 128 ^ 10
      then Some (sevens 10 (sm_last_included_index m) @ sevens 10 (sm_last_included_term m) @
                 sevens 10 (unat (sm_checksum m)) @ sevens 10 (sm_size m))
      else None)"

definition dec_meta :: "bytes \<Rightarrow> snapshot_metadata option" where
  "dec_meta bs =
     (if length bs = 40
      then Some \<lparr>sm_last_included_index = sevens_value (take 10 bs),
                 sm_last_included_term = sevens_value (take 10 (drop 10 bs)),
                 sm_checksum = of_nat (sevens_value (take 10 (drop 20 bs))),
                 sm_size = sevens_value (drop 30 bs)\<rparr>
      else None)"

lemma length_sevens [simp]: "length (sevens k n) = k"
  by (induction k n rule: sevens.induct) auto

lemma unat_seven: "unat (of_nat (n mod 128) :: byte) = n mod 128"
  by (simp add: unat_of_nat)

lemma sevens_value_sevens: "n < 128 ^ k \<Longrightarrow> sevens_value (sevens k n) = n"
proof (induction k n rule: sevens.induct)
  case (2 k n)
  then have "n div 128 < 128 ^ k" by (simp add: less_mult_imp_div_less mult.commute)
  with 2 show ?case by (simp add: unat_seven del: of_nat_mod)
qed simp

lemma sevens_ascii: "list_all (\<lambda>b. unat b < 128) (sevens k n)"
  by (induction k n rule: sevens.induct) (simp_all add: unat_seven del: of_nat_mod)

lemma enc_meta_dec: "enc_meta m = Some json \<Longrightarrow> dec_meta json = Some m \<and> utf8_valid json"
proof -
  assume e: "enc_meta m = Some json"
  have "unat (sm_checksum m) < 2 ^ 32" using unsigned_less [of "sm_checksum m"] by simp
  then have c: "unat (sm_checksum m) < 128 ^ 10" by simp
  have "utf8_valid json"
    using e sevens_ascii by (auto simp: enc_meta_def intro!: utf8_valid_ascii split: if_splits)
  moreover have "dec_meta json = Some m"
    using e c by (auto simp: enc_meta_def dec_meta_def sevens_value_sevens split: if_splits)
  ultimately show ?thesis by simp
qed

theorem snapshot_round_trip_witness:
  "let crc = (\<lambda>_. 7); dir = [(''notes.txt'', [1]), (snapshot_meta_path 3, [2])];
       r = create_snapshot crc enc_meta io_all_ok dir 5 2 [10, 11]
   in load_latest crc dec_meta (snd r) = Inr (Some (projr (fst r), [10, 11]))"
proof -
  let ?crc = "\<lambda>_ :: bytes. 7 :: 32 word"
  let ?dir = "[(''notes.txt'', [1]), (snapshot_meta_path 3, [2 :: byte])]"
  obtain m d where r: "create_snapshot ?crc enc_meta io_all_ok ?dir 5 2 [10, 11] = (Inr m, d)"
    by (simp add: create_snapshot_def store_snapshot_def write_file_def io_all_ok_def enc_meta_def
        cleanup_old_snapshots_def Let_def)
  have "meta_index ''notes.txt'' = None" by (simp add: meta_index_def strip_prefix_def)
  then have "\<forall>j \<in> meta_indices ?dir. j \<le> 5" by (auto simp: meta_indices_Cons)
  from snapshot_round_trip [OF r _ this] enc_meta_dec have "load_latest ?crc dec_meta d = Inr (Some (m, [10, 11]))"
    by simp
  with r show ?thesis by (simp add: Let_def)
qed



end
