(* ===== verification/Raft_Node.thy ===== *)
theory Raft_Node
  imports Raft_Log Raft_State Membership Read_Index Snapshot
begin

text \<open>
  The Raft node (\<open>raft-consensus/src/node.rs\<close>): one definition per method of \<open>RaftNode\<close>. A method
  takes the node and returns the node and its result; the mutex makes every method atomic, so it is
  not represented. What the method asks of the outside is collected in a \<open>node_env\<close>: the CRC, the
  outcome of each write to the log's WAL and of each save of the term and vote, the clock, the JSON
  codecs and the outcome of the calls on the snapshot directory.
\<close>

record node_env =
  ev_crc :: "bytes \<Rightarrow> 32 word"
  ev_wal_ok :: "nat \<Rightarrow> bool"
  ev_save_io :: "nat \<Rightarrow> io_outcome"
  ev_rename_ok :: "nat \<Rightarrow> bool"
  ev_now :: instant
  ev_enc_state :: "persistent_state \<Rightarrow> bytes"
  ev_dec_state :: "bytes \<Rightarrow> persistent_state option"
  ev_enc_joint :: "joint_config_data \<Rightarrow> bytes"
  ev_dec_joint :: "bytes \<Rightarrow> joint_config_data option"
  ev_enc_config :: "cluster_config \<Rightarrow> bytes"
  ev_dec_config :: "bytes \<Rightarrow> cluster_config option"
  ev_enc_meta :: "snapshot_metadata \<Rightarrow> bytes option"
  ev_dec_meta :: "bytes \<Rightarrow> snapshot_metadata option"
  ev_snap_io :: snap_io

section \<open>State of a node\<close>

record node_config =
  nc_id :: node_id
  nc_peers :: "node_id list"
  nc_tick_config :: tick_config

record raft_node_inner =
  ni_state :: raft_state
  ni_log :: raft_log
  ni_leader_state :: "leader_state option"
  ni_election_state :: "election_state option"
  ni_read_index_state :: read_index_state
  ni_transfer_state :: "transfer_state option"
  ni_membership :: membership_state
  ni_last_heartbeat :: instant

text \<open>\<open>RaftNode\<close> adds its configuration; the files under its data directory belong to it too.\<close>

record raft_node = raft_node_inner +
  rn_config :: node_config
  rn_files :: state_files
  rn_snapshots :: directory

abbreviation node_term :: "raft_node \<Rightarrow> raft_term" where
  "node_term n \<equiv> ps_current_term (rs_persistent (ni_state n))"

abbreviation node_vote :: "raft_node \<Rightarrow> node_id option" where
  "node_vote n \<equiv> ps_voted_for (rs_persistent (ni_state n))"

abbreviation node_role :: "raft_node \<Rightarrow> role" where
  "node_role n \<equiv> rs_role (ni_state n)"

abbreviation node_commit :: "raft_node \<Rightarrow> log_index" where
  "node_commit n \<equiv> rs_commit_index (ni_state n)"

abbreviation node_id_of :: "raft_node \<Rightarrow> node_id" where
  "node_id_of n \<equiv> nc_id (rn_config n)"

definition node_new ::
  "node_env \<Rightarrow> node_config \<Rightarrow> state_files \<Rightarrow> bytes option \<Rightarrow> directory \<Rightarrow> raft_node result option" where
  "node_new w config files wal snapshots =
     (let persistent = persistent_load (ev_dec_state w) (sf_state files)
      in case log_open (ev_crc w) wal of
           None \<Rightarrow> None
         | Some (Inl e) \<Rightarrow> Some (Inl e)
         | Some (Inr log) \<Rightarrow>
             Some (Inr
               \<lparr>ni_state = \<lparr>rs_id = nc_id config, rs_role = Follower, rs_persistent = persistent,
                            rs_leader_id = None, rs_commit_index = 0, rs_last_applied = 0\<rparr>,
                ni_log = log, ni_leader_state = None, ni_election_state = None,
                ni_read_index_state = read_state_new, ni_transfer_state = None,
                ni_membership = membership_new (nc_id config) (nc_peers config),
                ni_last_heartbeat = ev_now w,
                rn_config = config, rn_files = files, rn_snapshots = snapshots\<rparr>))"

definition cluster_size :: "raft_node \<Rightarrow> nat" where
  "cluster_size n = length (nc_peers (rn_config n)) + 1"

definition time_since_last_heartbeat :: "node_env \<Rightarrow> raft_node \<Rightarrow> nat" where
  "time_since_last_heartbeat w n = ev_now w - ni_last_heartbeat n"

section \<open>Internal helpers\<close>

definition save_persistent :: "node_env \<Rightarrow> nat \<Rightarrow> raft_node \<Rightarrow> raft_node" where
  "save_persistent w k n =
     n\<lparr>rn_files := persistent_save (ev_enc_state w) (ev_save_io w k) (ev_rename_ok w k)
                     (rs_persistent (ni_state n)) (rn_files n)\<rparr>"

definition step_down_inner :: "node_env \<Rightarrow> raft_node \<Rightarrow> raft_term \<Rightarrow> raft_node" where
  "step_down_inner w n new_term =
     save_persistent w 0
       (n\<lparr>ni_state := (ni_state n)\<lparr>rs_persistent := \<lparr>ps_current_term = new_term, ps_voted_for = None\<rparr>,
                                    rs_role := Follower, rs_leader_id := None\<rparr>,
          ni_leader_state := None, ni_election_state := None,
          ni_read_index_state := read_clear (ni_read_index_state n),
          ni_transfer_state := None,
          ni_membership := abort_change (ni_membership n)\<rparr>)"

text \<open>\<open>leader.match_index.insert(self.config.id, last_idx)\<close>, if there is a leader state.\<close>

definition note_own_match :: "raft_node \<Rightarrow> raft_node" where
  "note_own_match n =
     n\<lparr>ni_leader_state := map_option
         (\<lambda>l. l\<lparr>ls_match_index := AList.update (node_id_of n) (log_last_index (ni_log n)) (ls_match_index l)\<rparr>)
         (ni_leader_state n)\<rparr>"

definition append_own :: "node_env \<Rightarrow> raft_node \<Rightarrow> bytes \<Rightarrow> entry_type \<Rightarrow> unit result \<times> raft_node" where
  "append_own w n data ty =
     (let entry = \<lparr>e_index = log_last_index (ni_log n) + 1, e_term = node_term n, e_data = data, e_type = ty\<rparr>;
          (r, log) = log_append (ev_crc w) (ev_wal_ok w) (ni_log n) [entry]
      in (r, n\<lparr>ni_log := log\<rparr>))"

definition become_leader_inner :: "node_env \<Rightarrow> raft_node \<Rightarrow> raft_node" where
  "become_leader_inner w n =
     (let n1 = n\<lparr>ni_state := (ni_state n)\<lparr>rs_role := Leader, rs_leader_id := Some (node_id_of n)\<rparr>,
                 ni_election_state := None,
                 ni_leader_state := Some (leader_state_new (nc_peers (rn_config n)) (log_last_index (ni_log n)))\<rparr>;
          n2 = snd (append_own w n1 [] Noop)
      in note_own_match n2)"

text \<open>The loop of \<open>try_advance_commit\<close> over the match indices in descending order: the index it
  commits, if any.\<close>

fun advance_commit_loop ::
  "raft_node \<Rightarrow> (node_id \<times> log_index) list \<Rightarrow> log_index list \<Rightarrow> log_index option" where
  "advance_commit_loop n matches [] = None"
| "advance_commit_loop n matches (candidate # rest) =
     (if candidate \<le> node_commit n then None
      else
        let voters = fst ` set (filter (\<lambda>(_, idx). idx \<ge> candidate) matches)
        in if has_quorum (ni_membership n) voters \<and>
              (case log_get (ni_log n) candidate of
                 Some entry \<Rightarrow> e_term entry = node_term n
               | None \<Rightarrow> False)
           then Some candidate
           else advance_commit_loop n matches rest)"

definition try_advance_commit :: "raft_node \<Rightarrow> raft_node" where
  "try_advance_commit n =
     (case ni_leader_state n of
        None \<Rightarrow> n
      | Some leader \<Rightarrow>
          (case advance_commit_loop n (ls_match_index leader)
                  (rev (sort (map snd (ls_match_index leader)))) of
             None \<Rightarrow> n
           | Some c \<Rightarrow> n\<lparr>ni_state := (ni_state n)\<lparr>rs_commit_index := c\<rparr>\<rparr>))"

section \<open>Election\<close>

definition self_election :: "raft_node \<Rightarrow> election_state" where
  "self_election n = fst (record_vote (election_state_new (cluster_size n)) (node_id_of n))"

definition vote_request_of :: "raft_node \<Rightarrow> raft_term \<Rightarrow> bool \<Rightarrow> vote_request" where
  "vote_request_of n t pre =
     \<lparr>vq_term = t, vq_candidate_id = node_id_of n, vq_last_log_index = log_last_index (ni_log n),
      vq_last_log_term = log_last_term (ni_log n), vq_is_pre_vote = pre\<rparr>"

definition start_pre_vote :: "raft_node \<Rightarrow> (node_id \<times> vote_request) list \<times> raft_node" where
  "start_pre_vote n =
     (map (\<lambda>peer. (peer, vote_request_of n (node_term n + 1) True)) (nc_peers (rn_config n)),
      n\<lparr>ni_state := (ni_state n)\<lparr>rs_role := PreCandidate\<rparr>,
        ni_election_state := Some (self_election n)\<rparr>)"

definition start_election :: "node_env \<Rightarrow> raft_node \<Rightarrow> (node_id \<times> vote_request) list \<times> raft_node" where
  "start_election w n =
     (let n1 = n\<lparr>ni_state := (ni_state n)\<lparr>rs_persistent := \<lparr>ps_current_term = node_term n + 1,
                                                             ps_voted_for = Some (node_id_of n)\<rparr>,
                                           rs_role := Candidate, rs_leader_id := None\<rparr>\<rparr>;
          n2 = save_persistent w 0 n1
      in (map (\<lambda>peer. (peer, vote_request_of n2 (node_term n2) False)) (nc_peers (rn_config n2)),
          n2\<lparr>ni_election_state := Some (self_election n2)\<rparr>))"

definition handle_vote_response ::
  "node_env \<Rightarrow> raft_node \<Rightarrow> node_id \<Rightarrow> vote_response \<Rightarrow> bool \<Rightarrow> bool \<times> raft_node" where
  "handle_vote_response w n from response was_pre_vote =
     (if vp_term response > node_term n then (False, step_down_inner w n (vp_term response))
      else if \<not> vp_vote_granted response then (False, n)
      else
        case ni_election_state n of
          None \<Rightarrow> (False, n)
        | Some election \<Rightarrow>
            (let (election', quorum) = record_vote election from;
                 n1 = n\<lparr>ni_election_state := Some election'\<rparr>
             in if quorum \<and> \<not> was_pre_vote then (True, become_leader_inner w n1) else (False, n1)))"

definition pre_vote_has_quorum :: "raft_node \<Rightarrow> bool" where
  "pre_vote_has_quorum n =
     (case ni_election_state n of None \<Rightarrow> False | Some e \<Rightarrow> election_has_quorum e)"

definition handle_vote_request ::
  "node_env \<Rightarrow> raft_node \<Rightarrow> vote_request \<Rightarrow> vote_response \<times> raft_node" where
  "handle_vote_request w n request =
     (if vq_is_pre_vote request then
        (\<lparr>vp_term = node_term n,
          vp_vote_granted = (vq_term request > node_term n \<and>
            is_log_up_to_date (vq_last_log_term request) (vq_last_log_index request)
              (log_last_term (ni_log n)) (log_last_index (ni_log n)))\<rparr>, n)
      else
        let n1 = (if vq_term request > node_term n then step_down_inner w n (vq_term request) else n);
            grant = should_grant_vote (ni_state n1) request
                      (log_last_index (ni_log n1)) (log_last_term (ni_log n1));
            n2 = (if grant
                  then save_persistent w 1
                         (n1\<lparr>ni_state := (ni_state n1)\<lparr>rs_persistent := (rs_persistent (ni_state n1))
                               \<lparr>ps_voted_for := Some (vq_candidate_id request)\<rparr>\<rparr>\<rparr>)
                  else n1)
        in (\<lparr>vp_term = node_term n2, vp_vote_granted = grant\<rparr>, n2))"

section \<open>Log replication\<close>

text \<open>The loop over the received entries: existing entries of the same term are skipped, a conflict
  truncates the log, everything new is collected.\<close>

fun merge_entries :: "raft_log \<Rightarrow> log_entry list \<Rightarrow> log_entry list \<Rightarrow> raft_log \<times> log_entry list" where
  "merge_entries log new_entries [] = (log, new_entries)"
| "merge_entries log new_entries (entry # entries) =
     (case log_get log (e_index entry) of
        Some existing \<Rightarrow>
          if e_term existing \<noteq> e_term entry
          then merge_entries (log_truncate_after log (e_index entry - 1)) (new_entries @ [entry]) entries
          else merge_entries log new_entries entries
      | None \<Rightarrow> merge_entries log (new_entries @ [entry]) entries)"

definition store_entries :: "node_env \<Rightarrow> raft_log \<Rightarrow> log_entry list \<Rightarrow> raft_log" where
  "store_entries w log entries =
     (let (log1, new_entries) = merge_entries log [] entries
      in if new_entries = [] then log1 else snd (log_append (ev_crc w) (ev_wal_ok w) log1 new_entries))"

definition handle_append_entries ::
  "node_env \<Rightarrow> raft_node \<Rightarrow> append_request \<Rightarrow> append_response \<times> raft_node" where
  "handle_append_entries w n request =
     (if aq_term request < node_term n
      then (\<lparr>ap_term = node_term n, ap_success = False, ap_match_index = 0\<rparr>, n)
      else
        let n1 = (if aq_term request > node_term n then step_down_inner w n (aq_term request) else n);
            n2 = n1\<lparr>ni_state := (ni_state n1)\<lparr>rs_role := Follower,
                                               rs_leader_id := Some (aq_leader_id request)\<rparr>,
                    ni_last_heartbeat := ev_now w\<rparr>
        in if aq_prev_log_index request > 0 \<and>
              \<not> log_match_term (ni_log n2) (aq_prev_log_index request) (aq_prev_log_term request)
           then (\<lparr>ap_term = node_term n2, ap_success = False,
                   ap_match_index = log_last_index (ni_log n2)\<rparr>, n2)
           else
             let n3 = n2\<lparr>ni_log := store_entries w (ni_log n2) (aq_entries request)\<rparr>;
                 n4 = (if aq_leader_commit request > node_commit n3
                       then n3\<lparr>ni_state := (ni_state n3)\<lparr>rs_commit_index :=
                              min (aq_leader_commit request) (log_last_index (ni_log n3))\<rparr>\<rparr>
                       else n3)
             in (\<lparr>ap_term = node_term n4, ap_success = True,
                   ap_match_index = log_last_index (ni_log n4)\<rparr>, n4))"

definition propose :: "node_env \<Rightarrow> raft_node \<Rightarrow> bytes \<Rightarrow> (proposal_result + log_index) \<times> raft_node" where
  "propose w n data =
     (if node_role n \<noteq> Leader then (Inl (NotLeaderNow (rs_leader_id (ni_state n))), n)
      else if ni_transfer_state n \<noteq> None then (Inl TransferInProgress, n)
      else
        case append_own w n data Normal of
          (Inl e, n1) \<Rightarrow> (Inl (ProposalError e), n1)
        | (Inr _, n1) \<Rightarrow> (Inr (log_last_index (ni_log n) + 1), note_own_match n1))"

definition append_request_for :: "raft_node \<Rightarrow> leader_state \<Rightarrow> node_id \<Rightarrow> append_request" where
  "append_request_for n leader peer =
     (let next_idx = (case map_of (ls_next_index leader) peer of Some i \<Rightarrow> i | None \<Rightarrow> 1);
          prev_log_index = next_idx - 1;
          prev_log_term = (case log_term_at (ni_log n) prev_log_index of Some t \<Rightarrow> t | None \<Rightarrow> 0)
      in \<lparr>aq_term = node_term n, aq_leader_id = node_id_of n, aq_prev_log_index = prev_log_index,
          aq_prev_log_term = prev_log_term, aq_entries = log_entries_from (ni_log n) next_idx,
          aq_leader_commit = node_commit n\<rparr>)"

definition create_append_requests :: "raft_node \<Rightarrow> (node_id \<times> append_request) list" where
  "create_append_requests n =
     (if node_role n \<noteq> Leader then []
      else case ni_leader_state n of
        None \<Rightarrow> []
      | Some leader \<Rightarrow> map (\<lambda>peer. (peer, append_request_for n leader peer)) (nc_peers (rn_config n)))"

definition handle_append_response :: "node_env \<Rightarrow> raft_node \<Rightarrow> node_id \<Rightarrow> append_response \<Rightarrow> raft_node" where
  "handle_append_response w n from response =
     (if ap_term response > node_term n then step_down_inner w n (ap_term response)
      else if node_role n \<noteq> Leader then n
      else case ni_leader_state n of
        None \<Rightarrow> n
      | Some leader \<Rightarrow>
          let leader' =
            (if ap_success response
             then leader\<lparr>ls_match_index := AList.update from (ap_match_index response) (ls_match_index leader),
                         ls_next_index := AList.update from (ap_match_index response + 1) (ls_next_index leader)\<rparr>
             else
               let next = (case map_of (ls_next_index leader) from of Some i \<Rightarrow> i | None \<Rightarrow> 1)
               in leader\<lparr>ls_next_index := AList.update from (max (next - 1) 1) (ls_next_index leader)\<rparr>)
          in try_advance_commit (n\<lparr>ni_leader_state := Some leader'\<rparr>))"

text \<open>The while loop of \<open>take_committed_entries\<close>: the entries and the final \<open>last_applied\<close>.\<close>

function take_committed_loop :: "raft_log \<Rightarrow> log_index \<Rightarrow> log_index \<Rightarrow> log_entry list \<times> log_index" where
  "take_committed_loop log commit applied =
     (if applied < commit
      then let applied' = applied + 1;
               (rest, final) = take_committed_loop log commit applied'
           in ((case log_get log applied' of Some entry \<Rightarrow> [entry] | None \<Rightarrow> []) @ rest, final)
      else ([], applied))"
  by pat_completeness auto
termination by (relation "measure (\<lambda>(_, commit, applied). commit - applied)") auto

declare take_committed_loop.simps [simp del]

definition take_committed_entries :: "raft_node \<Rightarrow> log_entry list \<times> raft_node" where
  "take_committed_entries n =
     (let (entries, applied) =
            take_committed_loop (ni_log n) (node_commit n) (rs_last_applied (ni_state n))
      in (entries, n\<lparr>ni_state := (ni_state n)\<lparr>rs_last_applied := applied\<rparr>\<rparr>))"

section \<open>Snapshots\<close>

definition trigger_snapshot :: "node_env \<Rightarrow> raft_node \<Rightarrow> bytes \<Rightarrow> snapshot_metadata option \<times> raft_node" where
  "trigger_snapshot w n data =
     (let commit_index = node_commit n
      in if commit_index = 0 then (None, n)
         else
           let commit_term = (case log_term_at (ni_log n) commit_index of Some t \<Rightarrow> t | None \<Rightarrow> 0)
           in if \<not> io_mkdir (ev_snap_io w) then (None, n)
              else
                case create_snapshot (ev_crc w) (ev_enc_meta w) (ev_snap_io w) (rn_snapshots n)
                       commit_index commit_term data of
                  (Inl e, dir) \<Rightarrow> (None, n\<lparr>rn_snapshots := dir\<rparr>)
                | (Inr meta, dir) \<Rightarrow>
                    (Some meta, n\<lparr>rn_snapshots := dir,
                                  ni_log := log_compact (ni_log n) commit_index commit_term\<rparr>))"

definition should_snapshot :: "raft_node \<Rightarrow> nat \<Rightarrow> bool" where
  "should_snapshot n threshold \<longleftrightarrow> log_len (ni_log n) > threshold"

definition handle_install_snapshot ::
  "node_env \<Rightarrow> raft_node \<Rightarrow> raft_term \<Rightarrow> node_id \<Rightarrow> snapshot_metadata \<Rightarrow> bytes \<Rightarrow> raft_term \<times> raft_node" where
  "handle_install_snapshot w n leader_term leader_id metadata data =
     (if leader_term < node_term n then (node_term n, n)
      else
        let n1 = (if leader_term > node_term n then step_down_inner w n leader_term else n);
            n2 = n1\<lparr>ni_state := (ni_state n1)\<lparr>rs_role := Follower, rs_leader_id := Some leader_id\<rparr>\<rparr>;
            si = sm_last_included_index metadata
        in if si \<le> rl_snapshot_index (ni_log n2) then (node_term n2, n2)
           else
             let (failed, dir) =
                   (if io_mkdir (ev_snap_io w)
                    then (case receive_snapshot (ev_crc w) (ev_enc_meta w) (ev_snap_io w)
                                 (rn_snapshots n2) metadata data of
                            (Inl e, d) \<Rightarrow> (True, d)
                          | (Inr _, d) \<Rightarrow> (False, d))
                    else (False, rn_snapshots n2));
                 n3 = n2\<lparr>rn_snapshots := dir\<rparr>
             in if failed then (node_term n3, n3)
                else
                  (node_term n3,
                   n3\<lparr>ni_log := log_compact (ni_log n3) si (sm_last_included_term metadata),
                      ni_state := (ni_state n3)\<lparr>rs_commit_index := max (node_commit n3) si,
                                                rs_last_applied := max (rs_last_applied (ni_state n3)) si\<rparr>\<rparr>))"

definition get_snapshot_for_follower ::
  "node_env \<Rightarrow> raft_node \<Rightarrow> (snapshot_metadata \<times> bytes) option" where
  "get_snapshot_for_follower w n =
     (if \<not> io_mkdir (ev_snap_io w) then None
      else case load_latest (ev_crc w) (ev_dec_meta w) (rn_snapshots n) of Inl e \<Rightarrow> None | Inr r \<Rightarrow> r)"

section \<open>Read index\<close>

definition request_read_index :: "raft_node \<Rightarrow> (proposal_result + nat \<times> log_index) \<times> raft_node" where
  "request_read_index n =
     (if node_role n \<noteq> Leader then (Inl (NotLeaderNow (rs_leader_id (ni_state n))), n)
      else
        let (i, reads) = read_register (ni_read_index_state n) (node_commit n) (node_id_of n)
                           (current_size (ni_membership n))
        in (Inr (i, node_commit n), n\<lparr>ni_read_index_state := reads\<rparr>))"

definition read_index_ack :: "raft_node \<Rightarrow> node_id \<Rightarrow> nat list \<times> raft_node" where
  "read_index_ack n from =
     (let (ids, reads) = read_record_ack (ni_read_index_state n) from
      in (ids, n\<lparr>ni_read_index_state := reads\<rparr>))"

definition is_read_index_confirmed :: "raft_node \<Rightarrow> nat \<Rightarrow> bool" where
  "is_read_index_confirmed n i = is_confirmed (ni_read_index_state n) i"

definition take_read_index :: "raft_node \<Rightarrow> nat \<Rightarrow> log_index option \<times> raft_node" where
  "take_read_index n i =
     (let (r, reads) = take_confirmed (ni_read_index_state n) i
      in (r, n\<lparr>ni_read_index_state := reads\<rparr>))"

section \<open>Leadership transfer\<close>

definition transfer_leadership ::
  "node_env \<Rightarrow> raft_node \<Rightarrow> node_id \<Rightarrow> (transfer_error + unit) \<times> raft_node" where
  "transfer_leadership w n target =
     (if node_role n \<noteq> Leader then (Inl TransferNotLeader, n)
      else if target = node_id_of n then (Inl AlreadyLeader, n)
      else if ni_transfer_state n \<noteq> None then (Inl TransferAlreadyInProgress, n)
      else if \<not> is_voter (ni_membership n) target then (Inl TargetNotInCluster, n)
      else (Inr (), n\<lparr>ni_transfer_state := Some (transfer_state_new (ev_now w) target)\<rparr>))"

definition check_transfer_progress :: "raft_node \<Rightarrow> node_id option \<times> raft_node" where
  "check_transfer_progress n =
     (case ni_transfer_state n of
        None \<Rightarrow> (None, n)
      | Some t \<Rightarrow>
          if ts_timeout_now_sent t then (None, n)
          else
            let target_match = (case Option.bind (ni_leader_state n)
                                       (\<lambda>l. map_of (ls_match_index l) (ts_target t)) of
                                  Some i \<Rightarrow> i | None \<Rightarrow> 0)
            in if target_match \<ge> log_last_index (ni_log n)
               then (Some (ts_target t), n\<lparr>ni_transfer_state := Some (t\<lparr>ts_timeout_now_sent := True\<rparr>)\<rparr>)
               else (None, n))"

definition check_transfer_timeout :: "node_env \<Rightarrow> raft_node \<Rightarrow> nat \<Rightarrow> bool \<times> raft_node" where
  "check_transfer_timeout w n timeout_ms =
     (case ni_transfer_state n of
        None \<Rightarrow> (False, n)
      | Some t \<Rightarrow>
          if transfer_is_expired (ev_now w) t timeout_ms then (True, n\<lparr>ni_transfer_state := None\<rparr>)
          else (False, n))"

definition is_transfer_in_progress :: "raft_node \<Rightarrow> bool" where
  "is_transfer_in_progress n \<longleftrightarrow> ni_transfer_state n \<noteq> None"

text \<open>The body after the guard is the one of \<open>start_election\<close>, written out a second time in the code.\<close>

definition handle_timeout_now ::
  "node_env \<Rightarrow> raft_node \<Rightarrow> timeout_now \<Rightarrow> (node_id \<times> vote_request) list \<times> raft_node" where
  "handle_timeout_now w n msg = (if tn_term msg < node_term n then ([], n) else start_election w n)"

section \<open>Membership changes\<close>

definition propose_config_change ::
  "node_env \<Rightarrow> raft_node \<Rightarrow> config_change \<Rightarrow> (membership_error + log_index) \<times> raft_node" where
  "propose_config_change w n change =
     (if node_role n \<noteq> Leader then (Inl MemberNotLeader, n)
      else
        case begin_change (ni_membership n) change of
          (Inl e, m) \<Rightarrow> (Inl e, n\<lparr>ni_membership := m\<rparr>)
        | (Inr joint, m) \<Rightarrow>
            (let n1 = n\<lparr>ni_membership := m\<rparr>
             in case append_own w n1 (joint_encode (ev_enc_joint w) joint) ConfigChange of
                  (Inl e, n2) \<Rightarrow> (Inl InvalidConfigData, n2)
                | (Inr _, n2) \<Rightarrow> (Inr (log_last_index (ni_log n1) + 1), note_own_match n2)))"

definition apply_config_change :: "node_env \<Rightarrow> raft_node \<Rightarrow> bytes \<Rightarrow> cluster_config option \<times> raft_node" where
  "apply_config_change w n data =
     (case joint_decode (ev_dec_joint w) data of
        Inr joint \<Rightarrow>
          (let n1 = n\<lparr>ni_membership := (ni_membership n)\<lparr>ms_pending := Some (jc_new joint)\<rparr>\<rparr>
           in if node_role n1 = Leader then
                (case finalize_joint (ni_membership n1) of
                   (Some new_config, m) \<Rightarrow>
                     (let n2 = snd (append_own w (n1\<lparr>ni_membership := m\<rparr>) (ev_enc_config w new_config) ConfigChange)
                      in (Some new_config, note_own_match n2))
                 | (None, m) \<Rightarrow> (None, n1\<lparr>ni_membership := m\<rparr>))
              else (None, n1))
      | Inl _ \<Rightarrow>
          (case ev_dec_config w data of
             Some new_config \<Rightarrow>
               (Some new_config, n\<lparr>ni_membership := apply_new_config (ni_membership n) new_config\<rparr>)
           | None \<Rightarrow> (None, n)))"

definition node_is_voter :: "raft_node \<Rightarrow> bool" where
  "node_is_voter n = is_voter (ni_membership n) (node_id_of n)"

end
