(* ===== verification/Node_Vote.thy ===== *)
theory Node_Vote
  imports Raft_Node
begin

text \<open>
  Terms and votes of one node (\<open>raft-consensus/src/node.rs\<close>, \<open>election.rs\<close>, \<open>state.rs\<close>) over arbitrary
  sequences of handler calls and restarts: the term never goes back, the vote of a term never changes,
  what is on disk is what is in memory, and hence a node votes at most once in a term even across
  crashes.
\<close>

section \<open>The operations of a node\<close>

datatype node_op =
    OpStartPreVote
  | OpStartElection
  | OpVoteResponse node_id vote_response bool
  | OpVoteRequest vote_request
  | OpAppendEntries append_request
  | OpPropose bytes
  | OpAppendResponse node_id append_response
  | OpTakeCommitted
  | OpTriggerSnapshot bytes
  | OpInstallSnapshot raft_term node_id snapshot_metadata bytes
  | OpRequestReadIndex
  | OpReadIndexAck node_id
  | OpTakeReadIndex nat
  | OpTransferLeadership node_id
  | OpCheckTransferProgress
  | OpCheckTransferTimeout nat
  | OpTimeoutNow timeout_now
  | OpProposeConfigChange config_change
  | OpApplyConfigChange bytes

fun node_step :: "node_env \<Rightarrow> raft_node \<Rightarrow> node_op \<Rightarrow> raft_node" where
  "node_step w n OpStartPreVote = snd (start_pre_vote n)"
| "node_step w n OpStartElection = snd (start_election w n)"
| "node_step w n (OpVoteResponse from r pre) = snd (handle_vote_response w n from r pre)"
| "node_step w n (OpVoteRequest r) = snd (handle_vote_request w n r)"
| "node_step w n (OpAppendEntries r) = snd (handle_append_entries w n r)"
| "node_step w n (OpPropose d) = snd (propose w n d)"
| "node_step w n (OpAppendResponse from r) = handle_append_response w n from r"
| "node_step w n OpTakeCommitted = snd (take_committed_entries n)"
| "node_step w n (OpTriggerSnapshot d) = snd (trigger_snapshot w n d)"
| "node_step w n (OpInstallSnapshot t l m d) = snd (handle_install_snapshot w n t l m d)"
| "node_step w n OpRequestReadIndex = snd (request_read_index n)"
| "node_step w n (OpReadIndexAck from) = snd (read_index_ack n from)"
| "node_step w n (OpTakeReadIndex i) = snd (take_read_index n i)"
| "node_step w n (OpTransferLeadership t) = snd (transfer_leadership w n t)"
| "node_step w n OpCheckTransferProgress = snd (check_transfer_progress n)"
| "node_step w n (OpCheckTransferTimeout ms) = snd (check_transfer_timeout w n ms)"
| "node_step w n (OpTimeoutNow m) = snd (handle_timeout_now w n m)"
| "node_step w n (OpProposeConfigChange c) = snd (propose_config_change w n c)"
| "node_step w n (OpApplyConfigChange d) = snd (apply_config_change w n d)"

section \<open>The part of the state elections depend on\<close>

record election_view =
  ev_pers :: persistent_state
  ev_role :: role
  ev_elec :: "election_state option"
  ev_conf :: node_config
  ev_files :: state_files

definition view :: "raft_node \<Rightarrow> election_view" where
  "view n = \<lparr>ev_pers = rs_persistent (ni_state n), ev_role = node_role n, ev_elec = ni_election_state n,
             ev_conf = rn_config n, ev_files = rn_files n\<rparr>"

abbreviation saved_files :: "node_env \<Rightarrow> nat \<Rightarrow> raft_node \<Rightarrow> persistent_state \<Rightarrow> state_files" where
  "saved_files w k n p \<equiv> persistent_save (ev_enc_state w) (ev_save_io w k) (ev_rename_ok w k) p (rn_files n)"

lemma view_step_down [node_defs]:
  "view (step_down_inner w n t) =
     (let p = \<lparr>ps_current_term = t, ps_voted_for = None\<rparr>
      in \<lparr>ev_pers = p, ev_role = Follower, ev_elec = None, ev_conf = rn_config n,
          ev_files = saved_files w 0 n p\<rparr>)"
  by (simp add: view_def step_down_inner_def save_persistent_def Let_def)

lemma log_step_down [simp]: "ni_log (step_down_inner w n t) = ni_log n"
  by (simp add: step_down_inner_def save_persistent_def)

lemma view_append_own [node_defs]: "view (snd (append_own w n d ty)) = view n"
  by (simp add: append_own_def view_def case_prod_beta Let_def)

lemma view_note_own_match [node_defs]: "view (note_own_match n) = view n"
  by (simp add: note_own_match_def view_def)

lemma view_try_advance_commit [node_defs]: "view (try_advance_commit n) = view n"
  by (simp add: try_advance_commit_def view_def split: option.split)

lemma view_become_leader [node_defs]:
  "view (become_leader_inner w n) = (view n)\<lparr>ev_role := Leader, ev_elec := None\<rparr>"
  by (simp add: become_leader_inner_def Let_def view_note_own_match view_append_own)
    (simp add: view_def)

lemma view_eqD:
  "view n = view m \<Longrightarrow> rs_persistent (ni_state n) = rs_persistent (ni_state m) \<and> node_role n = node_role m \<and>
     ni_election_state n = ni_election_state m \<and> rn_config n = rn_config m \<and> rn_files n = rn_files m"
  by (simp add: view_def)

text \<open>The handlers that leave the view alone.\<close>

lemma view_propose: "view (snd (propose w n d)) = view n"
proof -
  have *: "view (snd r) = view n \<Longrightarrow>
      view (snd (case r of (Inl e, n1) \<Rightarrow> (Inl (ProposalError e), n1)
                 | (Inr _, n1) \<Rightarrow> (Inr (k :: nat), note_own_match n1))) = view n" for r :: "unit result \<times> raft_node" and k
    by (auto simp: view_note_own_match split: prod.split sum.split)
  show ?thesis using * [OF view_append_own] by (simp add: propose_def)
qed

lemma view_propose_config: "view (snd (propose_config_change w n c)) = view n"
proof -
  have m: "view (n\<lparr>ni_membership := m\<rparr>) = view n" for m by (simp add: view_def)
  have *: "view (snd r) = view n \<Longrightarrow>
      view (snd (case r of (Inl e, n1) \<Rightarrow> (Inl InvalidConfigData, n1)
                 | (Inr _, n1) \<Rightarrow> (Inr (k :: nat), note_own_match n1))) = view n" for r :: "unit result \<times> raft_node" and k
    by (auto simp: view_note_own_match split: prod.split sum.split)
  show ?thesis
    using * m by (auto simp: propose_config_change_def Let_def view_append_own split: prod.split sum.split)
qed

lemma view_apply_config: "view (snd (apply_config_change w n d)) = view n"
proof -
  have m: "view (n\<lparr>ni_membership := m\<rparr>) = view n" for m by (simp add: view_def)
  show ?thesis
    by (simp add: apply_config_change_def Let_def view_note_own_match view_append_own m
        split: sum.split prod.split option.split)
qed

lemma view_trigger_snapshot: "view (snd (trigger_snapshot w n d)) = view n"
  by (simp add: trigger_snapshot_def Let_def view_def split: prod.split sum.split)

lemma view_reads:
  "view (snd (request_read_index n)) = view n"
  "view (snd (read_index_ack n from)) = view n"
  "view (snd (take_read_index n i)) = view n"
  by (simp_all add: request_read_index_def read_index_ack_def take_read_index_def view_def Let_def case_prod_beta)

lemma view_transfer:
  "view (snd (transfer_leadership w n t)) = view n"
  "view (snd (check_transfer_progress n)) = view n"
  "view (snd (check_transfer_timeout w n ms)) = view n"
  by (simp_all add: transfer_leadership_def check_transfer_progress_def check_transfer_timeout_def
      view_def Let_def split: option.split)

lemma view_take_committed: "view (snd (take_committed_entries n)) = view n"
  by (simp add: take_committed_entries_def view_def case_prod_beta Let_def)

lemmas view_unchanged = view_propose view_propose_config view_apply_config view_trigger_snapshot
  view_reads view_transfer view_take_committed

text \<open>The handlers of messages from a leader.\<close>

lemma view_append_response:
  "view (handle_append_response w n from r) =
     (if ap_term r > node_term n then view (step_down_inner w n (ap_term r)) else view n)"
proof -
  have "view (n\<lparr>ni_leader_state := l\<rparr>) = view n" for l by (simp add: view_def)
  then show ?thesis
    by (simp add: handle_append_response_def Let_def view_try_advance_commit split: option.split)
qed

abbreviation adopt_leader :: "node_env \<Rightarrow> raft_node \<Rightarrow> raft_term \<Rightarrow> election_view" where
  "adopt_leader w n t \<equiv>
     (if t < node_term n then view n
      else (view (if t > node_term n then step_down_inner w n t else n))\<lparr>ev_role := Follower\<rparr>)"

lemma view_append_entries: "view (snd (handle_append_entries w n r)) = adopt_leader w n (aq_term r)"
  by (simp add: handle_append_entries_def Let_def view_def)

lemma view_install_snapshot:
  "view (snd (handle_install_snapshot w n t l m d)) = adopt_leader w n t"
  by (simp add: handle_install_snapshot_def Let_def view_def case_prod_beta)

section \<open>The election handlers\<close>

lemma view_start_pre_vote:
  "view (snd (start_pre_vote n)) = (view n)\<lparr>ev_role := PreCandidate, ev_elec := Some (self_election n)\<rparr>"
  by (simp add: start_pre_vote_def view_def)

lemma self_election_simps [simp]:
  "es_votes_received (self_election n) = {node_id_of n}"
  "es_votes_needed (self_election n) = (length (nc_peers (rn_config n)) + 1) div 2 + 1"
  by (simp_all add: self_election_def record_vote_def election_state_new_def cluster_size_def Let_def)

lemma view_start_election:
  "view (snd (start_election w n)) =
     (let p = \<lparr>ps_current_term = node_term n + 1, ps_voted_for = Some (node_id_of n)\<rparr>
      in \<lparr>ev_pers = p, ev_role = Candidate, ev_elec = Some (self_election n), ev_conf = rn_config n,
          ev_files = saved_files w 0 n p\<rparr>)"
  by (simp add: start_election_def save_persistent_def view_def Let_def self_election_def cluster_size_def)

lemma view_timeout_now:
  "view (snd (handle_timeout_now w n m)) =
     (if tn_term m < node_term n then view n else view (snd (start_election w n)))"
  by (simp add: handle_timeout_now_def)

lemma view_vote_response:
  "view (snd (handle_vote_response w n from r pre)) =
     (if vp_term r > node_term n then view (step_down_inner w n (vp_term r))
      else if \<not> vp_vote_granted r then view n
      else case ni_election_state n of
        None \<Rightarrow> view n
      | Some e \<Rightarrow>
          (let (e', q) = record_vote e from
           in if q \<and> \<not> pre then (view n)\<lparr>ev_role := Leader, ev_elec := None\<rparr>
              else (view n)\<lparr>ev_elec := Some e'\<rparr>))"
proof -
  have e: "view (n\<lparr>ni_election_state := e\<rparr>) = (view n)\<lparr>ev_elec := e\<rparr>" for e by (simp add: view_def)
  show ?thesis
    by (simp add: handle_vote_response_def Let_def case_prod_beta view_become_leader e split: option.split)
qed

lemma view_vote_request:
  "view (snd (handle_vote_request w n r)) =
     (if vq_is_pre_vote r then view n
      else
        let n1 = (if vq_term r > node_term n then step_down_inner w n (vq_term r) else n);
            p = (rs_persistent (ni_state n1))\<lparr>ps_voted_for := Some (vq_candidate_id r)\<rparr>
        in if vp_vote_granted (fst (handle_vote_request w n r))
           then (view n1)\<lparr>ev_pers := p, ev_files := saved_files w 1 n1 p\<rparr> else view n1)"
  by (simp add: handle_vote_request_def Let_def view_def save_persistent_def)

lemma state_step_down [simp]:
  "rs_persistent (ni_state (step_down_inner w n t)) = \<lparr>ps_current_term = t, ps_voted_for = None\<rparr>"
  "rn_config (step_down_inner w n t) = rn_config n"
  by (simp_all add: step_down_inner_def save_persistent_def)

lemma vote_granted_iff:
  assumes "\<not> vq_is_pre_vote r"
  shows "vp_vote_granted (fst (handle_vote_request w n r)) \<longleftrightarrow>
     node_term n \<le> vq_term r \<and>
     (node_term n = vq_term r \<longrightarrow> node_vote n = None \<or> node_vote n = Some (vq_candidate_id r)) \<and>
     is_log_up_to_date (vq_last_log_term r) (vq_last_log_index r) (log_last_term (ni_log n)) (log_last_index (ni_log n))"
  using assms by (auto simp: handle_vote_request_def Let_def should_grant_vote_iff)

section \<open>Order of terms and votes\<close>

definition vote_order :: "persistent_state \<Rightarrow> persistent_state \<Rightarrow> bool" where
  "vote_order p q \<longleftrightarrow> ps_current_term p < ps_current_term q \<or>
     ps_current_term p = ps_current_term q \<and> (ps_voted_for p = None \<or> ps_voted_for p = ps_voted_for q)"

lemma vote_order_refl [simp]: "vote_order p p"
  by (simp add: vote_order_def)

lemma vote_order_trans: "vote_order p q \<Longrightarrow> vote_order q r \<Longrightarrow> vote_order p r"
  by (auto simp: vote_order_def)

lemma vote_order_step_down: "node_term n < t \<Longrightarrow> vote_order (rs_persistent (ni_state n)) \<lparr>ps_current_term = t, ps_voted_for = v\<rparr>"
  by (simp add: vote_order_def)

lemma pers_view: "rs_persistent (ni_state n) = ev_pers (view n)"
  by (simp add: view_def)

lemmas step_views = view_unchanged view_append_response view_append_entries view_install_snapshot
  view_timeout_now view_start_election view_start_pre_vote

text \<open>One step either keeps term and vote or moves up in the order.\<close>

lemma vote_order_vote_request:
  "vote_order (rs_persistent (ni_state n)) (rs_persistent (ni_state (snd (handle_vote_request w n r))))"
proof (cases "vq_is_pre_vote r")
  case True
  then show ?thesis by (simp add: handle_vote_request_def)
next
  case False
  note g = vote_granted_iff [OF False, of w n]
  show ?thesis
    unfolding pers_view [of "snd _"] view_vote_request
    using False g by (auto simp: Let_def view_step_down vote_order_def) (simp_all add: view_def)
qed

lemma vote_order_step: "vote_order (rs_persistent (ni_state n)) (rs_persistent (ni_state (node_step w n op)))"
proof (cases op)
  case (OpVoteRequest r)
  then show ?thesis using vote_order_vote_request by simp
next
  case (OpVoteResponse peer r pre)
  have "rs_persistent (ni_state n) = ev_pers (view n)" by (simp add: view_def)
  then show ?thesis
    unfolding OpVoteResponse node_step.simps pers_view [of "snd _"] view_vote_response
    by (auto simp: Let_def view_step_down vote_order_def case_prod_beta split: option.split)
qed (simp_all add: pers_view step_views view_step_down Let_def vote_order_def)

section \<open>Memory and disk\<close>

definition saved :: "(bytes \<Rightarrow> persistent_state option) \<Rightarrow> raft_node \<Rightarrow> bool" where
  "saved dec n \<longleftrightarrow> persistent_load dec (sf_state (rn_files n)) = rs_persistent (ni_state n)"

definition saves_ok :: "node_env \<Rightarrow> bool" where
  "saves_ok w \<longleftrightarrow> (\<forall>k. ev_save_io w k = IoOk \<and> ev_rename_ok w k) \<and>
     (\<forall>p. ev_dec_state w (ev_enc_state w p) = Some p)"

definition saved_view :: "(bytes \<Rightarrow> persistent_state option) \<Rightarrow> election_view \<Rightarrow> bool" where
  "saved_view dec v \<longleftrightarrow> persistent_load dec (sf_state (ev_files v)) = ev_pers v"

lemma saved_iff_view: "saved dec n \<longleftrightarrow> saved_view dec (view n)"
  by (simp add: saved_def saved_view_def view_def)

lemma saved_view_files:
  "saves_ok w \<Longrightarrow> saved_view (ev_dec_state w)
     \<lparr>ev_pers = p, ev_role = r, ev_elec = e, ev_conf = c, ev_files = saved_files w k n p\<rparr>"
  by (simp add: saved_view_def saves_ok_def persistent_load_def)

lemma saved_view_update [simp]:
  "saved_view dec (v\<lparr>ev_role := r\<rparr>) = saved_view dec v"
  "saved_view dec (v\<lparr>ev_elec := e\<rparr>) = saved_view dec v"
  by (simp_all add: saved_view_def)

lemma saved_step_down: "saves_ok w \<Longrightarrow> saved_view (ev_dec_state w) (view (step_down_inner w n t))"
  by (simp add: view_step_down Let_def saved_view_files)

lemma saved_step:
  assumes "saved (ev_dec_state w) n" and "saves_ok w"
  shows "saved (ev_dec_state w) (node_step w n op)"
proof -
  have sv: "saved_view (ev_dec_state w) (view n)" using assms(1) by (simp add: saved_iff_view)
  note rules = sv assms(2) saved_step_down saved_view_files Let_def
  show ?thesis
  proof (cases op)
    case (OpVoteRequest r)
    have "saved_view (ev_dec_state w) (v\<lparr>ev_pers := p, ev_files := saved_files w 1 m p\<rparr>)" for v p m
      using assms(2) by (simp add: saved_view_def saves_ok_def persistent_load_def)
    then show ?thesis
      unfolding OpVoteRequest saved_iff_view node_step.simps view_vote_request by (simp add: rules)
  next
    case (OpVoteResponse peer r pre)
    show ?thesis
      unfolding OpVoteResponse saved_iff_view node_step.simps view_vote_response
      by (simp add: rules case_prod_beta split: option.split)
  qed (simp_all add: saved_iff_view step_views rules)
qed

section \<open>Runs with crashes\<close>

text \<open>A run of one node: handler calls in any order with any arguments, each in its own environment,
  and restarts from the files, whatever the log file has become.\<close>

inductive node_run ::
  "(persistent_state \<Rightarrow> bytes) \<Rightarrow> (bytes \<Rightarrow> persistent_state option) \<Rightarrow> raft_node \<Rightarrow> raft_node \<Rightarrow> bool"
  for enc dec where
  run_refl: "node_run enc dec n n"
| run_step: "node_run enc dec n n1 \<Longrightarrow> saves_ok w \<Longrightarrow> ev_enc_state w = enc \<Longrightarrow> ev_dec_state w = dec \<Longrightarrow>
    node_run enc dec n (node_step w n1 op)"
| run_restart: "node_run enc dec n n1 \<Longrightarrow> ev_dec_state w = dec \<Longrightarrow>
    node_new w (rn_config n1) (rn_files n1) wal dir = Some (Inr n2) \<Longrightarrow> node_run enc dec n n2"

lemma node_new_fields:
  assumes "node_new w c fs wal dir = Some (Inr n)"
  shows "view n = \<lparr>ev_pers = persistent_load (ev_dec_state w) (sf_state fs), ev_role = Follower,
                   ev_elec = None, ev_conf = c, ev_files = fs\<rparr>"
  using assms by (auto simp: node_new_def view_def Let_def split: option.splits sum.splits)

lemma node_run_vote_order:
  assumes "node_run enc dec n n'" and "saved dec n"
  shows "saved dec n' \<and> vote_order (rs_persistent (ni_state n)) (rs_persistent (ni_state n'))"
  using assms
proof (induction rule: node_run.induct)
  case (run_refl n)
  then show ?case by simp
next
  case (run_step n n1 w op)
  then show ?case
    using saved_step [of w n1 op] vote_order_step [of n1 w op] vote_order_trans by blast
next
  case (run_restart n n1 w wal dir n2)
  note v = node_new_fields [OF run_restart.hyps(3)]
  have "rs_persistent (ni_state n2) = rs_persistent (ni_state n1)"
    using run_restart v by (simp add: pers_view [of n2] saved_def)
  moreover have "saved dec n2" using v run_restart.hyps(2) by (simp add: saved_iff_view saved_view_def)
  ultimately show ?case using run_restart by simp
qed

lemma granted_vote_state:
  assumes "\<not> vq_is_pre_vote r" and "vp_vote_granted (fst (handle_vote_request w n r))"
  shows "rs_persistent (ni_state (snd (handle_vote_request w n r))) =
     \<lparr>ps_current_term = vq_term r, ps_voted_for = Some (vq_candidate_id r)\<rparr>"
proof -
  have "node_term n \<le> vq_term r" using assms vote_granted_iff by blast
  then show ?thesis
    unfolding pers_view view_vote_request using assms by (auto simp: Let_def view_step_down)
qed


section \<open>An environment and nodes for examples\<close>

definition demo_enc :: "persistent_state \<Rightarrow> bytes" where
  "demo_enc p = replicate (ps_current_term p) 0 @ 1 #
     (case ps_voted_for p of None \<Rightarrow> [] | Some v \<Rightarrow> replicate (Suc v) 2)"

definition demo_dec :: "bytes \<Rightarrow> persistent_state option" where
  "demo_dec bs =
     (let t = length (takeWhile (\<lambda>b. b = 0) bs); rest = drop (Suc t) bs
      in Some \<lparr>ps_current_term = t, ps_voted_for = (if rest = [] then None else Some (length rest - 1))\<rparr>)"

lemma demo_dec_enc: "demo_dec (demo_enc p) = Some p"
proof -
  define v where "v = (case ps_voted_for p of None \<Rightarrow> [] | Some v \<Rightarrow> replicate (Suc v) (2 :: byte))"
  have e: "demo_enc p = replicate (ps_current_term p) 0 @ 1 # v" by (simp add: demo_enc_def v_def)
  have t: "takeWhile (\<lambda>b. b = 0) (demo_enc p) = replicate (ps_current_term p) 0"
    unfolding e by (subst takeWhile_append2) auto
  have d: "drop (Suc (ps_current_term p)) (demo_enc p) = v" unfolding e by simp
  have v: "(if v = [] then None else Some (length v - 1)) = ps_voted_for p"
    by (simp add: v_def split: option.split)
  show ?thesis unfolding demo_dec_def t length_replicate Let_def d v by simp
qed

definition demo_env :: node_env where
  "demo_env =
     \<lparr>ev_crc = (\<lambda>_. 0), ev_wal_ok = (\<lambda>_. True), ev_save_io = (\<lambda>_. IoOk), ev_rename_ok = (\<lambda>_. True), ev_now = 0,
      ev_enc_state = demo_enc, ev_dec_state = demo_dec, ev_enc_joint = (\<lambda>_. []), ev_dec_joint = (\<lambda>_. None),
      ev_enc_config = (\<lambda>_. []), ev_dec_config = (\<lambda>_. None), ev_enc_meta = enc_meta, ev_dec_meta = dec_meta,
      ev_snap_io = io_all_ok\<rparr>"

definition demo_node :: "node_id \<Rightarrow> node_id list \<Rightarrow> raft_node" where
  "demo_node i peers =
     projr (the (node_new demo_env \<lparr>nc_id = i, nc_peers = peers, nc_tick_config = tick_config_default\<rparr>
       \<lparr>sf_state = None, sf_tmp = None\<rparr> None []))"

lemma saves_ok_demo [simp]: "saves_ok demo_env"
  by (simp add: saves_ok_def demo_env_def demo_dec_enc)

lemma demo_codecs [simp]: "ev_enc_state demo_env = demo_enc" "ev_dec_state demo_env = demo_dec"
  by (simp_all add: demo_env_def)

lemma demo_node_simps [simp]:
  "rs_persistent (ni_state (demo_node i peers)) = persistent_new"
  "rn_files (demo_node i peers) = \<lparr>sf_state = None, sf_tmp = None\<rparr>"
  "rn_config (demo_node i peers) = \<lparr>nc_id = i, nc_peers = peers, nc_tick_config = tick_config_default\<rparr>"
  "node_role (demo_node i peers) = Follower" "ni_election_state (demo_node i peers) = None"
  "log_last_index (ni_log (demo_node i peers)) = 0" "log_last_term (ni_log (demo_node i peers)) = 0"
  "rl_entries (ni_log (demo_node i peers)) = []"
  by (simp_all add: demo_node_def node_new_def log_open_def persistent_load_def Let_def
      log_last_index_def log_last_term_def)

lemma saved_demo [simp]: "saved demo_dec (demo_node i peers)"
  by (simp add: saved_def persistent_load_def)

abbreviation demo_vote :: "raft_term \<Rightarrow> node_id \<Rightarrow> vote_request" where
  "demo_vote t c \<equiv> \<lparr>vq_term = t, vq_candidate_id = c, vq_last_log_index = 0, vq_last_log_term = 0, vq_is_pre_vote = False\<rparr>"

lemma persistent_new_simps [simp]:
  "ps_current_term persistent_new = 0" "ps_voted_for persistent_new = None"
  by (simp_all add: persistent_new_def)


end
