(* ===== verification/Node_Log.thy ===== *)
theory Node_Log
  imports Node_Vote
begin

text \<open>
  Log replication and commitment in one node (\<open>raft-consensus/src/node.rs\<close>): what
  \<open>handle_append_entries\<close> makes of the follower's log, what \<open>try_advance_commit\<close> commits, what
  \<open>take_committed_entries\<close> hands to the state machine, and the invariant that ties snapshot index,
  applied index, commit index and last index together.
\<close>

section \<open>The conflict loop against a reference\<close>

text \<open>How many of the received entries the log already has, up to the first that is missing or
  conflicting.\<close>

definition has_entry :: "raft_log \<Rightarrow> log_entry \<Rightarrow> bool" where
  "has_entry l e = (case log_get l (e_index e) of Some x \<Rightarrow> e_term x = e_term e | None \<Rightarrow> False)"

definition matching :: "raft_log \<Rightarrow> log_entry list \<Rightarrow> nat" where
  "matching l es = length (takeWhile (has_entry l) es)"

lemma matching_Nil [simp]: "matching l [] = 0"
  by (simp add: matching_def)

lemma matching_Cons: "matching l (e # es) = (if has_entry l e then Suc (matching l es) else 0)"
  by (simp add: matching_def)

lemma matching_le: "matching l es \<le> length es"
  by (simp add: matching_def length_takeWhile_le)

lemma matching_nth: "k < matching l es \<Longrightarrow> has_entry l (es ! k)"
  unfolding matching_def by (metis nth_mem set_takeWhileD takeWhile_nth)

lemma merge_entries_absent:
  "\<forall>e \<in> set es. log_get l (e_index e) = None \<Longrightarrow> merge_entries l acc es = (l, acc @ es)"
  by (induction es arbitrary: acc) simp_all

lemma log_truncate_last: "wf_log l \<Longrightarrow> log_last_index l \<le> i \<Longrightarrow> rl_snapshot_index l < i \<or> rl_entries l = [] \<Longrightarrow> log_truncate_after l i = l"
  by (auto simp: log_truncate_after_def log_last_index_wf)

lemma contiguous_index: "contiguous p es \<Longrightarrow> e \<in> set es \<Longrightarrow> p < e_index e \<and> e_index e \<le> p + length es"
proof -
  assume c: "contiguous p es" and "e \<in> set es"
  then have "e_index e \<in> set [Suc p ..< Suc p + length es]"
    unfolding contiguous_def by (metis image_eqI list.set_map)
  then show ?thesis by (simp only: set_upt) auto
qed

lemma log_truncate_at_last [simp]:
  assumes "wf_log l"
  shows "log_truncate_after l (log_last_index l) = l"
  using assms by (cases "rl_entries l = []") (simp_all add: log_truncate_after_def log_last_index_wf)

lemma merge_entries_reference:
  assumes "wf_log l" and "contiguous p es" and "rl_snapshot_index l \<le> p" and "p \<le> log_last_index l"
  shows "merge_entries l [] es =
     (if matching l es = length es then (l, [])
      else (log_truncate_after l (p + matching l es), drop (matching l es) es))"
  using assms
proof (induction es arbitrary: p)
  case Nil
  then show ?case by simp
next
  case (Cons e es)
  have idx: "e_index e = Suc p" and cont: "contiguous (Suc p) es" using Cons.prems(2) by simp_all
  show ?case
  proof (cases "log_get l (e_index e)")
    case None
    then have last: "log_last_index l = p"
      using Cons.prems idx by (auto simp: log_get_None_iff)
    have "\<forall>x \<in> set (e # es). log_get l (e_index x) = None"
      using Cons.prems last contiguous_index [OF Cons.prems(2)] by (fastforce simp: log_get_None_iff)
    then show ?thesis
      using None last Cons.prems(1) merge_entries_absent [of "e # es" l "[]"]
      by (auto simp: matching_Cons has_entry_def)
  next
    case (Some x)
    then have le: "Suc p \<le> log_last_index l"
      using Cons.prems(1) idx log_get_defined [of l "Suc p"] by auto
    show ?thesis
    proof (cases "e_term x = e_term e")
      case True
      then show ?thesis
        using Some Cons.IH [OF Cons.prems(1) cont _ le] Cons.prems(3)
        by (simp add: matching_Cons has_entry_def)
    next
      case False
      have "\<forall>x \<in> set es. log_get (log_truncate_after l p) (e_index x) = None"
        using contiguous_index [OF cont] by (fastforce simp: log_get_truncate)
      then show ?thesis
        using False Some idx merge_entries_absent [of es "log_truncate_after l p" "[e]"]
        by (simp add: matching_Cons has_entry_def)
    qed
  qed
qed

text \<open>The log after the entries have been stored, looked up by index.\<close>

lemma store_entries_snapshot:
  assumes "wf_log l" and "contiguous p es" and "rl_snapshot_index l \<le> p" and "p \<le> log_last_index l"
  shows "rl_snapshot_index (store_entries w l es) = rl_snapshot_index l"
    "rl_snapshot_term (store_entries w l es) = rl_snapshot_term l"
  using log_append_fields(2,3) [of "ev_crc w" "ev_wal_ok w" _ _ _ "snd _", OF prod.collapse [symmetric]]
  by (simp_all add: store_entries_def merge_entries_reference [OF assms])

lemma has_entry_last:
  assumes "wf_log l" and "contiguous p es" and "p \<le> log_last_index l"
  shows "p + matching l es \<le> log_last_index l"
proof (cases "matching l es = 0")
  case False
  then obtain k where k: "matching l es = Suc k" using not0_implies_Suc by blast
  then have "k < length es" using matching_le [of l es] by simp
  then have "e_index (es ! k) = Suc (p + k)" using assms(2) by (rule contiguous_nth [rotated])
  moreover have "has_entry l (es ! k)" using k by (intro matching_nth) simp
  ultimately show ?thesis
    using k log_get_defined [OF assms(1), of "Suc (p + k)"] by (auto simp: has_entry_def split: option.splits)
qed (use assms in simp)

lemma store_entries_get:
  assumes "wf_log l" and "contiguous p es" and "rl_snapshot_index l \<le> p" and "p \<le> log_last_index l"
    and "\<And>k. ev_wal_ok w k"
  shows "wf_log (store_entries w l es)"
    and "log_get (store_entries w l es) i =
       (if matching l es = length es \<or> i \<le> p + matching l es then log_get l i
        else vec_get es (i - p - 1))"
    and "log_last_index (store_entries w l es) =
       (if matching l es = length es then log_last_index l else p + length es)"
proof -
  let ?k = "matching l es" and ?t = "log_truncate_after l (p + matching l es)"
  let ?l' = "store_entries w l es"
  have k: "?k \<le> length es" by (rule matching_le)
  note last = has_entry_last [OF assms(1,2,4)]
  note mr = merge_entries_reference [OF assms(1-4)]
  have get_trunc: "log_last_index ?t = p + ?k"
    using assms(1,3) last by (intro last_index_truncate) auto
  have c: "contiguous (p + ?k) (drop ?k es)" using assms(2) k by (rule contiguous_drop)
  have all: "wf_log ?l' \<and> log_get ?l' i =
       (if ?k = length es \<or> i \<le> p + ?k then log_get l i else vec_get es (i - p - 1)) \<and>
     log_last_index ?l' = (if ?k = length es then log_last_index l else p + length es)"
  proof (cases "?k = length es")
    case True
    then show ?thesis using assms(1) mr by (simp add: store_entries_def)
  next
    case False
    obtain r l' where ap: "log_append (ev_crc w) (ev_wal_ok w) ?t (drop ?k es) = (r, l')"
      by (cases "log_append (ev_crc w) (ev_wal_ok w) ?t (drop ?k es)")
    have "r = Inr ()" using log_append_ok [of "ev_wal_ok w"] assms(5) ap by (metis fst_conv)
    then have f: "rl_entries l' = rl_entries ?t @ drop ?k es" "rl_snapshot_index l' = rl_snapshot_index ?t"
      using log_append_fields [OF ap] by simp_all
    have l': "?l' = l'" using False k mr ap by (simp add: store_entries_def)
    let ?u = "?t\<lparr>rl_entries := rl_entries ?t @ drop ?k es\<rparr>"
    have same: "wf_log l' = wf_log ?u" "log_get l' i = log_get ?u i" "log_last_index l' = log_last_index ?u"
      by (simp_all add: wf_log_def log_get_def log_last_index_def f)
    have wfu: "wf_log ?u" using assms(1) c get_trunc by (intro wf_log_append) simp_all
    have "log_get ?u i = (if i \<le> p + ?k then log_get ?t i else vec_get (drop ?k es) (i - (p + ?k) - 1))"
      using log_get_append [of ?t "drop ?k es" i] assms(1) get_trunc by simp
    moreover have "vec_get (drop ?k es) (i - (p + ?k) - 1) = vec_get es (i - p - 1)" if "\<not> i \<le> p + ?k"
      using that by (simp add: vec_get_drop)
    moreover have "log_last_index ?u = p + length es"
      using log_last_index_wf [OF wfu] log_last_index_wf [of ?t] assms(1) get_trunc k by simp
    ultimately show ?thesis using False wfu by (simp add: l' same log_get_truncate)
  qed
  then show "wf_log ?l'" "log_get ?l' i = (if ?k = length es \<or> i \<le> p + ?k then log_get l i else vec_get es (i - p - 1))"
    "log_last_index ?l' = (if ?k = length es then log_last_index l else p + length es)" by blast+
qed

section \<open>AppendEntries\<close>

abbreviation wal_works :: "node_env \<Rightarrow> bool" where
  "wal_works w \<equiv> \<forall>k. ev_wal_ok w k"

text \<open>The requests the invariant needs: consecutive entries after \<open>prev_log_index\<close>, and a request from the
  start of the log only while nothing has been compacted.\<close>

definition wf_append_request :: "raft_node \<Rightarrow> append_request \<Rightarrow> bool" where
  "wf_append_request n r \<longleftrightarrow> contiguous (aq_prev_log_index r) (aq_entries r) \<and>
     (aq_prev_log_index r = 0 \<longrightarrow> rl_snapshot_index (ni_log n) = 0)"

abbreviation prev_matches :: "raft_node \<Rightarrow> append_request \<Rightarrow> bool" where
  "prev_matches n r \<equiv> aq_prev_log_index r = 0 \<or> log_match_term (ni_log n) (aq_prev_log_index r) (aq_prev_log_term r)"

lemma prev_matches_bounds:
  assumes "wf_log (ni_log n)" and "wf_append_request n r" and "prev_matches n r"
  shows "rl_snapshot_index (ni_log n) \<le> aq_prev_log_index r" "aq_prev_log_index r \<le> log_last_index (ni_log n)"
proof -
  have "rl_snapshot_index (ni_log n) \<le> aq_prev_log_index r \<and> aq_prev_log_index r \<le> log_last_index (ni_log n)"
  proof (cases "aq_prev_log_index r = 0 \<or> aq_prev_log_index r = rl_snapshot_index (ni_log n)")
    case True
    then show ?thesis using assms by (auto simp: wf_append_request_def log_last_index_wf)
  next
    case False
    then have "log_get (ni_log n) (aq_prev_log_index r) \<noteq> None"
      using assms(3) by (auto simp: log_match_term_def log_term_at_def)
    then show ?thesis using log_get_defined [OF assms(1)] by (meson less_imp_le)
  qed
  then show "rl_snapshot_index (ni_log n) \<le> aq_prev_log_index r" "aq_prev_log_index r \<le> log_last_index (ni_log n)"
    by simp_all
qed

lemma commit_step_down [simp]:
  "rs_commit_index (ni_state (step_down_inner w n t)) = rs_commit_index (ni_state n)"
  "rs_last_applied (ni_state (step_down_inner w n t)) = rs_last_applied (ni_state n)"
  by (simp_all add: step_down_inner_def save_persistent_def)

lemma append_entries_fields:
  assumes "handle_append_entries w n r = (resp, n')"
  shows "ni_log n' = (if aq_term r \<ge> node_term n \<and> prev_matches n r then store_entries w (ni_log n) (aq_entries r) else ni_log n)"
    and "node_commit n' =
      (if aq_term r \<ge> node_term n \<and> prev_matches n r \<and> aq_leader_commit r > node_commit n
       then min (aq_leader_commit r) (log_last_index (store_entries w (ni_log n) (aq_entries r))) else node_commit n)"
    and "rs_last_applied (ni_state n') = rs_last_applied (ni_state n)"
    and "ap_success resp \<longleftrightarrow> aq_term r \<ge> node_term n \<and> prev_matches n r"
    and "ap_match_index resp = (if aq_term r < node_term n then 0 else log_last_index (ni_log n'))"
    and "ap_term resp = node_term n'" and "node_term n' = max (node_term n) (aq_term r)"
  using assms by (auto simp: handle_append_entries_def Let_def split: if_splits)


definition demo_append :: append_request where
  "demo_append = \<lparr>aq_term = 2, aq_leader_id = 2, aq_prev_log_index = 0, aq_prev_log_term = 0,
     aq_entries = [demo_entry 1 2 7, demo_entry 2 2 8], aq_leader_commit = 1\<rparr>"

lemma demo_log_simps [simp]:
  "rl_snapshot_index (ni_log (demo_node i ps)) = 0" "wf_log (ni_log (demo_node i ps))"
  by (simp_all add: demo_node_def node_new_def log_open_def Let_def wf_log_def)

lemma demo_env_wal [simp]: "ev_wal_ok demo_env k"
  by (simp add: demo_env_def)


section \<open>What is handed to the state machine\<close>

lemma take_committed_loop_spec:
  "a \<le> c \<Longrightarrow> take_committed_loop l c a = (concat (map (\<lambda>i. case log_get l i of Some e \<Rightarrow> [e] | None \<Rightarrow> []) [Suc a ..< Suc c]), c)"
proof (induction l c a rule: take_committed_loop.induct)
  case (1 l c a)
  show ?case
  proof (cases "a < c")
    case True
    then have "[Suc a ..< Suc c] = Suc a # [Suc (Suc a) ..< Suc c]" by (simp add: upt_conv_Cons del: upt_Suc)
    then show ?thesis
      using 1 True by (subst take_committed_loop.simps) (simp del: upt_Suc)
  next
    case False
    then show ?thesis using "1.prems" by (subst take_committed_loop.simps) simp
  qed
qed

lemma committed_entries_defined:
  assumes "wf_log l" and "rl_snapshot_index l \<le> a" and "c \<le> log_last_index l"
  shows "concat (map (\<lambda>i. case log_get l i of Some e \<Rightarrow> [e] | None \<Rightarrow> []) [Suc a ..< Suc c]) =
     map (\<lambda>i. the (log_get l i)) [Suc a ..< Suc c]"
proof -
  have "log_get l i \<noteq> None" if "i \<in> set [Suc a ..< Suc c]" for i
    using that assms by (simp only: log_get_defined [OF assms(1)] set_upt) auto
  then have "concat (map (\<lambda>i. case log_get l i of Some e \<Rightarrow> [e] | None \<Rightarrow> []) xs) = map (\<lambda>i. the (log_get l i)) xs"
    if "set xs \<subseteq> set [Suc a ..< Suc c]" for xs
    using that by (induction xs) (fastforce split: option.split)+
  then show ?thesis by blast
qed

section \<open>What a leader commits\<close>

text \<open>The indices a leader may commit: above the commit index, the match index of some node, replicated on
  a quorum of the configuration in force, and holding an entry of the leader's own term.\<close>

definition committable :: "raft_node \<Rightarrow> (node_id \<times> log_index) list \<Rightarrow> log_index set" where
  "committable n matches =
     {c \<in> snd ` set matches. c > node_commit n \<and>
        has_quorum (ni_membership n) {i. \<exists>idx \<ge> c. (i, idx) \<in> set matches} \<and>
        (\<exists>e. log_get (ni_log n) c = Some e \<and> e_term e = node_term n)}"

lemma voters_image: "fst ` set (filter (\<lambda>(_, idx). idx \<ge> c) ms) = {i. \<exists>idx \<ge> c. (i, idx) \<in> set ms}"
  by force

lemma advance_commit_loop_spec:
  assumes "sorted (rev xs)" and "set xs \<subseteq> snd ` set matches"
  shows "case advance_commit_loop n matches xs of
      Some c \<Rightarrow> c \<in> committable n matches \<and> c \<in> set xs \<and> (\<forall>d \<in> committable n matches. d \<in> set xs \<longrightarrow> d \<le> c)
    | None \<Rightarrow> \<forall>d \<in> committable n matches. d \<notin> set xs"
  using assms
proof (induction xs)
  case Nil
  then show ?case by simp
next
  case (Cons c xs)
  have srt: "sorted (rev xs)" and top: "\<forall>d \<in> set xs. d \<le> c"
    using Cons.prems(1) by (auto simp: sorted_append)
  note IH = Cons.IH [OF srt]
  let ?q = "has_quorum (ni_membership n) (fst ` set (filter (\<lambda>(_, idx). idx \<ge> c) matches)) \<and>
    (case log_get (ni_log n) c of Some entry \<Rightarrow> e_term entry = node_term n | None \<Rightarrow> False)"
  have q: "c \<in> committable n matches \<longleftrightarrow> node_commit n < c \<and> ?q"
    using Cons.prems(2) unfolding voters_image by (auto simp: committable_def split: option.splits)
  consider (low) "c \<le> node_commit n" | (hit) "node_commit n < c" ?q | (miss) "node_commit n < c" "\<not> ?q"
    by linarith
  then show ?case
  proof cases
    case low
    then show ?thesis using top by (auto simp: committable_def)
  next
    case hit
    then have "advance_commit_loop n matches (c # xs) = Some c" by (simp add: Let_def)
    then show ?thesis using hit q top by auto
  next
    case miss
    then have "advance_commit_loop n matches (c # xs) = advance_commit_loop n matches xs"
      by (auto simp: Let_def)
    moreover have "c \<notin> committable n matches" using miss q by blast
    ultimately show ?thesis using IH Cons.prems(2) by (auto split: option.splits)
  qed
qed

lemma try_advance_commit_spec:
  assumes "ni_leader_state n = Some leader"
  shows "node_commit (try_advance_commit n) =
     (if committable n (ls_match_index leader) = {} then node_commit n
      else Max (committable n (ls_match_index leader)))"
proof -
  let ?m = "ls_match_index leader" and ?xs = "rev (sort (map snd (ls_match_index leader)))"
  have fin: "finite (committable n ?m)" by (simp add: committable_def)
  have sub: "committable n ?m \<subseteq> set ?xs" by (auto simp: committable_def)
  have s: "case advance_commit_loop n ?m ?xs of
      Some c \<Rightarrow> c \<in> committable n ?m \<and> c \<in> set ?xs \<and> (\<forall>d \<in> committable n ?m. d \<in> set ?xs \<longrightarrow> d \<le> c)
    | None \<Rightarrow> \<forall>d \<in> committable n ?m. d \<notin> set ?xs"
    by (rule advance_commit_loop_spec) auto
  show ?thesis
  proof (cases "advance_commit_loop n ?m ?xs")
    case None
    then have "committable n ?m = {}" using s sub by auto
    then show ?thesis using None assms by (simp add: try_advance_commit_def)
  next
    case (Some c)
    then have "c \<in> committable n ?m" "\<forall>d \<in> committable n ?m. d \<le> c" using s sub by auto
    then have "Max (committable n ?m) = c" "committable n ?m \<noteq> {}" using fin by (auto intro: Max_eqI)
    then show ?thesis using Some assms by (simp add: try_advance_commit_def)
  qed
qed

lemma try_advance_commit_other:
  "(try_advance_commit n)\<lparr>ni_state := ni_state n\<rparr> = n"
  "rs_last_applied (ni_state (try_advance_commit n)) = rs_last_applied (ni_state n)"
  "ni_log (try_advance_commit n) = ni_log n"
  by (simp_all add: try_advance_commit_def split: option.split)

text \<open>C12: a leader that handles an AppendEntries response commits exactly the greatest index that is
  above its commit index, is known to be stored by a quorum (by majorities of both configurations during
  a membership change) and holds an entry of its own term; if there is none the commit index stays. The
  match indices counted are those recorded before, with the reporting follower's replaced by what it
  reported.\<close>

theorem leader_commit_rule:
  fixes peer :: node_id
  assumes "node_role n = Leader" and "ni_leader_state n = Some leader"
    and "ap_term resp \<le> node_term n" and "ap_success resp"
  defines "matches \<equiv> AList.update peer (ap_match_index resp) (ls_match_index leader)"
  shows "node_commit (handle_append_response w n peer resp) =
     (if committable n matches = {} then node_commit n else Max (committable n matches))"
proof -
  let ?leader = "leader\<lparr>ls_match_index := matches,
      ls_next_index := AList.update peer (ap_match_index resp + 1) (ls_next_index leader)\<rparr>"
  let ?n = "n\<lparr>ni_leader_state := Some ?leader\<rparr>"
  have "handle_append_response w n peer resp = try_advance_commit ?n"
    using assms(1-4) by (simp add: handle_append_response_def matches_def Let_def)
  moreover have "committable ?n matches = committable n matches" by (simp add: committable_def)
  ultimately show ?thesis using try_advance_commit_spec [of ?n ?leader] by simp
qed

definition demo_leader :: raft_node where
  "demo_leader = (let n = demo_node 1 [2, 3] in
     n\<lparr>ni_state := (ni_state n)\<lparr>rs_role := Leader, rs_persistent := \<lparr>ps_current_term = 1, ps_voted_for = Some 1\<rparr>\<rparr>,
       ni_log := (ni_log n)\<lparr>rl_entries := [demo_entry 1 1 0]\<rparr>,
       ni_leader_state := Some \<lparr>ls_next_index = [(2, 1), (3, 1)], ls_match_index = [(2, 0), (3, 0), (1, 1)]\<rparr>\<rparr>)"

lemma demo_leader_simps [simp]:
  "node_role demo_leader = Leader" "node_term demo_leader = 1" "node_commit demo_leader = 0"
  "ni_leader_state demo_leader = Some \<lparr>ls_next_index = [(2, 1), (3, 1)], ls_match_index = [(2, 0), (3, 0), (1, 1)]\<rparr>"
  "rl_entries (ni_log demo_leader) = [demo_entry 1 1 0]" "rl_snapshot_index (ni_log demo_leader) = 0"
  "ni_membership demo_leader = membership_new 1 [2, 3]"
  "rs_last_applied (ni_state demo_leader) = 0"
  by (simp_all add: demo_leader_def demo_node_def node_new_def log_open_def Let_def)

theorem leader_commit_rule_witness:
  "node_commit (handle_append_response demo_env demo_leader 2 \<lparr>ap_term = 1, ap_success = True, ap_match_index = 1\<rparr>) = 1"
proof -
  let ?m = "[(2 :: nat, 1 :: nat), (3, 0), (1, 1)]"
  let ?r = "\<lparr>ap_term = 1, ap_success = True, ap_match_index = 1\<rparr>"
  let ?l = "\<lparr>ls_next_index = [(2, 1), (3, 1)], ls_match_index = [(2, 0), (3, 0), (1, 1)]\<rparr>"
  have m: "snd ` set ?m = {0, 1}" "{i. \<exists>idx \<ge> 1. (i, idx) \<in> set ?m} = {1, 2}" by auto
  have q: "has_quorum (membership_new 1 [2, 3]) {1, 2}"
    by (simp add: has_quorum_def membership_new_def cluster_config_new_def config_len_def)
  have e: "\<exists>e. log_get (ni_log demo_leader) 1 = Some e \<and> e_term e = 1"
    by (simp add: log_get_def vec_get_def demo_entry_def)
  have "c \<in> committable demo_leader ?m \<longleftrightarrow> c = 1" for c
    using m q e unfolding committable_def by (cases "c = 1") auto
  then have C: "committable demo_leader ?m = {1}" by blast
  have "AList.update 2 (ap_match_index ?r) (ls_match_index ?l) = ?m" by simp
  with leader_commit_rule [of demo_leader ?l ?r demo_env 2] C show ?thesis by simp
qed

section \<open>The invariant of a node's indices\<close>

definition wf_node :: "raft_node \<Rightarrow> bool" where
  "wf_node n \<longleftrightarrow> wf_log (ni_log n) \<and> rl_snapshot_index (ni_log n) \<le> node_commit n \<and>
     rs_last_applied (ni_state n) \<le> node_commit n \<and> node_commit n \<le> log_last_index (ni_log n)"

text \<open>The part of the state the invariant reads.\<close>

definition indices :: "raft_node \<Rightarrow> raft_log \<times> log_index \<times> log_index" where
  "indices n = (ni_log n, node_commit n, rs_last_applied (ni_state n))"

lemma wf_node_indices: "indices n' = indices n \<Longrightarrow> wf_node n' = wf_node n"
  by (simp add: indices_def wf_node_def)

lemma indices_step_down [simp]: "indices (step_down_inner w n t) = indices n"
  by (simp add: indices_def)

lemma wf_node_step_down [simp]: "wf_node (step_down_inner w n t) = wf_node n"
  by (rule wf_node_indices) simp

lemma wf_node_append_own:
  assumes "wf_node n" and "append_own w n d ty = (r, n')"
  shows "wf_node n'"
proof -
  let ?e = "\<lparr>e_index = log_last_index (ni_log n) + 1, e_term = node_term n, e_data = d, e_type = ty\<rparr>"
  obtain l' where ap: "log_append (ev_crc w) (ev_wal_ok w) (ni_log n) [?e] = (r, l')" and n': "n' = n\<lparr>ni_log := l'\<rparr>"
    using assms(2) by (auto simp: append_own_def Let_def split: prod.splits)
  note f = log_append_fields [OF ap]
  have wf: "wf_log (ni_log n)" using assms(1) by (simp add: wf_node_def)
  have "wf_log l' \<and> log_last_index (ni_log n) \<le> log_last_index l' \<and> rl_snapshot_index l' = rl_snapshot_index (ni_log n)"
  proof (cases "r = Inr ()")
    case True
    have "wf_log ((ni_log n)\<lparr>rl_entries := rl_entries (ni_log n) @ [?e]\<rparr>)" using wf by (intro wf_log_append) simp_all
    then have "wf_log l'" using f True by (simp add: wf_log_def)
    then show ?thesis using f True wf by (simp add: log_last_index_wf)
  next
    case False
    then have "wf_log l' = wf_log (ni_log n)" "log_last_index l' = log_last_index (ni_log n)"
      using f by (simp_all add: wf_log_def log_last_index_def)
    then show ?thesis using wf f by simp
  qed
  then show ?thesis using assms(1) n' by (simp add: wf_node_def)
qed

lemma indices_note_own_match [simp]: "indices (note_own_match n) = indices n"
  by (simp add: note_own_match_def indices_def)

lemma wf_node_note_own_match [simp]: "wf_node (note_own_match n) = wf_node n"
  by (rule wf_node_indices) simp

lemma wf_node_become_leader: "wf_node n \<Longrightarrow> wf_node (become_leader_inner w n)"
proof -
  assume wf: "wf_node n"
  let ?n1 = "n\<lparr>ni_state := (ni_state n)\<lparr>rs_role := Leader, rs_leader_id := Some (node_id_of n)\<rparr>,
      ni_election_state := None,
      ni_leader_state := Some (leader_state_new (nc_peers (rn_config n)) (log_last_index (ni_log n)))\<rparr>"
  have "wf_node ?n1" using wf by (simp add: wf_node_def)
  then have "wf_node (snd (append_own w ?n1 [] Noop))" by (rule wf_node_append_own) (rule prod.collapse [symmetric])
  then show ?thesis by (simp add: become_leader_inner_def Let_def)
qed

lemma wf_node_try_advance:
  assumes wf: "wf_node n"
  shows "wf_node (try_advance_commit n)"
proof (cases "ni_leader_state n")
  case None
  then show ?thesis using wf by (simp add: try_advance_commit_def)
next
  case (Some leader)
  let ?C = "committable n (ls_match_index leader)"
  have fin: "finite ?C" by (simp add: committable_def)
  have "node_commit n \<le> node_commit (try_advance_commit n) \<and>
      node_commit (try_advance_commit n) \<le> log_last_index (ni_log n)"
  proof (cases "?C = {}")
    case True
    then show ?thesis using wf try_advance_commit_spec [OF Some] by (simp add: wf_node_def)
  next
    case False
    then have "Max ?C \<in> ?C" using fin by (rule Max_in [rotated])
    moreover have "log_get (ni_log n) (Max ?C) \<noteq> None" "node_commit n < Max ?C"
      using calculation by (auto simp: committable_def)
    ultimately show ?thesis
      using False wf try_advance_commit_spec [OF Some] log_get_defined [of "ni_log n" "Max ?C"]
      by (simp add: wf_node_def)
  qed
  then show ?thesis using wf by (simp add: wf_node_def try_advance_commit_other)
qed

text \<open>Handlers that leave log, commit index and applied index alone.\<close>

lemma indices_unchanged:
  "indices (snd (start_pre_vote n)) = indices n"
  "indices (snd (start_election w n)) = indices n"
  "indices (snd (handle_timeout_now w n m)) = indices n"
  "indices (snd (handle_vote_request w n r)) = indices n"
  "indices (snd (request_read_index n)) = indices n"
  "indices (snd (read_index_ack n peer)) = indices n"
  "indices (snd (take_read_index n i)) = indices n"
  "indices (snd (transfer_leadership w n t)) = indices n"
  "indices (snd (check_transfer_progress n)) = indices n"
  "indices (snd (check_transfer_timeout w n ms)) = indices n"
  by (simp_all add: indices_def start_pre_vote_def start_election_def handle_timeout_now_def
      handle_vote_request_def save_persistent_def request_read_index_def read_index_ack_def take_read_index_def
      transfer_leadership_def check_transfer_progress_def check_transfer_timeout_def Let_def case_prod_beta
      split: option.split)

lemma wf_node_vote_response: "wf_node n \<Longrightarrow> wf_node (snd (handle_vote_response w n peer r pre))"
proof -
  assume wf: "wf_node n"
  have "wf_node (n\<lparr>ni_election_state := e\<rparr>)" for e using wf by (simp add: wf_node_def)
  then show ?thesis
    using wf by (simp add: handle_vote_response_def Let_def case_prod_beta wf_node_become_leader split: option.split)
qed

lemma wf_node_append_response: "wf_node n \<Longrightarrow> wf_node (handle_append_response w n peer r)"
proof -
  assume wf: "wf_node n"
  have "wf_node (try_advance_commit (n\<lparr>ni_leader_state := l\<rparr>))" for l
    using wf by (intro wf_node_try_advance) (simp add: wf_node_def)
  then show ?thesis using wf by (simp add: handle_append_response_def Let_def split: option.split)
qed

lemma wf_node_appended:
  assumes "wf_node n"
  shows "wf_node (snd (case append_own w n d ty of (Inl e, n1) \<Rightarrow> (f e, n1) | (Inr _, n1) \<Rightarrow> (g, note_own_match n1)))"
proof -
  obtain r n1 where a: "append_own w n d ty = (r, n1)" by (cases "append_own w n d ty")
  then show ?thesis using wf_node_append_own [OF assms a] by (cases r) simp_all
qed

lemma wf_node_membership [simp]: "wf_node (n\<lparr>ni_membership := m\<rparr>) = wf_node n"
  by (simp add: wf_node_def)

lemma wf_node_propose: "wf_node n \<Longrightarrow> wf_node (snd (propose w n d))"
  by (simp add: propose_def wf_node_appended)

lemma wf_node_propose_config: "wf_node n \<Longrightarrow> wf_node (snd (propose_config_change w n c))"
proof -
  assume wf: "wf_node n"
  obtain r m where b: "begin_change (ni_membership n) c = (r, m)" by (cases "begin_change (ni_membership n) c")
  show ?thesis
    using wf by (cases r) (simp_all add: propose_config_change_def b Let_def wf_node_appended)
qed

lemma wf_node_apply_config: "wf_node n \<Longrightarrow> wf_node (snd (apply_config_change w n d))"
proof -
  assume wf: "wf_node n"
  have *: "wf_node (snd (append_own w (n\<lparr>ni_membership := m\<rparr>) x ConfigChange))" for m x
    using wf by (intro wf_node_append_own [OF _ prod.collapse [symmetric]]) simp
  show ?thesis
    using wf by (simp add: apply_config_change_def Let_def * split: sum.split prod.split option.split)
qed

lemma snapshot_compact [simp]: "rl_snapshot_index (log_compact l si st) = max si (rl_snapshot_index l)"
  by (simp add: log_compact_def Let_def)

lemma wf_node_trigger_snapshot: "wf_node n \<Longrightarrow> wf_node (snd (trigger_snapshot w n d))"
  by (auto simp: wf_node_def trigger_snapshot_def Let_def wf_log_compact last_index_compact
      split: prod.split sum.split)

lemma wf_node_compact:
  assumes "wf_node n" and "si > rl_snapshot_index (ni_log n)"
  shows "wf_node (n\<lparr>ni_log := log_compact (ni_log n) si st,
      ni_state := (ni_state n)\<lparr>rs_commit_index := max (node_commit n) si,
                              rs_last_applied := max (rs_last_applied (ni_state n)) si\<rparr>\<rparr>)"
  using assms by (auto simp: wf_node_def wf_log_compact last_index_compact)

lemma wf_node_install_snapshot: "wf_node n \<Longrightarrow> wf_node (snd (handle_install_snapshot w n t l m d))"
proof -
  assume wf: "wf_node n"
  define n1 where "n1 = (if t > node_term n then step_down_inner w n t else n)"
  have n2: "wf_node (n1\<lparr>ni_state := (ni_state n1)\<lparr>rs_role := Follower, rs_leader_id := Some l\<rparr>, rn_snapshots := dir\<rparr>)" for dir
    using wf by (simp add: wf_node_def n1_def)
  have n2': "wf_node (n1\<lparr>ni_state := (ni_state n1)\<lparr>rs_role := Follower, rs_leader_id := Some l\<rparr>\<rparr>)"
    using wf by (simp add: wf_node_def n1_def)
  note c = wf_node_compact [OF n2, of _ "sm_last_included_index m" "sm_last_included_term m"]
  show ?thesis
    unfolding handle_install_snapshot_def n1_def [symmetric] Let_def
    using wf n2 n2' c wf_node_compact [OF n2', of "sm_last_included_index m" "sm_last_included_term m"]
    by (auto split: prod.split simp: not_le)
qed

lemma wf_node_take_committed: "wf_node n \<Longrightarrow> wf_node (snd (take_committed_entries n))"
  by (auto simp: wf_node_def take_committed_entries_def take_committed_loop_spec)

text \<open>A request is acceptable to a follower if it is well formed and contradicts nothing committed.\<close>

definition respects_commit :: "raft_node \<Rightarrow> append_request \<Rightarrow> bool" where
  "respects_commit n r \<longleftrightarrow> wf_append_request n r \<and>
     (\<forall>e \<in> set (aq_entries r). e_index e \<le> node_commit n \<longrightarrow> has_entry (ni_log n) e)"

lemma matching_ge_committed:
  assumes "contiguous p es" and "\<forall>e \<in> set es. e_index e \<le> c \<longrightarrow> has_entry l e" and "matching l es < length es"
  shows "c \<le> p + matching l es"
proof -
  have "\<not> has_entry l (es ! matching l es)"
    using assms(3) unfolding matching_def by (rule nth_length_takeWhile)
  moreover have "e_index (es ! matching l es) = Suc (p + matching l es)"
    using assms(1,3) by (rule contiguous_nth)
  ultimately show ?thesis using assms(2,3) by (metis not_less_eq_eq nth_mem)
qed

lemma store_entries_wf:
  assumes "wf_log l" and "contiguous p es" and "rl_snapshot_index l \<le> p" and "p \<le> log_last_index l"
    and "\<forall>e \<in> set es. e_index e \<le> c \<longrightarrow> has_entry l e" and "c \<le> log_last_index l"
  shows "wf_log (store_entries w l es) \<and> c \<le> log_last_index (store_entries w l es)"
proof (cases "matching l es = length es")
  case True
  then show ?thesis using assms(1,6) by (simp add: store_entries_def merge_entries_reference [OF assms(1-4)])
next
  case False
  let ?k = "matching l es" and ?t = "log_truncate_after l (p + matching l es)"
  have k: "?k < length es" using False matching_le [of l es] by simp
  obtain r l' where ap: "log_append (ev_crc w) (ev_wal_ok w) ?t (drop ?k es) = (r, l')"
    by (cases "log_append (ev_crc w) (ev_wal_ok w) ?t (drop ?k es)")
  have l': "store_entries w l es = l'"
    using k ap by (simp add: store_entries_def merge_entries_reference [OF assms(1-4)])
  note f = log_append_fields [OF ap]
  have last: "log_last_index ?t = p + ?k"
    using assms(1,3) has_entry_last [OF assms(1,2,4)] by (intro last_index_truncate) auto
  have "contiguous (p + ?k) (drop ?k es)" using assms(2) k by (intro contiguous_drop) auto
  then have "wf_log (?t\<lparr>rl_entries := rl_entries ?t @ drop ?k es\<rparr>)"
    using assms(1) last by (intro wf_log_append) simp_all
  then have wf: "wf_log l'" using f assms(1) by (cases "r = Inr ()") (simp_all add: wf_log_def log_truncate_after_def contiguous_take)
  have "log_last_index ?t \<le> log_last_index l'"
    using log_last_index_wf [OF wf] log_last_index_wf [OF wf_log_truncate, OF assms(1)] f by simp
  then show ?thesis using matching_ge_committed [OF assms(2,5) k] wf l' last by simp
qed

lemma wf_node_append_entries:
  assumes wf: "wf_node n" and r: "respects_commit n r"
  shows "wf_node (snd (handle_append_entries w n r))"
proof -
  obtain resp n' where h: "handle_append_entries w n r = (resp, n')" by (cases "handle_append_entries w n r")
  note f = append_entries_fields [OF h]
  show ?thesis
  proof (cases "node_term n \<le> aq_term r \<and> prev_matches n r")
    case True
    have wfl: "wf_log (ni_log n)" and wr: "wf_append_request n r"
      using wf r by (simp_all add: wf_node_def respects_commit_def)
    have c: "contiguous (aq_prev_log_index r) (aq_entries r)" using wr by (simp add: wf_append_request_def)
    note b = prev_matches_bounds [OF wfl wr conjunct2 [OF True]]
    from store_entries_wf [OF wfl c b, of "node_commit n" w] wf r
    have s: "wf_log (store_entries w (ni_log n) (aq_entries r))"
      "node_commit n \<le> log_last_index (store_entries w (ni_log n) (aq_entries r))"
      by (simp_all add: wf_node_def respects_commit_def)
    show ?thesis
      using wf True f s store_entries_snapshot [OF wfl c b, of w] h by (auto simp: wf_node_def)
  next
    case False
    then have "indices n' = indices n" using f(1-3) by (auto simp: indices_def)
    from wf_node_indices [OF this] show ?thesis using wf h by simp
  qed
qed

definition acceptable_op :: "raft_node \<Rightarrow> node_op \<Rightarrow> bool" where
  "acceptable_op n op = (case op of OpAppendEntries r \<Rightarrow> respects_commit n r | _ \<Rightarrow> True)"





end
