(* ===== verification/Cluster.thy ===== *)
theory Cluster
  imports Node_Log
begin

text \<open>
  Elections in a cluster of nodes (\<open>raft-consensus/src/node.rs\<close> driven as in \<open>raft-server/src/server.rs\<close>):
  a step relation in which any node may run any handler at any time, vote requests and responses are
  delayed, reordered, duplicated or lost, and nodes crash and restart from their files. Two history
  variables record every vote a node ever held and every term in which it ever led.
\<close>

section \<open>Cluster states\<close>

record cluster =
  cl_nodes :: "node_id \<Rightarrow> raft_node"
  cl_requests :: "(node_id \<times> vote_request) set"
  cl_responses :: "(node_id \<times> vote_request \<times> vote_response) set"
  cl_votes :: "(node_id \<times> raft_term \<times> node_id) set"
  cl_leaders :: "(node_id \<times> raft_term) set"

text \<open>A response is kept with the node that sent it and the request it answers; it goes to the
  candidate named in the request.\<close>

definition held_votes :: "node_id \<Rightarrow> raft_node \<Rightarrow> (node_id \<times> raft_term \<times> node_id) set" where
  "held_votes i n = (case node_vote n of None \<Rightarrow> {} | Some v \<Rightarrow> {(i, node_term n, v)})"

definition put_node :: "cluster \<Rightarrow> node_id \<Rightarrow> raft_node \<Rightarrow> cluster" where
  "put_node c i n =
     c\<lparr>cl_nodes := (cl_nodes c)(i := n),
       cl_votes := cl_votes c \<union> held_votes i n,
       cl_leaders := cl_leaders c \<union> (if node_role n = Leader then {(i, node_term n)} else {})\<rparr>"

text \<open>The discipline under which responses are handed to \<open>handle_vote_response\<close>: one that would be
  counted is delivered only while the election that asked for it is still running.\<close>

definition current_election :: "raft_node \<Rightarrow> vote_request \<Rightarrow> bool" where
  "current_election n r =
     (if vq_is_pre_vote r then node_role n = PreCandidate
      else node_role n = Candidate \<and> node_term n = vq_term r)"

definition counted :: "raft_node \<Rightarrow> vote_response \<Rightarrow> bool" where
  "counted n resp \<longleftrightarrow> vp_vote_granted resp \<and> vp_term resp \<le> node_term n"

fun election_op :: "node_op \<Rightarrow> bool" where
  "election_op OpStartPreVote = True"
| "election_op OpStartElection = True"
| "election_op (OpVoteResponse _ _ _) = True"
| "election_op (OpVoteRequest _) = True"
| "election_op (OpTimeoutNow _) = True"
| "election_op _ = False"

abbreviation env_ok :: "(persistent_state \<Rightarrow> bytes) \<Rightarrow> (bytes \<Rightarrow> persistent_state option) \<Rightarrow> node_env \<Rightarrow> bool" where
  "env_ok enc dec w \<equiv> saves_ok w \<and> ev_enc_state w = enc \<and> ev_dec_state w = dec"

inductive cluster_step ::
  "(persistent_state \<Rightarrow> bytes) \<Rightarrow> (bytes \<Rightarrow> persistent_state option) \<Rightarrow> node_id list \<Rightarrow> cluster \<Rightarrow> cluster \<Rightarrow> bool"
  for enc dec ms where
  pre_vote: "i \<in> set ms \<Longrightarrow> start_pre_vote (cl_nodes c i) = (reqs, n') \<Longrightarrow>
    cluster_step enc dec ms c ((put_node c i n')\<lparr>cl_requests := cl_requests c \<union> set reqs\<rparr>)"
| campaign: "i \<in> set ms \<Longrightarrow> env_ok enc dec w \<Longrightarrow> start_election w (cl_nodes c i) = (reqs, n') \<Longrightarrow>
    cluster_step enc dec ms c ((put_node c i n')\<lparr>cl_requests := cl_requests c \<union> set reqs\<rparr>)"
| timeout_now: "i \<in> set ms \<Longrightarrow> env_ok enc dec w \<Longrightarrow> handle_timeout_now w (cl_nodes c i) m = (reqs, n') \<Longrightarrow>
    cluster_step enc dec ms c ((put_node c i n')\<lparr>cl_requests := cl_requests c \<union> set reqs\<rparr>)"
| vote_request: "(i, r) \<in> cl_requests c \<Longrightarrow> i \<in> set ms \<Longrightarrow> env_ok enc dec w \<Longrightarrow>
    handle_vote_request w (cl_nodes c i) r = (resp, n') \<Longrightarrow>
    cluster_step enc dec ms c ((put_node c i n')\<lparr>cl_responses := insert (i, r, resp) (cl_responses c)\<rparr>)"
| vote_response: "(j, r, resp) \<in> cl_responses c \<Longrightarrow> i = vq_candidate_id r \<Longrightarrow> i \<in> set ms \<Longrightarrow> env_ok enc dec w \<Longrightarrow>
    counted (cl_nodes c i) resp \<longrightarrow> current_election (cl_nodes c i) r \<Longrightarrow>
    handle_vote_response w (cl_nodes c i) j resp (vq_is_pre_vote r) = (won, n') \<Longrightarrow>
    cluster_step enc dec ms c (put_node c i n')"
| other: "i \<in> set ms \<Longrightarrow> env_ok enc dec w \<Longrightarrow> \<not> election_op op \<Longrightarrow>
    cluster_step enc dec ms c (put_node c i (node_step w (cl_nodes c i) op))"
| restart: "i \<in> set ms \<Longrightarrow> ev_dec_state w = dec \<Longrightarrow>
    node_new w (rn_config (cl_nodes c i)) (rn_files (cl_nodes c i)) wal dir = Some (Inr n') \<Longrightarrow>
    cluster_step enc dec ms c (put_node c i n')"

inductive reachable ::
  "(persistent_state \<Rightarrow> bytes) \<Rightarrow> (bytes \<Rightarrow> persistent_state option) \<Rightarrow> node_id list \<Rightarrow> cluster \<Rightarrow> cluster \<Rightarrow> bool"
  for enc dec ms where
  reach_refl: "reachable enc dec ms c c"
| reach_step: "reachable enc dec ms c c1 \<Longrightarrow> cluster_step enc dec ms c1 c2 \<Longrightarrow> reachable enc dec ms c c2"

section \<open>Invariant\<close>

definition elected :: "node_id list \<Rightarrow> (node_id \<times> raft_term \<times> node_id) set \<Rightarrow> node_id \<Rightarrow> raft_term \<Rightarrow> bool" where
  "elected ms votes i t \<longleftrightarrow> (\<exists>S. election_quorum ms S \<and> (\<forall>p \<in> S. (p, t, i) \<in> votes))"

text \<open>What the election state of a candidate and the role of a leader rest on.\<close>

definition supported :: "node_id list \<Rightarrow> (node_id \<times> raft_term \<times> node_id) set \<Rightarrow> node_id \<Rightarrow> raft_node \<Rightarrow> bool" where
  "supported ms votes i n \<longleftrightarrow>
     (node_role n = Candidate \<longrightarrow>
        (\<exists>e. ni_election_state n = Some e \<and> es_votes_needed e = length ms div 2 + 1 \<and>
             es_votes_received e \<subseteq> set ms \<and> (\<forall>p \<in> es_votes_received e. (p, node_term n, i) \<in> votes))) \<and>
     (node_role n = Leader \<longrightarrow> elected ms votes i (node_term n))"

definition node_ok :: "(bytes \<Rightarrow> persistent_state option) \<Rightarrow> node_id list \<Rightarrow> cluster \<Rightarrow> node_id \<Rightarrow> bool" where
  "node_ok dec ms c i \<longleftrightarrow>
     (let n = cl_nodes c i
      in node_id_of n = i \<and> length (nc_peers (rn_config n)) + 1 = length ms \<and> saved dec n \<and>
         (\<forall>t v. (i, t, v) \<in> cl_votes c \<longrightarrow>
            vote_order \<lparr>ps_current_term = t, ps_voted_for = Some v\<rparr> (rs_persistent (ni_state n))) \<and>
         supported ms (cl_votes c) i n)"

definition votes_unique :: "(node_id \<times> raft_term \<times> node_id) set \<Rightarrow> bool" where
  "votes_unique V \<longleftrightarrow> (\<forall>p t v v'. (p, t, v) \<in> V \<longrightarrow> (p, t, v') \<in> V \<longrightarrow> v = v')"

definition response_ok ::
  "node_id list \<Rightarrow> (node_id \<times> raft_term \<times> node_id) set \<Rightarrow> node_id \<times> vote_request \<times> vote_response \<Rightarrow> bool" where
  "response_ok ms V = (\<lambda>(j, r, resp). vp_vote_granted resp \<and> \<not> vq_is_pre_vote r \<longrightarrow>
     j \<in> set ms \<and> (j, vq_term r, vq_candidate_id r) \<in> V)"

definition cluster_inv :: "(bytes \<Rightarrow> persistent_state option) \<Rightarrow> node_id list \<Rightarrow> cluster \<Rightarrow> bool" where
  "cluster_inv dec ms c \<longleftrightarrow> distinct ms \<and> (\<forall>i \<in> set ms. node_ok dec ms c i) \<and> votes_unique (cl_votes c) \<and>
     (\<forall>m \<in> cl_responses c. response_ok ms (cl_votes c) m) \<and>
     (\<forall>i t. (i, t) \<in> cl_leaders c \<longrightarrow> elected ms (cl_votes c) i t)"

lemma response_ok_mono: "response_ok ms V m \<Longrightarrow> V \<subseteq> V' \<Longrightarrow> response_ok ms V' m"
  unfolding response_ok_def by (auto split: prod.splits)

lemma elected_mono: "elected ms V i t \<Longrightarrow> V \<subseteq> V' \<Longrightarrow> elected ms V' i t"
  unfolding elected_def by blast

lemma supported_mono: "supported ms V i n \<Longrightarrow> V \<subseteq> V' \<Longrightarrow> supported ms V' i n"
  unfolding supported_def by (blast intro: elected_mono)

lemma put_node_simps [simp]:
  "cl_nodes (put_node c i n) = (cl_nodes c)(i := n)" "cl_responses (put_node c i n) = cl_responses c"
  "cl_requests (put_node c i n) = cl_requests c"
  "cl_votes (put_node c i n) = cl_votes c \<union> held_votes i n"
  by (simp_all add: put_node_def)

lemma held_votes_iff: "(p, t, v) \<in> held_votes i n \<longleftrightarrow> p = i \<and> t = node_term n \<and> node_vote n = Some v"
  by (auto simp: held_votes_def split: option.splits)

lemma inv_put_node:
  assumes inv: "cluster_inv dec ms c" and i: "i \<in> set ms"
    and vo: "vote_order (rs_persistent (ni_state (cl_nodes c i))) (rs_persistent (ni_state n'))"
    and sv: "saved dec n'" and cf: "rn_config n' = rn_config (cl_nodes c i)"
    and sup: "supported ms (cl_votes c \<union> held_votes i n') i n'"
    and resp: "\<forall>m \<in> R. response_ok ms (cl_votes c \<union> held_votes i n') m"
  shows "cluster_inv dec ms ((put_node c i n')\<lparr>cl_responses := cl_responses c \<union> R, cl_requests := Q\<rparr>)"
    (is "cluster_inv dec ms ?c'")
proof -
  let ?V = "cl_votes c \<union> held_votes i n'"
  have c': "cl_votes ?c' = ?V" "cl_nodes ?c' = (cl_nodes c)(i := n')" "cl_responses ?c' = cl_responses c \<union> R"
    "cl_leaders ?c' = cl_leaders c \<union> (if node_role n' = Leader then {(i, node_term n')} else {})"
    by (simp_all add: put_node_def)
  have ci: "distinct ms" "\<forall>i \<in> set ms. node_ok dec ms c i" "votes_unique (cl_votes c)"
    "\<forall>m \<in> cl_responses c. response_ok ms (cl_votes c) m"
    "\<forall>i t. (i, t) \<in> cl_leaders c \<longrightarrow> elected ms (cl_votes c) i t"
    using inv by (simp_all add: cluster_inv_def)
  have old: "node_ok dec ms c j" if "j \<in> set ms" for j using ci(2) that by blast
  have order: "vote_order \<lparr>ps_current_term = t, ps_voted_for = Some v\<rparr> (rs_persistent (ni_state n'))"
    if "(i, t, v) \<in> ?V" for t v
  proof (cases "(i, t, v) \<in> cl_votes c")
    case True
    then have "vote_order \<lparr>ps_current_term = t, ps_voted_for = Some v\<rparr> (rs_persistent (ni_state (cl_nodes c i)))"
      using old [OF i] by (simp add: node_ok_def Let_def)
    then show ?thesis using vo by (rule vote_order_trans)
  next
    case False
    then show ?thesis using that by (simp add: held_votes_iff vote_order_def)
  qed
  have "node_ok dec ms ?c' j" if "j \<in> set ms" for j
  proof (cases "j = i")
    case True
    then show ?thesis
      unfolding node_ok_def c' using old [OF i] order sv cf sup by (simp add: node_ok_def Let_def)
  next
    case False
    have "supported ms (cl_votes c) j (cl_nodes c j)" using old [OF that] by (simp add: node_ok_def Let_def)
    then have "supported ms ?V j (cl_nodes c j)" by (rule supported_mono) blast
    then show ?thesis
      unfolding node_ok_def c' using False old [OF that] by (simp add: node_ok_def Let_def held_votes_iff)
  qed
  moreover have "votes_unique ?V"
    unfolding votes_unique_def
  proof (intro allI impI)
    fix p t v v'
    assume vs: "(p, t, v) \<in> ?V" "(p, t, v') \<in> ?V"
    show "v = v'"
    proof (cases "p = i \<and> t = node_term n'")
      case True
      then have "node_vote n' = Some v" "node_vote n' = Some v'"
        using order [of t v] order [of t v'] vs by (simp_all add: vote_order_def)
      then show ?thesis by simp
    next
      case False
      then have "(p, t, v) \<in> cl_votes c" "(p, t, v') \<in> cl_votes c" using vs by (auto simp: held_votes_iff)
      then show ?thesis using ci(3) unfolding votes_unique_def by blast
    qed
  qed
  moreover have "\<forall>m \<in> cl_responses c \<union> R. response_ok ms ?V m"
    using ci(4) resp response_ok_mono [of ms "cl_votes c" _ ?V] by blast
  moreover have "elected ms ?V j t" if "(j, t) \<in> cl_leaders ?c'" for j t
  proof (cases "(j, t) \<in> cl_leaders c")
    case True
    then have "elected ms (cl_votes c) j t" using ci(5) by blast
    then show ?thesis by (rule elected_mono) blast
  next
    case False
    then have "node_role n' = Leader" "j = i" "t = node_term n'" using that by (auto simp: c'(4) split: if_splits)
    then show ?thesis using sup by (simp add: supported_def)
  qed
  ultimately show ?thesis unfolding cluster_inv_def c'(1,3) using ci(1) by simp
qed

section \<open>Every step keeps the invariant\<close>

lemma supported_quiet:
  assumes "supported ms V i n" and "V \<subseteq> V'"
    and "node_role n' \<noteq> Candidate \<and> node_role n' \<noteq> Leader \<or>
         node_role n' = node_role n \<and> node_term n' = node_term n \<and> ni_election_state n' = ni_election_state n"
  shows "supported ms V' i n'"
  using supported_mono [OF assms(1,2)] assms(3) unfolding supported_def by auto

lemma quiet_op:
  assumes "\<not> election_op op"
  shows "view (node_step w n op) = view n \<or> node_role (node_step w n op) = Follower"
proof -
  have role: "node_role m = ev_role (view m)" for m by (simp add: view_def)
  show ?thesis
    using assms unfolding role by (cases op) (simp_all add: step_views view_step_down Let_def)
qed

lemma quiet_config: "rn_config (node_step w n op) = rn_config n"
proof -
  have conf: "rn_config m = ev_conf (view m)" for m by (simp add: view_def)
  show ?thesis
  proof (cases op)
    case (OpVoteRequest r)
    then show ?thesis by (simp add: conf view_vote_request Let_def view_step_down)
  next
    case (OpVoteResponse p r pre)
    then show ?thesis
      by (simp add: conf view_vote_response Let_def view_step_down case_prod_beta split: option.split)
  qed (simp_all add: conf step_views view_step_down Let_def)
qed

lemma node_okD:
  assumes "cluster_inv dec ms c" and "i \<in> set ms"
  shows "node_id_of (cl_nodes c i) = i" "length (nc_peers (rn_config (cl_nodes c i))) + 1 = length ms"
    "saved dec (cl_nodes c i)" "supported ms (cl_votes c) i (cl_nodes c i)"
  using assms by (auto simp: cluster_inv_def node_ok_def Let_def)

text \<open>One handler call: with votes and files in order, only support of the new role is left to show.\<close>

lemma inv_node_step:
  assumes "cluster_inv dec ms c" and "i \<in> set ms" and "env_ok enc dec w"
    and "n' = node_step w (cl_nodes c i) op"
    and "supported ms (cl_votes c \<union> held_votes i n') i n'"
    and "\<forall>m \<in> R. response_ok ms (cl_votes c \<union> held_votes i n') m"
  shows "cluster_inv dec ms ((put_node c i n')\<lparr>cl_responses := cl_responses c \<union> R, cl_requests := Q\<rparr>)"
  using assms node_okD(3) [OF assms(1,2)] saved_step [of w "cl_nodes c i" op]
  by (intro inv_put_node) (simp_all add: vote_order_step quiet_config)

lemma role_view: "node_role n = ev_role (view n)" "ni_election_state n = ev_elec (view n)" "rn_config n = ev_conf (view n)"
  by (simp_all add: view_def)

lemma supported_start_election:
  assumes "node_id_of n = i" and "length (nc_peers (rn_config n)) + 1 = length ms" and "i \<in> set ms"
    and n': "n' = snd (start_election w n)"
  shows "supported ms (V \<union> held_votes i n') i n'"
proof -
  have v: "view n' = \<lparr>ev_pers = \<lparr>ps_current_term = node_term n + 1, ps_voted_for = Some i\<rparr>, ev_role = Candidate,
      ev_elec = Some (self_election n), ev_conf = rn_config n,
      ev_files = saved_files w 0 n \<lparr>ps_current_term = node_term n + 1, ps_voted_for = Some i\<rparr>\<rparr>"
    using view_start_election [of w n] assms(1) n' by (simp add: Let_def)
  have p: "rs_persistent (ni_state n') = \<lparr>ps_current_term = node_term n + 1, ps_voted_for = Some i\<rparr>"
    "node_role n' = Candidate" "ni_election_state n' = Some (self_election n)"
    using v by (simp_all add: view_def)
  then show ?thesis using assms(1-3) by (simp add: supported_def held_votes_iff)
qed

lemma supported_vote_response:
  assumes sup: "supported ms V i n" and ok: "response_ok ms V (j, r, resp)" and i: "i = vq_candidate_id r"
    and cur: "counted n resp \<longrightarrow> current_election n r"
    and n': "n' = snd (handle_vote_response w n j resp (vq_is_pre_vote r))"
  shows "supported ms (V \<union> held_votes i n') i n'"
proof (cases "counted n resp \<and> ni_election_state n \<noteq> None")
  case False
  have "view n' = view n \<or> ev_role (view n') = Follower"
    unfolding n' view_vote_response using False by (auto simp: counted_def view_step_down Let_def)
  then show ?thesis by (intro supported_quiet [OF sup]) (auto simp: view_def)
next
  case True
  then obtain e where e: "ni_election_state n = Some e" by blast
  define e' where "e' = e\<lparr>es_votes_received := insert j (es_votes_received e)\<rparr>"
  have v: "view n' = (if election_has_quorum e' \<and> \<not> vq_is_pre_vote r then (view n)\<lparr>ev_role := Leader, ev_elec := None\<rparr>
      else (view n)\<lparr>ev_elec := Some e'\<rparr>)"
    unfolding n' view_vote_response using True e by (auto simp: counted_def record_vote_def Let_def e'_def)
  show ?thesis
  proof (cases "vq_is_pre_vote r")
    case True
    then have "node_role n' = PreCandidate"
      using v cur \<open>counted n resp \<and> _\<close> by (auto simp: current_election_def role_view)
    then show ?thesis by (simp add: supported_def)
  next
    case False
    then have c: "node_role n = Candidate" "node_term n = vq_term r"
      using cur True by (simp_all add: current_election_def)
    have j: "j \<in> set ms" "(j, node_term n, i) \<in> V"
      using ok False True c i by (simp_all add: response_ok_def counted_def)
    have ev: "es_votes_needed e' = length ms div 2 + 1" "es_votes_received e' \<subseteq> set ms"
      "\<forall>p \<in> es_votes_received e'. (p, node_term n, i) \<in> V"
      using sup c e j by (simp_all add: supported_def e'_def)
    have t: "node_term n' = node_term n" using v by (simp add: pers_view split: if_splits)
    show ?thesis
    proof (cases "election_has_quorum e'")
      case True
      then have "election_quorum ms (es_votes_received e')"
        using ev by (simp add: election_quorum_def election_has_quorum_def election_state_new_def)
      then have "elected ms (V \<union> held_votes i n') i (node_term n')"
        using ev(3) t unfolding elected_def by auto
      moreover have "node_role n' = Leader" using v True False by (simp add: role_view)
      ultimately show ?thesis by (simp add: supported_def)
    next
      case False
      then have "node_role n' = Candidate" "ni_election_state n' = Some e'" using v c by (simp_all add: role_view)
      then show ?thesis using ev t by (auto simp: supported_def)
    qed
  qed
qed

lemma supported_vote_request:
  assumes "supported ms V i n" and "n' = snd (handle_vote_request w n r)"
  shows "supported ms (V \<union> held_votes i n') i n'"
proof (rule supported_quiet [OF assms(1)])
  have "ev_role (view n') = Follower \<or>
      ev_role (view n') = ev_role (view n) \<and> ev_elec (view n') = ev_elec (view n) \<and>
      ps_current_term (ev_pers (view n')) = ps_current_term (ev_pers (view n))"
    unfolding assms(2) view_vote_request by (auto simp: Let_def view_step_down pers_view)
  then show "node_role n' \<noteq> Candidate \<and> node_role n' \<noteq> Leader \<or>
      node_role n' = node_role n \<and> node_term n' = node_term n \<and> ni_election_state n' = ni_election_state n"
    by (auto simp: role_view pers_view)
qed simp

lemma granted_response_ok:
  assumes "handle_vote_request w n r = (resp, n')" and "i \<in> set ms"
  shows "response_ok ms (V \<union> held_votes i n') (i, r, resp)"
proof -
  have "(i, vq_term r, vq_candidate_id r) \<in> held_votes i n'" if "vp_vote_granted resp" "\<not> vq_is_pre_vote r"
    using granted_vote_state [OF that(2), of w n] assms(1) that(1) by (simp add: held_votes_iff)
  then show ?thesis using assms(2) by (simp add: response_ok_def)
qed

lemma put_node_as_update:
  "put_node c i n = (put_node c i n)\<lparr>cl_responses := cl_responses c \<union> {}, cl_requests := cl_requests c\<rparr>"
  "(put_node c i n)\<lparr>cl_requests := Q\<rparr> = (put_node c i n)\<lparr>cl_responses := cl_responses c \<union> {}, cl_requests := Q\<rparr>"
  "(put_node c i n)\<lparr>cl_responses := insert m (cl_responses c)\<rparr> =
     (put_node c i n)\<lparr>cl_responses := cl_responses c \<union> {m}, cl_requests := cl_requests c\<rparr>"
  by (simp_all add: put_node_def)

lemma cluster_inv_step:
  assumes "cluster_step enc dec ms c c'" and inv: "cluster_inv dec ms c"
  shows "cluster_inv dec ms c'"
  using assms(1)
proof cases
  case (pre_vote i reqs n')
  note ok = node_okD [OF inv pre_vote(2)]
  have n': "n' = snd (start_pre_vote (cl_nodes c i))" using pre_vote(3) by simp
  have v: "view n' = (view (cl_nodes c i))\<lparr>ev_role := PreCandidate, ev_elec := Some (self_election (cl_nodes c i))\<rparr>"
    unfolding n' by (rule view_start_pre_vote)
  have s: "saved dec n'" "node_role n' = PreCandidate" "rn_config n' = rn_config (cl_nodes c i)"
    using ok(3) v by (simp_all add: saved_iff_view role_view)
  show ?thesis
    unfolding pre_vote(1) put_node_as_update(2)
    using s v by (intro inv_put_node [OF inv pre_vote(2)]) (simp_all add: pers_view supported_def)
next
  case (campaign i w reqs n')
  note ok = node_okD [OF inv campaign(2)]
  have n': "n' = node_step w (cl_nodes c i) OpStartElection" using campaign(4) by simp
  show ?thesis
    unfolding campaign(1) put_node_as_update(2)
  proof (rule inv_node_step [OF inv campaign(2,3) n'])
    show "supported ms (cl_votes c \<union> held_votes i n') i n'"
      using n' by (intro supported_start_election [OF ok(1,2) campaign(2)]) simp
  qed simp
next
  case (timeout_now i w m reqs n')
  note ok = node_okD [OF inv timeout_now(2)]
  have n': "n' = node_step w (cl_nodes c i) (OpTimeoutNow m)" using timeout_now(4) by simp
  have "supported ms (cl_votes c \<union> held_votes i n') i n'"
  proof (cases "tn_term m < node_term (cl_nodes c i)")
    case True
    then have "n' = cl_nodes c i" using timeout_now(4) by (simp add: handle_timeout_now_def)
    then show ?thesis using supported_mono [OF ok(4)] by simp
  next
    case False
    then have "n' = snd (start_election w (cl_nodes c i))" using timeout_now(4) by (simp add: handle_timeout_now_def)
    then show ?thesis by (rule supported_start_election [OF ok(1,2) timeout_now(2)])
  qed
  then show ?thesis
    unfolding timeout_now(1) put_node_as_update(2)
    by (intro inv_node_step [OF inv timeout_now(2,3) n']) simp_all
next
  case (vote_request i r w resp n')
  note ok = node_okD [OF inv vote_request(3)]
  have n': "n' = node_step w (cl_nodes c i) (OpVoteRequest r)" using vote_request(5) by simp
  show ?thesis
    unfolding vote_request(1) put_node_as_update(3)
  proof (rule inv_node_step [OF inv vote_request(3,4) n'])
    show "supported ms (cl_votes c \<union> held_votes i n') i n'"
      using n' by (intro supported_vote_request [OF ok(4)]) simp
    show "\<forall>m \<in> {(i, r, resp)}. response_ok ms (cl_votes c \<union> held_votes i n') m"
      using granted_response_ok [OF vote_request(5,3)] by simp
  qed
next
  case (vote_response j r resp i w won n')
  note ok = node_okD [OF inv vote_response(4)]
  have n': "n' = node_step w (cl_nodes c i) (OpVoteResponse j resp (vq_is_pre_vote r))" using vote_response(7) by simp
  have "response_ok ms (cl_votes c) (j, r, resp)" using inv vote_response(2) by (auto simp: cluster_inv_def)
  then have sup: "supported ms (cl_votes c \<union> held_votes i n') i n'"
    using n' by (intro supported_vote_response [OF ok(4) _ vote_response(3,6)]) simp_all
  show ?thesis
    unfolding vote_response(1)
    by (subst put_node_as_update(1), rule inv_node_step [OF inv vote_response(4,5) n' sup]) simp
next
  case (other i w op)
  note ok = node_okD [OF inv other(2)]
  let ?n' = "node_step w (cl_nodes c i) op"
  have "supported ms (cl_votes c \<union> held_votes i ?n') i ?n'"
    using quiet_op [OF other(4), of w "cl_nodes c i"] by (intro supported_quiet [OF ok(4)]) (auto simp: view_def)
  then show ?thesis
    unfolding other(1) by (subst put_node_as_update(1), intro inv_node_step [OF inv other(2,3) refl]) simp_all
next
  case (restart i w wal dir n')
  note ok = node_okD [OF inv restart(2)] and v = node_new_fields [OF restart(4)]
  have "rs_persistent (ni_state n') = rs_persistent (ni_state (cl_nodes c i))"
    using ok(3) v restart(3) by (simp add: pers_view saved_def)
  moreover have "saved dec n'" using v restart(3) by (simp add: saved_iff_view saved_view_def)
  ultimately show ?thesis
    unfolding restart(1) using v
    by (subst put_node_as_update(1), intro inv_put_node [OF inv restart(2)]) (simp_all add: role_view supported_def)
qed

section \<open>Election safety\<close>

definition cluster_start :: "(bytes \<Rightarrow> persistent_state option) \<Rightarrow> node_id list \<Rightarrow> cluster \<Rightarrow> bool" where
  "cluster_start dec ms c \<longleftrightarrow> distinct ms \<and>
     cl_requests c = {} \<and> cl_responses c = {} \<and> cl_votes c = {} \<and> cl_leaders c = {} \<and>
     (\<forall>i \<in> set ms. node_id_of (cl_nodes c i) = i \<and> length (nc_peers (rn_config (cl_nodes c i))) + 1 = length ms \<and>
        saved dec (cl_nodes c i) \<and> node_role (cl_nodes c i) = Follower)"

lemma cluster_inv_start: "cluster_start dec ms c \<Longrightarrow> cluster_inv dec ms c"
  by (simp add: cluster_start_def cluster_inv_def node_ok_def Let_def supported_def votes_unique_def)

lemma cluster_inv_reachable:
  "reachable enc dec ms c c' \<Longrightarrow> cluster_inv dec ms c \<Longrightarrow> cluster_inv dec ms c'"
  by (induction rule: reachable.induct) (auto intro: cluster_inv_step)

lemma elected_unique:
  assumes "distinct ms" and "votes_unique V" and "elected ms V i t" and "elected ms V j t"
  shows "i = j"
proof -
  obtain A B where "election_quorum ms A" "election_quorum ms B"
    and "\<And>p. p \<in> A \<Longrightarrow> (p, t, i) \<in> V" "\<And>p. p \<in> B \<Longrightarrow> (p, t, j) \<in> V"
    using assms(3,4) unfolding elected_def by blast
  then show ?thesis
    using elections.unique_choice [OF assms(1), of A B "\<lambda>p x. (p, t, x) \<in> V" i j] assms(2)
    unfolding votes_unique_def by blast
qed


definition demo_cluster :: cluster where
  "demo_cluster = \<lparr>cl_nodes = (\<lambda>i. demo_node i (remove1 i [1, 2, 3])), cl_requests = {}, cl_responses = {},
     cl_votes = {}, cl_leaders = {}\<rparr>"

text \<open>What the election handlers return for nodes whose logs are empty.\<close>

abbreviation empty_log :: "raft_node \<Rightarrow> bool" where
  "empty_log n \<equiv> log_last_index (ni_log n) = 0 \<and> log_last_term (ni_log n) = 0"

lemma start_election_demo:
  assumes "empty_log n"
  shows "fst (start_election w n) = map (\<lambda>p. (p, demo_vote (node_term n + 1) (node_id_of n))) (nc_peers (rn_config n))"
    and "empty_log (snd (start_election w n))"
    and "node_term (snd (start_election w n)) = node_term n + 1"
    and "node_role (snd (start_election w n)) = Candidate"
    and "ni_election_state (snd (start_election w n)) = Some (self_election n)"
    and "rn_config (snd (start_election w n)) = rn_config n"
  using assms by (simp_all add: start_election_def save_persistent_def vote_request_of_def Let_def self_election_def cluster_size_def)

lemma vote_request_demo:
  assumes "empty_log n" and "node_term n < t"
  shows "fst (handle_vote_request w n (demo_vote t v)) = \<lparr>vp_term = t, vp_vote_granted = True\<rparr>"
    and "empty_log (snd (handle_vote_request w n (demo_vote t v)))"
    and "node_term (snd (handle_vote_request w n (demo_vote t v))) = t"
    and "rn_config (snd (handle_vote_request w n (demo_vote t v))) = rn_config n"
  using assms by (simp_all add: handle_vote_request_def Let_def should_grant_vote_iff save_persistent_def)

lemma vote_response_demo:
  assumes "ni_election_state n = Some e" and "t \<le> node_term n"
    and "es_votes_received e = {node_id_of n}" and "es_votes_needed e = 2" and "j \<noteq> node_id_of n"
  shows "node_role (snd (handle_vote_response w n j \<lparr>vp_term = t, vp_vote_granted = True\<rparr> False)) = Leader"
    and "node_term (snd (handle_vote_response w n j \<lparr>vp_term = t, vp_vote_granted = True\<rparr> False)) = node_term n"
proof -
  have "view (snd (handle_vote_response w n j \<lparr>vp_term = t, vp_vote_granted = True\<rparr> False)) =
      (view n)\<lparr>ev_role := Leader, ev_elec := None\<rparr>"
    unfolding view_vote_response using assms
    by (simp add: record_vote_def election_has_quorum_def Let_def)
  then show "node_role (snd (handle_vote_response w n j \<lparr>vp_term = t, vp_vote_granted = True\<rparr> False)) = Leader"
    "node_term (snd (handle_vote_response w n j \<lparr>vp_term = t, vp_vote_granted = True\<rparr> False)) = node_term n"
    by (simp_all add: role_view pers_view)
qed


text \<open>C10: without that discipline the handlers admit two leaders in one term. Node 1 asks node 2 for a
  vote in term 1 and, before the answer arrives, starts another election in term 2; node 3 wins term 2
  with the vote of node 2; then the answer of term 1 arrives at node 1, which counts it and becomes a
  second leader of term 2: \<open>handle_vote_response\<close> checks neither the term of the response nor its own
  role.\<close>

theorem stale_vote_makes_two_leaders:
  defines "w \<equiv> demo_env"
  defines "a1 \<equiv> snd (start_election w (demo_node 1 [2, 3]))"
    and "b1 \<equiv> handle_vote_request w (demo_node 2 [1, 3]) (demo_vote 1 1)"
    and "c1 \<equiv> snd (handle_vote_request w (demo_node 3 [1, 2]) (demo_vote 1 1))"
  defines "a2 \<equiv> snd (start_election w a1)" and "c2 \<equiv> snd (start_election w c1)"
  defines "b2 \<equiv> handle_vote_request w (snd b1) (demo_vote 2 3)"
  defines "a3 \<equiv> snd (handle_vote_response w a2 2 (fst b1) False)"
    and "c3 \<equiv> snd (handle_vote_response w c2 2 (fst b2) False)"
  shows "node_role a3 = Leader \<and> node_role c3 = Leader \<and> node_term a3 = 2 \<and> node_term c3 = 2"
proof -
  note se = start_election_demo and vr = vote_request_demo
  have a1: "empty_log a1" "node_term a1 = 1" "rn_config a1 = rn_config (demo_node 1 [2, 3])"
    unfolding a1_def using se [of "demo_node 1 [2, 3]" w] by simp_all
  have a2: "node_term a2 = 2" "ni_election_state a2 = Some (self_election a1)" "rn_config a2 = rn_config a1"
    unfolding a2_def using a1 se [of a1 w] by simp_all
  have b1: "fst b1 = \<lparr>vp_term = 1, vp_vote_granted = True\<rparr>" "empty_log (snd b1)" "node_term (snd b1) = 1"
    unfolding b1_def using vr [of "demo_node 2 [1, 3]" 1 w 1] by simp_all
  have c1: "empty_log c1" "node_term c1 = 1" "rn_config c1 = rn_config (demo_node 3 [1, 2])"
    unfolding c1_def using vr [of "demo_node 3 [1, 2]" 1 w 1] by simp_all
  have c2: "node_term c2 = 2" "ni_election_state c2 = Some (self_election c1)" "rn_config c2 = rn_config c1"
    unfolding c2_def using c1 se [of c1 w] by simp_all
  have b2: "fst b2 = \<lparr>vp_term = 2, vp_vote_granted = True\<rparr>"
    unfolding b2_def using b1 vr [of "snd b1" 2 w 3] by simp
  show ?thesis
    unfolding a3_def c3_def b1(1) b2
    using vote_response_demo [OF a2(2), of 1 2 w] vote_response_demo [OF c2(2), of 2 2 w] a1 a2 c1 c2 by simp
qed

end
