(* ===== verification/Sorted_Map.thy ===== *)
theory Sorted_Map
  imports Raft_Prelude
begin

text \<open>
  The two pieces of the standard library the storage engine is built on: \<open>BTreeMap\<close> as an association
  list in strictly ascending key order, and \<open>binary_search_by\<close> on a slice.
\<close>

section \<open>BTreeMap\<close>

definition sorted_map :: "('k :: linorder \<times> 'v) list \<Rightarrow> bool" where
  "sorted_map m \<longleftrightarrow> sorted_wrt (<) (map fst m)"

fun bt_insert :: "'k :: linorder \<Rightarrow> 'v \<Rightarrow> ('k \<times> 'v) list \<Rightarrow> ('k \<times> 'v) list" where
  "bt_insert k v [] = [(k, v)]"
| "bt_insert k v ((k', v') # m) =
     (if k < k' then (k, v) # (k', v') # m
      else if k = k' then (k, v) # m
      else (k', v') # bt_insert k v m)"

definition bt_range :: "'k :: linorder \<Rightarrow> 'k \<Rightarrow> ('k \<times> 'v) list \<Rightarrow> ('k \<times> 'v) list" where
  "bt_range a b m = filter (\<lambda>(k, _). a \<le> k \<and> k < b) m"

lemma sorted_map_Nil [simp]: "sorted_map []"
  by (simp add: sorted_map_def)

lemma sorted_map_Cons [simp]: "sorted_map ((k, v) # m) \<longleftrightarrow> (\<forall>x \<in> fst ` set m. k < x) \<and> sorted_map m"
  by (auto simp: sorted_map_def)

lemma sorted_map_append:
  "sorted_map (xs @ ys) \<longleftrightarrow> sorted_map xs \<and> sorted_map ys \<and> (\<forall>x \<in> fst ` set xs. \<forall>y \<in> fst ` set ys. x < y)"
  by (auto simp: sorted_map_def sorted_wrt_append)

lemma sorted_map_distinct: "sorted_map m \<Longrightarrow> distinct (map fst m)"
  by (induction m) (auto simp: sorted_map_def)

lemma sorted_map_filter: "sorted_map m \<Longrightarrow> sorted_map (filter P m)"
  by (induction m) auto

lemma keys_bt_insert [simp]: "fst ` set (bt_insert k v m) = insert k (fst ` set m)"
  by (induction k v m rule: bt_insert.induct) auto

lemma sorted_bt_insert [simp]: "sorted_map m \<Longrightarrow> sorted_map (bt_insert k v m)"
proof (induction k v m rule: bt_insert.induct)
  case (2 k v k' v' m)
  then show ?case by (cases k k' rule: linorder_cases) (auto simp: image_iff)
qed simp

lemma map_of_bt_insert:
  "sorted_map m \<Longrightarrow> map_of (bt_insert k v m) = (map_of m)(k \<mapsto> v)"
proof (induction k v m rule: bt_insert.induct)
  case (2 k v k' v' m)
  then show ?case by (auto simp: fun_eq_iff)
qed simp

lemma map_of_bt_range: "map_of (bt_range a b m) k = (if a \<le> k \<and> k < b then map_of m k else None)"
  unfolding bt_range_def by (induction m) auto

lemma sorted_bt_range [simp]: "sorted_map m \<Longrightarrow> sorted_map (bt_range a b m)"
  unfolding bt_range_def by (rule sorted_map_filter)

lemma sorted_map_low: "sorted_map ((k, v) # m) \<Longrightarrow> map_of ((k, v) # m) z \<noteq> None \<Longrightarrow> k \<le> z"
  unfolding map_of_eq_None_iff by auto

text \<open>A sorted map is determined by its lookups.\<close>

lemma sorted_map_eqI:
  "sorted_map xs \<Longrightarrow> sorted_map ys \<Longrightarrow> map_of xs = map_of ys \<Longrightarrow> xs = ys"
proof (induction xs arbitrary: ys)
  case Nil
  then show ?case by (metis map_of.simps(1) map_of_eq_empty_iff)
next
  case (Cons x xs)
  obtain k v where x: "x = (k, v)" by (cases x)
  have look: "map_of ys z = map_of ((k, v) # xs) z" for z
    using fun_cong [OF Cons.prems(3), of z] x by simp
  obtain k' v' ys' where ys: "ys = (k', v') # ys'"
    using look [of k] by (cases ys) auto
  have s: "sorted_map ((k, v) # xs)" "sorted_map ((k', v') # ys')" using Cons.prems(1,2) x ys by simp_all
  note low = sorted_map_low [OF s(1)] and low' = sorted_map_low [OF s(2), folded ys]
  have "map_of ((k, v) # xs) k' \<noteq> None" by (simp only: look [symmetric] ys) simp
  moreover have "map_of ys k \<noteq> None" by (simp only: look) simp
  ultimately have "k = k'" using low low' by (meson antisym)
  moreover have "v = v'" using look [of k] \<open>k = k'\<close> by (simp add: ys)
  moreover have "map_of xs = map_of ys'"
  proof
    fix z
    have "map_of xs k = None" "map_of ys' k = None"
      using Cons.prems(1,2) \<open>k = k'\<close> unfolding x ys map_of_eq_None_iff by auto
    then show "map_of xs z = map_of ys' z"
      using look [of z] \<open>k = k'\<close> unfolding ys by (cases "z = k") auto
  qed
  ultimately show ?case using Cons.IH [of ys'] Cons.prems(1,2) by (simp add: x ys)
qed

section \<open>Binary search\<close>

text \<open>\<open>slice::binary_search_by\<close>: \<open>Inr i\<close> for \<open>Ok(i)\<close>, \<open>Inl i\<close> for \<open>Err(i)\<close>, the insertion point.\<close>

function bsearch_loop :: "'a :: linorder list \<Rightarrow> 'a \<Rightarrow> nat \<Rightarrow> nat \<Rightarrow> nat" where
  "bsearch_loop xs k base sz =
     (if sz \<le> 1 then base
      else
        let half = sz div 2; mid = base + half
        in bsearch_loop xs k (if xs ! mid > k then base else mid) (sz - half))"
  by pat_completeness auto
termination by (relation "measure (\<lambda>(_, _, _, sz). sz)") auto

declare bsearch_loop.simps [simp del]

definition binary_search :: "'a :: linorder list \<Rightarrow> 'a \<Rightarrow> nat + nat" where
  "binary_search xs k =
     (if xs = [] then Inl 0
      else
        let base = bsearch_loop xs k 0 (length xs)
        in if xs ! base = k then Inr base
           else if xs ! base < k then Inl (base + 1) else Inl base)"

lemma bsearch_loop_spec:
  assumes "sorted xs" and "0 < sz" and "base + sz \<le> length xs"
    and "base = 0 \<or> xs ! base \<le> k" and "\<And>j. base + sz \<le> j \<Longrightarrow> j < length xs \<Longrightarrow> k < xs ! j"
  shows "let b = bsearch_loop xs k base sz
     in b < length xs \<and> (b = 0 \<or> xs ! b \<le> k) \<and> (\<forall>j. b < j \<longrightarrow> j < length xs \<longrightarrow> k < xs ! j)"
  using assms
proof (induction xs k base sz rule: bsearch_loop.induct)
  case (1 xs k base sz)
  show ?case
  proof (cases "sz \<le> 1")
    case True
    then have "sz = 1" using "1.prems"(2) by simp
    then show ?thesis using "1.prems" by (subst bsearch_loop.simps) (auto simp: Suc_le_eq)
  next
    case False
    define half where "half = sz div 2"
    define mid where "mid = base + half"
    have b: "0 < half" "half < sz" "mid < length xs" using False "1.prems"(3) by (auto simp: half_def mid_def)
    have "let b = bsearch_loop xs k (if xs ! mid > k then base else mid) (sz - half)
      in b < length xs \<and> (b = 0 \<or> xs ! b \<le> k) \<and> (\<forall>j. b < j \<longrightarrow> j < length xs \<longrightarrow> k < xs ! j)"
    proof (rule "1.IH" [OF False half_def mid_def])
      fix j assume j: "(if k < xs ! mid then base else mid) + (sz - half) \<le> j" "j < length xs"
      show "k < xs ! j"
      proof (cases "k < xs ! mid")
        case True
        then have "mid \<le> j" using j(1) by (simp add: mid_def half_def)
        then show ?thesis using True j(2) "1.prems"(1) by (metis order_less_le_trans sorted_nth_mono)
      next
        case False
        then show ?thesis using j b(2) "1.prems"(5) by (simp add: mid_def)
      qed
    qed (use b "1.prems"(1-4) in \<open>auto simp: mid_def not_less\<close>)
    moreover have "bsearch_loop xs k base sz = bsearch_loop xs k (if xs ! mid > k then base else mid) (sz - half)"
      using False by (subst bsearch_loop.simps) (simp only: Let_def half_def mid_def if_False)
    ultimately show ?thesis by (simp only:)
  qed
qed

lemma binary_search_spec:
  assumes "sorted xs"
  shows "case binary_search xs k of
      Inr i \<Rightarrow> i < length xs \<and> xs ! i = k
    | Inl i \<Rightarrow> i \<le> length xs \<and> k \<notin> set xs \<and> (\<forall>j < i. xs ! j < k) \<and> (\<forall>j. i \<le> j \<longrightarrow> j < length xs \<longrightarrow> k < xs ! j)"
proof (cases "xs = []")
  case True
  then show ?thesis by (simp add: binary_search_def)
next
  case False
  define b where "b = bsearch_loop xs k 0 (length xs)"
  have s: "b < length xs" "b = 0 \<or> xs ! b \<le> k" "\<forall>j. b < j \<longrightarrow> j < length xs \<longrightarrow> k < xs ! j"
    using bsearch_loop_spec [of xs "length xs" 0 k] assms False by (simp_all add: b_def Let_def)
  have le: "xs ! j \<le> xs ! b" if "j \<le> b" for j using assms s(1) that by (simp add: sorted_nth_mono)
  have absent: "k \<notin> set xs" if "\<forall>j < i. xs ! j < k" "\<forall>j. i \<le> j \<longrightarrow> j < length xs \<longrightarrow> k < xs ! j" for i
  proof
    assume "k \<in> set xs"
    then obtain j where "j < length xs" "xs ! j = k" by (auto simp: in_set_conv_nth)
    then show False using that(1) [rule_format, of j] that(2) [rule_format, of j] by (cases "j < i") auto
  qed
  consider (eq) "xs ! b = k" | (lt) "xs ! b < k" | (gt) "b = 0" "k < xs ! b"
    using s(2) by (cases "xs ! b" k rule: linorder_cases) (auto simp: not_less [symmetric])
  then show ?thesis
  proof cases
    case eq
    then show ?thesis using False s(1) by (simp add: binary_search_def b_def [symmetric])
  next
    case lt
    have "\<forall>j < Suc b. xs ! j < k" using le lt by (metis less_Suc_eq_le order_le_less_trans)
    moreover have "\<forall>j. Suc b \<le> j \<longrightarrow> j < length xs \<longrightarrow> k < xs ! j" using s(3) by (simp add: Suc_le_eq)
    ultimately show ?thesis
      using lt False s(1) absent [of "Suc b"] by (simp add: binary_search_def b_def [symmetric])
  next
    case gt
    have "\<forall>j. 0 \<le> j \<longrightarrow> j < length xs \<longrightarrow> k < xs ! j" using gt s(3) by (metis neq0_conv)
    then show ?thesis
      using gt False absent [of 0] by (auto simp: binary_search_def b_def [symmetric])
  qed
qed

end
