(* ===== verification/Memtable.thy ===== *)
theory Memtable
  imports Sorted_Map
begin

text \<open>
  The in-memory table (\<open>raft-storage/src/memtable/mod.rs\<close>). A value \<open>None\<close> is a tombstone. The size
  bookkeeping is modelled with the subtraction of \<open>put\<close> checked: \<open>None\<close> is the arithmetic underflow
  that panics in a debug build.
\<close>

type_synonym entry_value = "bytes option"

record memtable =
  mt_data :: "(bytes \<times> entry_value) list"
  mt_size_bytes :: nat
  mt_max_size :: nat

definition memtable_new :: "nat \<Rightarrow> memtable" where
  "memtable_new max_size = \<lparr>mt_data = [], mt_size_bytes = 0, mt_max_size = max_size\<rparr>"

definition value_len :: "entry_value \<Rightarrow> nat" where
  "value_len v = (case v of None \<Rightarrow> 0 | Some b \<Rightarrow> length b)"

definition recalculate_size :: "memtable \<Rightarrow> memtable" where
  "recalculate_size m = m\<lparr>mt_size_bytes := sum_list (map (\<lambda>(k, v). length k + value_len v) (mt_data m))\<rparr>"

definition memtable_get :: "memtable \<Rightarrow> bytes \<Rightarrow> entry_value option" where
  "memtable_get m key = map_of (mt_data m) key"

definition checked_sub :: "nat \<Rightarrow> nat \<Rightarrow> nat option" where
  "checked_sub a b = (if b \<le> a then Some (a - b) else None)"

definition memtable_put :: "memtable \<Rightarrow> bytes \<Rightarrow> bytes \<Rightarrow> memtable option" where
  "memtable_put m key value =
     (let entry_size = length key + length value;
          old = map_of (mt_data m) key;
          data = bt_insert key (Some value) (mt_data m)
      in case old of
           Some ov \<Rightarrow>
             (let old_size = value_len ov
              in Option.bind (checked_sub (mt_size_bytes m) old_size)
                   (\<lambda>s. Option.bind (checked_sub (s + entry_size) (entry_size - min old_size entry_size))
                     (\<lambda>s'. Some (recalculate_size (m\<lparr>mt_data := data, mt_size_bytes := s'\<rparr>)))))
         | None \<Rightarrow> Some (recalculate_size (m\<lparr>mt_data := data, mt_size_bytes := mt_size_bytes m + entry_size\<rparr>)))"

definition memtable_delete :: "memtable \<Rightarrow> bytes \<Rightarrow> memtable" where
  "memtable_delete m key =
     (let data = bt_insert key None (mt_data m)
      in case map_of (mt_data m) key of
           Some ov \<Rightarrow> m\<lparr>mt_data := data, mt_size_bytes := mt_size_bytes m - value_len ov\<rparr>
         | None \<Rightarrow> m\<lparr>mt_data := data, mt_size_bytes := mt_size_bytes m + length key\<rparr>)"

definition memtable_iter :: "memtable \<Rightarrow> (bytes \<times> entry_value) list" where
  "memtable_iter m = mt_data m"

text \<open>\<open>BTreeMap::range\<close> panics if the start is greater than the end, or if they are equal and both
  excluded; here the start is included.\<close>

definition memtable_scan :: "memtable \<Rightarrow> bytes \<Rightarrow> bytes \<Rightarrow> (bytes \<times> entry_value) list option" where
  "memtable_scan m start end' = (if end' < start then None else Some (bt_range start end' (mt_data m)))"

definition memtable_is_full :: "memtable \<Rightarrow> bool" where
  "memtable_is_full m \<longleftrightarrow> mt_size_bytes m \<ge> mt_max_size m"

definition memtable_len :: "memtable \<Rightarrow> nat" where
  "memtable_len m = length (mt_data m)"

definition memtable_is_empty :: "memtable \<Rightarrow> bool" where
  "memtable_is_empty m \<longleftrightarrow> mt_data m = []"

section \<open>Invariant: sorted and exactly accounted\<close>

definition data_size :: "(bytes \<times> entry_value) list \<Rightarrow> nat" where
  "data_size d = sum_list (map (\<lambda>(k, v). length k + value_len v) d)"

definition wf_memtable :: "memtable \<Rightarrow> bool" where
  "wf_memtable m \<longleftrightarrow> sorted_map (mt_data m) \<and> mt_size_bytes m = data_size (mt_data m)"

lemma wf_memtable_new [simp]: "wf_memtable (memtable_new n)"
  by (simp add: wf_memtable_def memtable_new_def data_size_def)

lemma data_size_insert:
  "sorted_map d \<Longrightarrow> data_size (bt_insert k v d) + (case map_of d k of None \<Rightarrow> 0 | Some ov \<Rightarrow> length k + value_len ov) =
     data_size d + length k + value_len v"
proof (induction k v d rule: bt_insert.induct)
  case (2 k v k' v' m)
  then show ?case
  proof (cases k k' rule: linorder_cases)
    case less
    then have "map_of m k = None" using "2.prems" by (auto simp: map_of_eq_None_iff)
    then show ?thesis using less by (auto simp: data_size_def)
  next
    case equal
    then show ?thesis by (simp add: data_size_def)
  next
    case greater
    then have "\<not> k < k'" "k \<noteq> k'" by auto
    then show ?thesis using 2 by (simp add: data_size_def)
  qed
qed (simp add: data_size_def)

lemma data_size_member: "map_of d k = Some v \<Longrightarrow> length k + value_len v \<le> data_size d"
  by (induction d) (auto simp: data_size_def split: if_splits)

lemma wf_memtable_put:
  assumes "wf_memtable m"
  shows "\<exists>m'. memtable_put m k v = Some m' \<and> wf_memtable m' \<and> mt_max_size m' = mt_max_size m \<and>
     mt_data m' = bt_insert k (Some v) (mt_data m)"
proof (cases "map_of (mt_data m) k")
  case None
  then show ?thesis
    using assms by (simp add: memtable_put_def wf_memtable_def recalculate_size_def data_size_def Let_def)
next
  case (Some ov)
  then have "value_len ov \<le> mt_size_bytes m"
    using data_size_member [OF Some] assms by (simp add: wf_memtable_def)
  then show ?thesis
    using Some assms
    by (simp add: memtable_put_def wf_memtable_def recalculate_size_def data_size_def Let_def checked_sub_def)
qed

lemma wf_memtable_delete: "wf_memtable m \<Longrightarrow> wf_memtable (memtable_delete m k)"
  using data_size_insert [of "mt_data m" k None]
  by (auto simp: memtable_delete_def wf_memtable_def Let_def value_len_def split: option.splits)

lemma mt_data_delete [simp]:
  "mt_data (memtable_delete m k) = bt_insert k None (mt_data m)" "mt_max_size (memtable_delete m k) = mt_max_size m"
  by (simp_all add: memtable_delete_def Let_def split: option.splits)

section \<open>Behaviour as a map\<close>

datatype mt_op = MtPut bytes bytes | MtDelete bytes

fun mt_apply :: "memtable \<Rightarrow> mt_op \<Rightarrow> memtable option" where
  "mt_apply m (MtPut k v) = memtable_put m k v"
| "mt_apply m (MtDelete k) = Some (memtable_delete m k)"

fun mt_run :: "memtable \<Rightarrow> mt_op list \<Rightarrow> memtable option" where
  "mt_run m [] = Some m"
| "mt_run m (x # xs) = Option.bind (mt_apply m x) (\<lambda>m'. mt_run m' xs)"

text \<open>The abstract map: absent, deleted or bound.\<close>

fun spec_apply :: "(bytes \<rightharpoonup> entry_value) \<Rightarrow> mt_op \<Rightarrow> (bytes \<rightharpoonup> entry_value)" where
  "spec_apply f (MtPut k v) = f(k \<mapsto> Some v)"
| "spec_apply f (MtDelete k) = f(k \<mapsto> None)"

lemma mt_apply_refines:
  assumes "wf_memtable m"
  shows "\<exists>m'. mt_apply m x = Some m' \<and> wf_memtable m' \<and> mt_max_size m' = mt_max_size m \<and>
     memtable_get m' = spec_apply (memtable_get m) x"
proof (cases x)
  case (MtPut k v)
  then show ?thesis
    using wf_memtable_put [OF assms, of k v] assms
    by (auto simp: memtable_get_def fun_eq_iff map_of_bt_insert wf_memtable_def)
next
  case (MtDelete k)
  then show ?thesis
    using wf_memtable_delete [OF assms, of k] assms
    by (auto simp: memtable_get_def fun_eq_iff map_of_bt_insert wf_memtable_def)
qed

lemma mt_run_refines:
  "wf_memtable m \<Longrightarrow> \<exists>m'. mt_run m xs = Some m' \<and> wf_memtable m' \<and>
     memtable_get m' = fold (\<lambda>x f. spec_apply f x) xs (memtable_get m)"
proof (induction xs arbitrary: m)
  case (Cons x xs)
  from mt_apply_refines [OF Cons.prems, of x] obtain m1 where
    "mt_apply m x = Some m1" "wf_memtable m1" "memtable_get m1 = spec_apply (memtable_get m) x" by blast
  with Cons.IH [of m1] show ?case by auto
qed simp

text \<open>C15: the memtable refines a map with tombstones. After any sequence of puts and deletes on a new
  table no size arithmetic has underflowed, every lookup returns what the sequence determines, the
  iteration order is strictly ascending, and the recorded size is exactly the sum of the lengths of the
  stored keys and values.\<close>

theorem memtable_refines_map:
  "\<exists>m. mt_run (memtable_new limit) xs = Some m \<and>
     memtable_get m = fold (\<lambda>x f. spec_apply f x) xs Map.empty \<and>
     sorted_map (memtable_iter m) \<and>
     mt_size_bytes m = sum_list (map (\<lambda>(k, v). length k + value_len v) (memtable_iter m))"
proof -
  have "memtable_get (memtable_new limit) = Map.empty" by (simp add: memtable_get_def memtable_new_def fun_eq_iff)
  then show ?thesis
    using mt_run_refines [OF wf_memtable_new, of limit xs]
    by (auto simp: wf_memtable_def memtable_iter_def data_size_def)
qed

end
