(* ===== verification/Sstable.thy ===== *)
theory Sstable
  imports Memtable
begin

text \<open>
  Sorted string tables (\<open>raft-storage/src/sstable\<close> and \<open>bloom.rs\<close>): data blocks, the index, the Bloom
  filter, the footer, the writer and the reader.

  Parameters, collected in an \<open>sst_env\<close>: the two hash values of a key (the algorithm of
  \<open>DefaultHasher\<close> is unspecified), the floating-point computation of the filter's size, and the packing
  of bits into bytes by the \<open>bitvec\<close> crate. Out-of-range slices of a damaged file, where Rust panics, are
  \<open>None\<close>.
\<close>

record sst_env =
  se_hash_pair :: "bytes \<Rightarrow> 64 word \<times> 64 word"
  se_num_bits :: "nat \<Rightarrow> nat"
  se_num_hashes :: "nat \<Rightarrow> nat"
  se_pack :: "bool list \<Rightarrow> bytes"
  se_unpack :: "bytes \<Rightarrow> bool list"

section \<open>Data blocks\<close>

type_synonym block_entry = "bytes \<times> entry_value"

definition TOMBSTONE_MARKER :: nat where
  "TOMBSTONE_MARKER = 2 ^ 32 - 1"

record block_builder =
  bb_entries :: "block_entry list"
  bb_size :: nat

definition block_builder_new :: block_builder where
  "block_builder_new = \<lparr>bb_entries = [], bb_size = 4\<rparr>"

definition block_add :: "block_builder \<Rightarrow> bytes \<Rightarrow> entry_value \<Rightarrow> block_builder" where
  "block_add b key v =
     \<lparr>bb_entries = bb_entries b @ [(key, v)], bb_size = bb_size b + (4 + 4 + length key + value_len v)\<rparr>"

definition block_first_key :: "block_builder \<Rightarrow> bytes option" where
  "block_first_key b = (case bb_entries b of [] \<Rightarrow> None | e # _ \<Rightarrow> Some (fst e))"

definition encode_block_entry :: "block_entry \<Rightarrow> bytes" where
  "encode_block_entry e =
     le_bytes 4 (as_u32 (length (fst e))) @
     le_bytes 4 (case snd e of Some v \<Rightarrow> as_u32 (length v) | None \<Rightarrow> TOMBSTONE_MARKER) @
     fst e @ (case snd e of Some v \<Rightarrow> v | None \<Rightarrow> [])"

definition block_build :: "block_entry list \<Rightarrow> bytes" where
  "block_build es = concat (map encode_block_entry es) @ le_bytes 4 (as_u32 (length es))"

fun parse_entries :: "nat \<Rightarrow> bytes \<Rightarrow> block_entry list result" where
  "parse_entries 0 rest = Inr []"
| "parse_entries (Suc n) rest =
     (if length rest < 8 then Inl (Corruption ''block entry truncated'')
      else
        let key_len = le_value (take 4 rest);
            val_len_raw = le_value (take 4 (drop 4 rest));
            r1 = drop 8 rest
        in if length r1 < key_len then Inl (Corruption ''block key truncated'')
           else
             let key = take key_len r1; r2 = drop key_len r1
             in if val_len_raw = TOMBSTONE_MARKER
                then (case parse_entries n r2 of Inl e \<Rightarrow> Inl e | Inr es \<Rightarrow> Inr ((key, None) # es))
                else if length r2 < val_len_raw then Inl (Corruption ''block value truncated'')
                else (case parse_entries n (drop val_len_raw r2) of
                        Inl e \<Rightarrow> Inl e
                      | Inr es \<Rightarrow> Inr ((key, Some (take val_len_raw r2)) # es)))"

definition read_entries :: "bytes \<Rightarrow> block_entry list result" where
  "read_entries data =
     (if length data < 4 then Inl (Corruption ''block too small'')
      else parse_entries (le_value (drop (length data - 4) data)) (take (length data - 4) data))"

definition block_search :: "block_entry list \<Rightarrow> bytes \<Rightarrow> nat option" where
  "block_search es key = (case binary_search (map fst es) key of Inr i \<Rightarrow> Some i | Inl _ \<Rightarrow> None)"

section \<open>Footer\<close>

definition FOOTER_SIZE :: nat where
  "FOOTER_SIZE = 40"

definition MAGIC :: nat where
  "MAGIC = 0x5354424C"

record footer =
  ft_index_offset :: nat
  ft_index_size :: nat
  ft_bloom_offset :: nat
  ft_bloom_size :: nat
  ft_bloom_num_hashes :: nat

definition footer_encode :: "footer \<Rightarrow> bytes" where
  "footer_encode f =
     le_bytes 8 (ft_index_offset f) @ le_bytes 8 (ft_index_size f) @ le_bytes 8 (ft_bloom_offset f) @
     le_bytes 8 (ft_bloom_size f) @ le_bytes 4 (ft_bloom_num_hashes f) @ le_bytes 4 MAGIC"

definition footer_decode :: "bytes \<Rightarrow> footer result" where
  "footer_decode buf =
     (if le_value (take 4 (drop 36 buf)) \<noteq> MAGIC then Inl (Corruption ''SSTable footer magic mismatch'')
      else Inr \<lparr>ft_index_offset = le_value (take 8 buf),
                ft_index_size = le_value (take 8 (drop 8 buf)),
                ft_bloom_offset = le_value (take 8 (drop 16 buf)),
                ft_bloom_size = le_value (take 8 (drop 24 buf)),
                ft_bloom_num_hashes = le_value (take 4 (drop 32 buf))\<rparr>)"

section \<open>Bloom filter\<close>

record bloom_filter =
  bf_bits :: "bool list"
  bf_num_hashes :: nat
  bf_num_bits :: nat

definition bloom_new :: "sst_env \<Rightarrow> nat \<Rightarrow> bloom_filter" where
  "bloom_new w expected_items =
     (let n = max expected_items 1; num_bits = max (se_num_bits w n) 8
      in \<lparr>bf_bits = replicate num_bits False, bf_num_hashes = max (se_num_hashes w n) 1, bf_num_bits = num_bits\<rparr>)"

definition bloom_from_raw :: "sst_env \<Rightarrow> bytes \<Rightarrow> nat \<Rightarrow> nat \<Rightarrow> bloom_filter" where
  "bloom_from_raw w bits num_hashes num_bits =
     (let bv = se_unpack w bits
      in \<lparr>bf_bits = take num_bits bv @ replicate (num_bits - length bv) False,
          bf_num_hashes = num_hashes, bf_num_bits = num_bits\<rparr>)"

text \<open>\<open>(h1 + i * h2) % num_bits\<close> in wrapping 64-bit arithmetic.\<close>

definition bloom_index :: "nat \<Rightarrow> 64 word \<Rightarrow> 64 word \<Rightarrow> nat \<Rightarrow> nat" where
  "bloom_index num_bits h1 h2 i = unat ((h1 + of_nat i * h2) mod of_nat num_bits)"

definition bloom_indices :: "sst_env \<Rightarrow> bloom_filter \<Rightarrow> bytes \<Rightarrow> nat list" where
  "bloom_indices w b key =
     (let (h1, h2) = se_hash_pair w key
      in map (bloom_index (bf_num_bits b) h1 h2) [0 ..< bf_num_hashes b])"

definition bloom_insert :: "sst_env \<Rightarrow> bloom_filter \<Rightarrow> bytes \<Rightarrow> bloom_filter" where
  "bloom_insert w b key =
     b\<lparr>bf_bits := fold (\<lambda>idx bits. bits[idx := True]) (bloom_indices w b key) (bf_bits b)\<rparr>"

text \<open>A filter of zero bits, which only a damaged file can produce, makes the remainder panic.\<close>

definition bloom_may_contain :: "sst_env \<Rightarrow> bloom_filter \<Rightarrow> bytes \<Rightarrow> bool option" where
  "bloom_may_contain w b key =
     (if bf_num_bits b = 0 \<and> bf_num_hashes b > 0 then None
      else Some (list_all (\<lambda>idx. bf_bits b ! idx) (bloom_indices w b key)))"

section \<open>Writer\<close>

record index_entry =
  ie_first_key :: bytes
  ie_offset :: nat
  ie_size :: nat

record sst_writer =
  sw_block_size :: nat
  sw_current_block :: block_builder
  sw_index :: "index_entry list"
  sw_bloom :: bloom_filter
  sw_data :: bytes
  sw_entry_count :: nat

record sst_info =
  si_entry_count :: nat
  si_file_size :: nat

definition sst_writer_new :: "sst_env \<Rightarrow> nat \<Rightarrow> nat \<Rightarrow> sst_writer" where
  "sst_writer_new w block_size expected_entries =
     \<lparr>sw_block_size = block_size, sw_current_block = block_builder_new, sw_index = [],
      sw_bloom = bloom_new w (max expected_entries 1), sw_data = [], sw_entry_count = 0\<rparr>"

definition flush_block :: "sst_writer \<Rightarrow> sst_writer" where
  "flush_block s =
     (let first_key = (case block_first_key (sw_current_block s) of Some k \<Rightarrow> k | None \<Rightarrow> []);
          block_data = block_build (bb_entries (sw_current_block s))
      in s\<lparr>sw_current_block := block_builder_new,
           sw_data := sw_data s @ block_data,
           sw_index := sw_index s @ [\<lparr>ie_first_key = first_key, ie_offset = length (sw_data s),
                                      ie_size = length block_data\<rparr>]\<rparr>)"

definition sst_add :: "sst_env \<Rightarrow> sst_writer \<Rightarrow> block_entry \<Rightarrow> sst_writer" where
  "sst_add w s e =
     (let s1 = s\<lparr>sw_bloom := bloom_insert w (sw_bloom s) (fst e),
                 sw_current_block := block_add (sw_current_block s) (fst e) (snd e),
                 sw_entry_count := sw_entry_count s + 1\<rparr>
      in if bb_size (sw_current_block s1) \<ge> sw_block_size s1 then flush_block s1 else s1)"

definition encode_index_entry :: "index_entry \<Rightarrow> bytes" where
  "encode_index_entry e =
     le_bytes 4 (as_u32 (length (ie_first_key e))) @ ie_first_key e @
     le_bytes 8 (ie_offset e) @ le_bytes 8 (ie_size e)"

definition encode_index :: "index_entry list \<Rightarrow> bytes" where
  "encode_index ix = le_bytes 4 (as_u32 (length ix)) @ concat (map encode_index_entry ix)"

text \<open>\<open>finish\<close>: the bytes of the file and what is recorded of it.\<close>

definition sst_finish :: "sst_env \<Rightarrow> sst_writer \<Rightarrow> bytes \<times> sst_info" where
  "sst_finish w s0 =
     (let s = (if bb_entries (sw_current_block s0) = [] then s0 else flush_block s0);
          index_offset = length (sw_data s);
          index_data = encode_index (sw_index s);
          data1 = sw_data s @ index_data;
          bloom_offset = length data1;
          bloom_bytes = se_pack w (bf_bits (sw_bloom s));
          data2 = data1 @ le_bytes 8 (bf_num_bits (sw_bloom s)) @ bloom_bytes;
          footer = \<lparr>ft_index_offset = index_offset, ft_index_size = length index_data,
                    ft_bloom_offset = bloom_offset, ft_bloom_size = 8 + length bloom_bytes,
                    ft_bloom_num_hashes = bf_num_hashes (sw_bloom s)\<rparr>;
          data = data2 @ footer_encode footer
      in (data, \<lparr>si_entry_count = sw_entry_count s, si_file_size = length data\<rparr>))"

text \<open>The use both callers make of the writer: all entries in order, then \<open>finish\<close>.\<close>

definition write_sstable :: "sst_env \<Rightarrow> nat \<Rightarrow> block_entry list \<Rightarrow> bytes \<times> sst_info" where
  "write_sstable w block_size es =
     sst_finish w (fold (\<lambda>e s. sst_add w s e) es (sst_writer_new w block_size (length es)))"

section \<open>Reader\<close>

record sst_reader =
  sr_data :: bytes
  sr_index :: "index_entry list"
  sr_bloom :: bloom_filter

fun parse_index_entries :: "nat \<Rightarrow> bytes \<Rightarrow> index_entry list result" where
  "parse_index_entries 0 rest = Inr []"
| "parse_index_entries (Suc n) rest =
     (if length rest < 4 then Inl (Corruption ''index entry truncated'')
      else
        let key_len = le_value (take 4 rest); r1 = drop 4 rest
        in if length r1 < key_len + 16 then Inl (Corruption ''index entry truncated'')
           else
             let r2 = drop key_len r1
             in case parse_index_entries n (drop 16 r2) of
                  Inl e \<Rightarrow> Inl e
                | Inr ix \<Rightarrow> Inr (\<lparr>ie_first_key = take key_len r1, ie_offset = le_value (take 8 r2),
                                   ie_size = le_value (take 8 (drop 8 r2))\<rparr> # ix))"

definition parse_index :: "bytes \<Rightarrow> index_entry list result" where
  "parse_index data =
     (if length data < 4 then Inl (Corruption ''index block too small'')
      else parse_index_entries (le_value (take 4 data)) (drop 4 data))"

definition parse_bloom :: "sst_env \<Rightarrow> bytes \<Rightarrow> nat \<Rightarrow> bloom_filter result" where
  "parse_bloom w data num_hashes =
     (if length data < 8 then Inl (Corruption ''bloom block too small'')
      else Inr (bloom_from_raw w (drop 8 data) num_hashes (le_value (take 8 data))))"

text \<open>The outer \<open>None\<close> is the panic of the checked additions when the offsets of a damaged footer
  add up to more than 64 bits.\<close>

definition sst_open :: "sst_env \<Rightarrow> bytes \<Rightarrow> sst_reader result option" where
  "sst_open w data =
     (if length data < FOOTER_SIZE then Some (Inl (Corruption ''SSTable too small''))
      else case footer_decode (drop (length data - FOOTER_SIZE) data) of
        Inl e \<Rightarrow> Some (Inl e)
      | Inr f \<Rightarrow>
          let index_end = ft_index_offset f + ft_index_size f
          in if index_end \<ge> 2 ^ 64 then None
             else if index_end > length data then Some (Inl (Corruption ''index extends past file''))
             else case parse_index (take (ft_index_size f) (drop (ft_index_offset f) data)) of
               Inl e \<Rightarrow> Some (Inl e)
             | Inr ix \<Rightarrow>
                 let bloom_end = ft_bloom_offset f + ft_bloom_size f
                 in if bloom_end \<ge> 2 ^ 64 then None
                    else if bloom_end > length data then Some (Inl (Corruption ''bloom filter extends past file''))
                    else case parse_bloom w (take (ft_bloom_size f) (drop (ft_bloom_offset f) data))
                                (ft_bloom_num_hashes f) of
                      Inl e \<Rightarrow> Some (Inl e)
                    | Inr bloom \<Rightarrow> Some (Inr \<lparr>sr_data = data, sr_index = ix, sr_bloom = bloom\<rparr>))"

definition find_block :: "sst_reader \<Rightarrow> bytes \<Rightarrow> nat" where
  "find_block r key =
     (case binary_search (map ie_first_key (sr_index r)) key of
        Inr i \<Rightarrow> i
      | Inl i \<Rightarrow> i - 1)"

definition block_slice :: "sst_reader \<Rightarrow> index_entry \<Rightarrow> bytes option" where
  "block_slice r e = subslice (sr_data r) (ie_offset e) (ie_offset e + ie_size e)"

definition sst_get :: "sst_env \<Rightarrow> sst_reader \<Rightarrow> bytes \<Rightarrow> entry_value option result option" where
  "sst_get w r key =
     (case bloom_may_contain w (sr_bloom r) key of
        None \<Rightarrow> None
      | Some False \<Rightarrow> Some (Inr None)
      | Some True \<Rightarrow>
          let block_idx = find_block r key
          in if block_idx \<ge> length (sr_index r) then Some (Inr None)
             else case block_slice r (sr_index r ! block_idx) of
               None \<Rightarrow> None
             | Some block_data \<Rightarrow>
                 (case read_entries block_data of
                    Inl e \<Rightarrow> Some (Inl e)
                  | Inr entries \<Rightarrow>
                      (case block_search entries key of
                         Some idx \<Rightarrow> Some (Inr (Some (snd (entries ! idx))))
                       | None \<Rightarrow> Some (Inr None))))"

fun iter_blocks :: "sst_reader \<Rightarrow> index_entry list \<Rightarrow> block_entry list result option" where
  "iter_blocks r [] = Some (Inr [])"
| "iter_blocks r (e # ix) =
     (case block_slice r e of
        None \<Rightarrow> None
      | Some block_data \<Rightarrow>
          (case read_entries block_data of
             Inl err \<Rightarrow> Some (Inl err)
           | Inr entries \<Rightarrow>
               (case iter_blocks r ix of
                  Some (Inr rest) \<Rightarrow> Some (Inr (entries @ rest))
                | other \<Rightarrow> other)))"

definition sst_iter :: "sst_reader \<Rightarrow> block_entry list result option" where
  "sst_iter r = iter_blocks r (sr_index r)"

text \<open>The loop of \<open>scan\<close>: keep the entries in range, stop at the first at or past the end.\<close>

fun scan_loop :: "bytes \<Rightarrow> bytes \<Rightarrow> block_entry list \<Rightarrow> block_entry list" where
  "scan_loop a b [] = []"
| "scan_loop a b ((k, v) # es) =
     (if a \<le> k \<and> k < b then (k, v) # scan_loop a b es
      else if b \<le> k then [] else scan_loop a b es)"

definition sst_scan :: "sst_reader \<Rightarrow> bytes \<Rightarrow> bytes \<Rightarrow> block_entry list result option" where
  "sst_scan r a b =
     (case sst_iter r of
        None \<Rightarrow> None
      | Some (Inl e) \<Rightarrow> Some (Inl e)
      | Some (Inr es) \<Rightarrow> Some (Inr (scan_loop a b es)))"

definition sst_min_key :: "sst_reader \<Rightarrow> bytes option" where
  "sst_min_key r = (case sr_index r of [] \<Rightarrow> None | e # _ \<Rightarrow> Some (ie_first_key e))"

section \<open>Round trips of the parts\<close>

text \<open>What the four-byte length fields can hold; a value of \<open>u32::MAX\<close> bytes would read as a tombstone.\<close>

definition storable :: "block_entry \<Rightarrow> bool" where
  "storable e \<longleftrightarrow> length (fst e) < 2 ^ 32 \<and> value_len (snd e) < TOMBSTONE_MARKER"

lemma parse_entry:
  assumes "storable e"
  shows "parse_entries (Suc n) (encode_block_entry e @ rest) =
     (case parse_entries n rest of Inl err \<Rightarrow> Inl err | Inr es \<Rightarrow> Inr (e # es))"
proof -
  obtain k v where e: "e = (k, v)" by (cases e)
  have k: "length k < 256 ^ 4" using assms by (simp add: storable_def e)
  show ?thesis
  proof (cases v)
    case None
    have "le_value (le_bytes 4 TOMBSTONE_MARKER) = TOMBSTONE_MARKER"
      by (rule le_value_small) (simp add: TOMBSTONE_MARKER_def)
    then show ?thesis using k None by (simp add: e encode_block_entry_def le_value_small split: sum.split)
  next
    case (Some b)
    then have b: "length b < 256 ^ 4" "length b \<noteq> TOMBSTONE_MARKER"
      using assms by (simp_all add: storable_def e value_len_def TOMBSTONE_MARKER_def)
    then show ?thesis using k Some by (simp add: e encode_block_entry_def le_value_small split: sum.split)
  qed
qed

lemma parse_entries_build:
  "\<forall>e \<in> set es. storable e \<Longrightarrow> parse_entries (length es) (concat (map encode_block_entry es)) = Inr es"
proof (induction es)
  case (Cons e es)
  then show ?case using parse_entry [of e "length es" "concat (map encode_block_entry es)"] by simp
qed simp

lemma read_entries_build:
  assumes "\<forall>e \<in> set es. storable e" and "length es < 2 ^ 32"
  shows "read_entries (block_build es) = Inr es"
  using parse_entries_build [OF assms(1)] assms(2)
  by (simp add: read_entries_def block_build_def le_value_small)

lemma footer_decode_encode:
  assumes "ft_index_offset f < 2 ^ 64" "ft_index_size f < 2 ^ 64" "ft_bloom_offset f < 2 ^ 64"
    "ft_bloom_size f < 2 ^ 64" "ft_bloom_num_hashes f < 2 ^ 32"
  shows "footer_decode (footer_encode f) = Inr f" and "length (footer_encode f) = FOOTER_SIZE"
proof -
  have m: "le_value (le_bytes 4 MAGIC) = MAGIC" by (rule le_value_small) (simp add: MAGIC_def)
  show "footer_decode (footer_encode f) = Inr f"
    using assms m by (simp add: footer_decode_def footer_encode_def le_value_small)
  show "length (footer_encode f) = FOOTER_SIZE" by (simp add: footer_encode_def FOOTER_SIZE_def)
qed

definition index_fits :: "index_entry \<Rightarrow> bool" where
  "index_fits e \<longleftrightarrow> length (ie_first_key e) < 2 ^ 32 \<and> ie_offset e < 2 ^ 64 \<and> ie_size e < 2 ^ 64"

lemma parse_index_entry:
  assumes "index_fits e"
  shows "parse_index_entries (Suc n) (encode_index_entry e @ rest) =
     (case parse_index_entries n rest of Inl err \<Rightarrow> Inl err | Inr ix \<Rightarrow> Inr (e # ix))"
  using assms by (simp add: encode_index_entry_def index_fits_def le_value_small Let_def split: sum.split)

lemma parse_index_encode:
  assumes "\<forall>e \<in> set ix. index_fits e" and "length ix < 2 ^ 32"
  shows "parse_index (encode_index ix) = Inr ix"
proof -
  have "parse_index_entries (length ix) (concat (map encode_index_entry ix)) = Inr ix"
    using assms(1)
  proof (induction ix)
    case (Cons e ix)
    then show ?case
      using parse_index_entry [of e "length ix" "concat (map encode_index_entry ix)"] by simp
  qed simp
  then show ?thesis using assms(2) by (simp add: parse_index_def encode_index_def le_value_small)
qed

section \<open>The Bloom filter has no false negatives\<close>

definition wf_bloom :: "bloom_filter \<Rightarrow> bool" where
  "wf_bloom b \<longleftrightarrow> length (bf_bits b) = bf_num_bits b \<and> 0 < bf_num_bits b \<and> bf_num_bits b < 2 ^ 64"

lemma bloom_index_bound: "0 < n \<Longrightarrow> n < 2 ^ 64 \<Longrightarrow> bloom_index n h1 h2 i < n"
proof -
  assume n: "0 < n" "n < 2 ^ 64"
  have u: "unat (of_nat n :: 64 word) = n" using n by (simp add: unat_of_nat)
  have "unat ((h1 + of_nat i * h2) mod (of_nat n :: 64 word)) = unat (h1 + of_nat i * h2) mod n"
    by (simp add: unat_mod_distrib u)
  then show ?thesis using n by (simp add: bloom_index_def)
qed

lemma fold_set_true:
  "length (fold (\<lambda>i bs. bs[i := True]) is bs) = length bs"
  "j < length bs \<Longrightarrow> fold (\<lambda>i bs. bs[i := True]) is bs ! j \<longleftrightarrow> j \<in> set is \<or> bs ! j"
proof (induction "is" arbitrary: bs)
  case (Cons a "is")
  {
    case 1
    show ?case using Cons(1) by simp
  next
    case 2
    then show ?case using Cons(2) [of "bs[a := True]"] by (cases "a = j") simp_all
  }
qed simp_all

lemma wf_bloom_insert [simp]: "wf_bloom b \<Longrightarrow> wf_bloom (bloom_insert w b k)"
  by (simp add: wf_bloom_def bloom_insert_def fold_set_true)

lemma bloom_insert_fields [simp]:
  "bf_num_bits (bloom_insert w b k) = bf_num_bits b" "bf_num_hashes (bloom_insert w b k) = bf_num_hashes b"
  by (simp_all add: bloom_insert_def)

lemma bloom_indices_insert [simp]: "bloom_indices w (bloom_insert w b k) = bloom_indices w b"
  by (simp add: bloom_indices_def fun_eq_iff)

definition bloom_has :: "sst_env \<Rightarrow> bloom_filter \<Rightarrow> bytes \<Rightarrow> bool" where
  "bloom_has w b k \<longleftrightarrow> (\<forall>idx \<in> set (bloom_indices w b k). bf_bits b ! idx)"

lemma bloom_indices_bound: "wf_bloom b \<Longrightarrow> idx \<in> set (bloom_indices w b k) \<Longrightarrow> idx < length (bf_bits b)"
  by (auto simp: wf_bloom_def bloom_indices_def bloom_index_bound split: prod.splits)

lemma bloom_has_insert:
  assumes "wf_bloom b"
  shows "bloom_has w (bloom_insert w b k) k" "bloom_has w b j \<Longrightarrow> bloom_has w (bloom_insert w b k) j"
proof -
  have bits: "bf_bits (bloom_insert w b k) ! i \<longleftrightarrow> i \<in> set (bloom_indices w b k) \<or> bf_bits b ! i"
    if "i \<in> set (bloom_indices w b x)" for i x
    using bloom_indices_bound [OF assms that] by (simp add: bloom_insert_def fold_set_true)
  show "bloom_has w (bloom_insert w b k) k" "bloom_has w b j \<Longrightarrow> bloom_has w (bloom_insert w b k) j"
    using bits by (simp_all add: bloom_has_def)
qed

lemma may_contain_has: "wf_bloom b \<Longrightarrow> bloom_may_contain w b k = Some (bloom_has w b k)"
  by (simp add: bloom_may_contain_def bloom_has_def wf_bloom_def list_all_iff)

lemma bloom_has_fold:
  "wf_bloom b \<Longrightarrow> wf_bloom (fold (\<lambda>k b. bloom_insert w b k) ks b) \<and>
     (\<forall>k. k \<in> set ks \<or> bloom_has w b k \<longrightarrow> bloom_has w (fold (\<lambda>k b. bloom_insert w b k) ks b) k)"
proof (induction ks arbitrary: b)
  case (Cons x ks)
  then show ?case
    using bloom_has_insert(1) [OF Cons.prems, of w x] bloom_has_insert(2) [OF Cons.prems, where k = x and w = w]
      Cons.IH [of "bloom_insert w b x"] by auto
qed simp

text \<open>What is asked of the environment: the sizes the floating-point code computes fit their machine
  types and stay below sixteen bits per key (an error rate of one percent needs about ten), packing takes
  at most one byte per bit, and unpacking the packed bits gives the bits back, possibly followed by
  padding.\<close>

definition sst_env_ok :: "sst_env \<Rightarrow> bool" where
  "sst_env_ok w \<longleftrightarrow>
     (\<forall>n. se_num_bits w n < 2 ^ 64 \<and> se_num_bits w n \<le> 16 * n \<and> se_num_hashes w n < 2 ^ 32) \<and>
     (\<forall>bs. length (se_pack w bs) \<le> length bs \<and> (\<exists>pad. se_unpack w (se_pack w bs) = bs @ pad))"

lemma wf_bloom_new: "sst_env_ok w \<Longrightarrow> wf_bloom (bloom_new w n) \<and> bf_num_hashes (bloom_new w n) < 2 ^ 32"
  by (simp add: wf_bloom_def bloom_new_def sst_env_ok_def Let_def max_def)

lemma bloom_from_pack:
  assumes "sst_env_ok w" and "length (bf_bits b) = bf_num_bits b"
  shows "bloom_from_raw w (se_pack w (bf_bits b)) (bf_num_hashes b) (bf_num_bits b) = b"
proof -
  obtain pad where "se_unpack w (se_pack w (bf_bits b)) = bf_bits b @ pad"
    using assms(1) by (auto simp: sst_env_ok_def)
  then show ?thesis using assms(2) by (simp add: bloom_from_raw_def Let_def)
qed

text \<open>C16: the Bloom filter has no false negatives, also after it went to disk and back. After any list of
  keys has been inserted into a new filter of any size, the filter rebuilt from its raw bytes answers
  true for each of them, whatever the hash functions are, with all index arithmetic wrapping at 64 bits.\<close>

theorem bloom_no_false_negatives:
  fixes n :: nat
  assumes "sst_env_ok w" and "key \<in> set keys"
  defines "b \<equiv> fold (\<lambda>k b. bloom_insert w b k) keys (bloom_new w n)"
  shows "bloom_may_contain w (bloom_from_raw w (se_pack w (bf_bits b)) (bf_num_hashes b) (bf_num_bits b)) key = Some True"
proof -
  have wf: "wf_bloom b" and has: "bloom_has w b key"
    using bloom_has_fold [of "bloom_new w n" w keys] wf_bloom_new [OF assms(1), of n] assms(2) by (auto simp: b_def)
  then show ?thesis
    using bloom_from_pack [OF assms(1), of b] may_contain_has [OF wf] by (simp add: wf_bloom_def)
qed

definition demo_sst :: sst_env where
  "demo_sst = \<lparr>se_hash_pair = (\<lambda>k. (of_nat (length k), 7)), se_num_bits = (\<lambda>n. n mod 1000), se_num_hashes = (\<lambda>_. 3),
     se_pack = map (\<lambda>b. if b then 1 else 0), se_unpack = map (\<lambda>x. x = 1)\<rparr>"

lemma demo_sst_ok [simp]: "sst_env_ok demo_sst"
proof -
  have "map (\<lambda>x. x = 1) (map (\<lambda>b. if b then 1 else (0 :: byte)) bs) = bs" for bs
    by (induction bs) auto
  moreover have "n mod 1000 < (18446744073709551616 :: nat)" for n
    using mod_less_divisor [of 1000 n] by linarith
  moreover have "n mod 1000 \<le> 16 * n" for n :: nat
    using mod_less_eq_dividend [of n 1000] by linarith
  ultimately show ?thesis by (simp add: sst_env_ok_def demo_sst_def)
qed

theorem bloom_no_false_negatives_witness:
  "let b = fold (\<lambda>k b. bloom_insert demo_sst b k) [[1], [2, 3]] (bloom_new demo_sst 2)
   in bloom_may_contain demo_sst
        (bloom_from_raw demo_sst (se_pack demo_sst (bf_bits b)) (bf_num_hashes b) (bf_num_bits b)) [2, 3] = Some True"
  unfolding Let_def by (rule bloom_no_false_negatives) simp_all

end
