(* ===== verification/Sstable_Table.thy ===== *)
theory Sstable_Table
  imports Sstable
begin

text \<open>
  Writing and reading a whole table (\<open>raft-storage/src/sstable/writer.rs\<close>, \<open>reader.rs\<close>): the file the
  writer produces is opened by the reader, and lookups, iteration and range scans return exactly the
  entries that were added.
\<close>

section \<open>Layout of the file\<close>

abbreviation blocks_data :: "block_entry list list \<Rightarrow> bytes" where
  "blocks_data bs \<equiv> concat (map block_build bs)"

fun blocks_index :: "nat \<Rightarrow> block_entry list list \<Rightarrow> index_entry list" where
  "blocks_index off [] = []"
| "blocks_index off (b # bs) =
     \<lparr>ie_first_key = fst (hd b), ie_offset = off, ie_size = length (block_build b)\<rparr> #
     blocks_index (off + length (block_build b)) bs"

lemma blocks_index_snoc:
  "blocks_index off (bs @ [b]) = blocks_index off bs @
     [\<lparr>ie_first_key = fst (hd b), ie_offset = off + length (blocks_data bs), ie_size = length (block_build b)\<rparr>]"
  by (induction bs arbitrary: off) (simp_all add: add.assoc)

lemma length_blocks_index [simp]: "length (blocks_index off bs) = length bs"
  by (induction bs arbitrary: off) simp_all

lemma first_keys [simp]: "map ie_first_key (blocks_index off bs) = map (fst \<circ> hd) bs"
  by (induction bs arbitrary: off) simp_all

lemma blocks_index_nth:
  "i < length bs \<Longrightarrow> ie_offset (blocks_index off bs ! i) = off + length (blocks_data (take i bs)) \<and>
     ie_size (blocks_index off bs ! i) = length (block_build (bs ! i))"
  by (induction bs arbitrary: off i) (auto simp: nth_Cons' less_Suc_eq_0_disj)

definition writer_inv :: "sst_env \<Rightarrow> nat \<Rightarrow> sst_writer \<Rightarrow> block_entry list list \<Rightarrow> block_entry list \<Rightarrow> bool" where
  "writer_inv w n s bs es \<longleftrightarrow> (\<forall>b \<in> set bs. b \<noteq> []) \<and> sw_data s = blocks_data bs \<and> sw_index s = blocks_index 0 bs \<and>
     concat bs @ bb_entries (sw_current_block s) = es \<and>
     sw_bloom s = fold (\<lambda>k b. bloom_insert w b k) (map fst es) (bloom_new w n) \<and> sw_entry_count s = length es"

lemma writer_inv_flush:
  assumes "writer_inv w n s bs es" and "bb_entries (sw_current_block s) \<noteq> []"
  shows "writer_inv w n (flush_block s) (bs @ [bb_entries (sw_current_block s)]) es"
  using assms
  by (auto simp: writer_inv_def flush_block_def Let_def blocks_index_snoc block_builder_new_def block_first_key_def
      split: list.split)

lemma writer_inv_add:
  assumes "writer_inv w n s bs es"
  shows "\<exists>bs'. writer_inv w n (sst_add w s e) bs' (es @ [e])"
proof -
  let ?s1 = "s\<lparr>sw_bloom := bloom_insert w (sw_bloom s) (fst e),
      sw_current_block := block_add (sw_current_block s) (fst e) (snd e), sw_entry_count := sw_entry_count s + 1\<rparr>"
  have inv: "writer_inv w n ?s1 bs (es @ [e])" and ne: "bb_entries (sw_current_block ?s1) \<noteq> []"
    using assms by (auto simp: writer_inv_def block_add_def)
  show ?thesis
    using inv writer_inv_flush [OF inv ne] unfolding sst_add_def Let_def
    by (cases "sw_block_size ?s1 \<le> bb_size (sw_current_block ?s1)") auto
qed

lemma writer_inv_fold:
  "writer_inv w n s bs es \<Longrightarrow> \<exists>bs'. writer_inv w n (fold (\<lambda>e s. sst_add w s e) xs s) bs' (es @ xs)"
proof (induction xs arbitrary: s bs es)
  case (Cons x xs)
  from writer_inv_add [OF Cons.prems, of x] obtain bs1 where "writer_inv w n (sst_add w s x) bs1 (es @ [x])" by blast
  from Cons.IH [OF this] show ?case by simp
qed auto

text \<open>The bytes of the file for a division of the entries into blocks.\<close>

definition table_bloom :: "sst_env \<Rightarrow> block_entry list \<Rightarrow> bloom_filter" where
  "table_bloom w es = fold (\<lambda>k b. bloom_insert w b k) (map fst es) (bloom_new w (max (length es) 1))"

definition table_footer :: "sst_env \<Rightarrow> block_entry list list \<Rightarrow> footer" where
  "table_footer w bs =
     (let b = table_bloom w (concat bs); ix = encode_index (blocks_index 0 bs)
      in \<lparr>ft_index_offset = length (blocks_data bs), ft_index_size = length ix,
          ft_bloom_offset = length (blocks_data bs) + length ix, ft_bloom_size = 8 + length (se_pack w (bf_bits b)),
          ft_bloom_num_hashes = bf_num_hashes b\<rparr>)"

definition table_file :: "sst_env \<Rightarrow> block_entry list list \<Rightarrow> bytes" where
  "table_file w bs =
     (let b = table_bloom w (concat bs)
      in blocks_data bs @ encode_index (blocks_index 0 bs) @ (le_bytes 8 (bf_num_bits b) @ se_pack w (bf_bits b)) @
         footer_encode (table_footer w bs))"

lemma write_sstable_layout:
  "\<exists>bs. (\<forall>b \<in> set bs. b \<noteq> []) \<and> concat bs = es \<and>
     write_sstable w block_size es =
       (table_file w bs, \<lparr>si_entry_count = length es, si_file_size = length (table_file w bs)\<rparr>)"
proof -
  let ?n = "max (length es) 1"
  let ?init = "sst_writer_new w block_size (length es)"
  let ?s = "fold (\<lambda>e s. sst_add w s e) es ?init"
  have "writer_inv w ?n ?init [] []" by (simp add: writer_inv_def sst_writer_new_def block_builder_new_def)
  from writer_inv_fold [OF this] obtain bs where inv: "writer_inv w ?n ?s bs es" by auto
  define s where "s = (if bb_entries (sw_current_block ?s) = [] then ?s else flush_block ?s)"
  have "\<exists>bs. writer_inv w ?n s bs es \<and> bb_entries (sw_current_block s) = []"
    using inv writer_inv_flush [OF inv] by (auto simp: s_def flush_block_def Let_def block_builder_new_def)
  then obtain bs' where inv': "writer_inv w ?n s bs' es" and e: "bb_entries (sw_current_block s) = []" by blast
  have "write_sstable w block_size es =
      (table_file w bs', \<lparr>si_entry_count = length es, si_file_size = length (table_file w bs')\<rparr>)"
    unfolding write_sstable_def sst_finish_def s_def [symmetric]
    using inv' e by (simp add: Let_def table_file_def table_footer_def table_bloom_def writer_inv_def)
  then show ?thesis using inv' e by (auto simp: writer_inv_def)
qed

section \<open>Opening\<close>

lemma bloom_fold_fields [simp]:
  "bf_num_hashes (fold (\<lambda>k b. bloom_insert w b k) ks b) = bf_num_hashes b"
  "bf_num_bits (fold (\<lambda>k b. bloom_insert w b k) ks b) = bf_num_bits b"
  by (induction ks arbitrary: b) simp_all

lemma wf_table_bloom:
  assumes "sst_env_ok w"
  shows "wf_bloom (table_bloom w es)" "bf_num_hashes (table_bloom w es) < 2 ^ 32"
    "k \<in> fst ` set es \<Longrightarrow> bloom_has w (table_bloom w es) k"
proof -
  let ?b = "bloom_new w (max (length es) 1)"
  show "wf_bloom (table_bloom w es)" "k \<in> fst ` set es \<Longrightarrow> bloom_has w (table_bloom w es) k"
    using bloom_has_fold [of ?b w "map fst es"] wf_bloom_new [OF assms, of "max (length es) 1"]
    by (auto simp: table_bloom_def)
  show "bf_num_hashes (table_bloom w es) < 2 ^ 32"
    using wf_bloom_new [OF assms, of "max (length es) 1"] by (simp add: table_bloom_def)
qed

lemma length_table_file:
  "length (table_file w bs) = ft_bloom_offset (table_footer w bs) + ft_bloom_size (table_footer w bs) + FOOTER_SIZE"
  by (simp add: table_file_def table_footer_def footer_encode_def FOOTER_SIZE_def Let_def)

lemma index_fits_blocks:
  "\<forall>b \<in> set bs. b \<noteq> [] \<and> (\<forall>e \<in> set b. storable e) \<Longrightarrow> off + length (blocks_data bs) < 2 ^ 64 \<Longrightarrow>
     \<forall>e \<in> set (blocks_index off bs). index_fits e"
proof (induction bs arbitrary: off)
  case (Cons b bs)
  then have "hd b \<in> set b" by simp
  then have "length (fst (hd b)) < 2 ^ 32" using Cons.prems(1) by (simp add: storable_def)
  moreover have "\<forall>e \<in> set (blocks_index (off + length (block_build b)) bs). index_fits e"
    using Cons.IH [of "off + length (block_build b)"] Cons.prems by (simp add: add.assoc)
  ultimately show ?case using Cons.prems(2) by (simp add: index_fits_def)
qed simp

lemma sst_open_table:
  assumes "sst_env_ok w" and "\<forall>b \<in> set bs. b \<noteq> [] \<and> (\<forall>e \<in> set b. storable e)" and "length bs < 2 ^ 32"
    and "length (table_file w bs) < 2 ^ 64"
  shows "sst_open w (table_file w bs) =
     Some (Inr \<lparr>sr_data = table_file w bs, sr_index = blocks_index 0 bs, sr_bloom = table_bloom w (concat bs)\<rparr>)"
proof -
  let ?b = "table_bloom w (concat bs)" and ?f = "table_footer w bs"
  let ?ix = "encode_index (blocks_index 0 bs)" and ?bl = "le_bytes 8 (bf_num_bits ?b) @ se_pack w (bf_bits ?b)"
  note wb = wf_table_bloom [OF assms(1), where es = "concat bs"]
  have len: "length (table_file w bs) = length (blocks_data bs) + length ?ix + length ?bl + 40"
    by (simp add: length_table_file table_footer_def FOOTER_SIZE_def Let_def)
  have fsz: "ft_index_offset ?f = length (blocks_data bs)" "ft_index_size ?f = length ?ix"
    "ft_bloom_offset ?f = length (blocks_data bs) + length ?ix" "ft_bloom_size ?f = length ?bl"
    "ft_bloom_num_hashes ?f = bf_num_hashes ?b"
    by (simp_all add: table_footer_def Let_def)
  have dec: "footer_decode (footer_encode ?f) = Inr ?f" and flen: "length (footer_encode ?f) = 40"
    using footer_decode_encode [of ?f] fsz len assms(4) wb(2) by (simp_all add: FOOTER_SIZE_def)
  have fl: "table_file w bs = blocks_data bs @ ?ix @ ?bl @ footer_encode ?f"
    by (simp add: table_file_def Let_def)
  have "drop (length (table_file w bs) - 40) (table_file w bs) = footer_encode ?f"
    using len flen by (simp add: fl)
  moreover have "take (length ?ix) (drop (length (blocks_data bs)) (table_file w bs)) = ?ix"
    by (simp add: fl)
  moreover have "take (length ?bl) (drop (length (blocks_data bs) + length ?ix) (table_file w bs)) = ?bl"
    by (simp add: fl)
  moreover have "parse_index ?ix = Inr (blocks_index 0 bs)"
    using index_fits_blocks [OF assms(2), of 0] assms(3,4) len by (intro parse_index_encode) simp_all
  moreover have "parse_bloom w ?bl (bf_num_hashes ?b) = Inr ?b"
    using bloom_from_pack [OF assms(1), of ?b] wb(1) by (simp add: parse_bloom_def wf_bloom_def le_value_small)
  ultimately show ?thesis
    using len dec assms(4) unfolding sst_open_def FOOTER_SIZE_def by (simp add: fsz Let_def del: length_append)
qed

section \<open>Reading\<close>

lemma block_slice_nth:
  assumes "i < length bs" and "sr_data r = blocks_data bs @ rest"
  shows "block_slice r (blocks_index 0 bs ! i) = Some (block_build (bs ! i))"
proof -
  have "blocks_data bs = blocks_data (take i bs) @ block_build (bs ! i) @ blocks_data (drop (Suc i) bs)"
    using assms(1) by (metis append_Cons append_Nil concat.simps(2) concat_append id_take_nth_drop list.simps(9) map_append)
  then have "sr_data r = blocks_data (take i bs) @ block_build (bs ! i) @ (blocks_data (drop (Suc i) bs) @ rest)"
    using assms(2) by simp
  then show ?thesis
    using blocks_index_nth [OF assms(1), of 0] unfolding block_slice_def by (simp add: subslice_def)
qed

lemma iter_blocks_table:
  assumes "\<forall>b \<in> set bs. (\<forall>e \<in> set b. storable e) \<and> length b < 2 ^ 32"
    and "sr_data r = pre @ blocks_data bs @ rest"
  shows "iter_blocks r (blocks_index (length pre) bs) = Some (Inr (concat bs))"
  using assms
proof (induction bs arbitrary: pre)
  case (Cons b bs)
  have "block_slice r \<lparr>ie_first_key = fst (hd b), ie_offset = length pre, ie_size = length (block_build b)\<rparr> = Some (block_build b)"
    using Cons.prems(2) by (simp add: block_slice_def subslice_def)
  moreover have "read_entries (block_build b) = Inr b" using Cons.prems(1) by (simp add: read_entries_build)
  moreover have "iter_blocks r (blocks_index (length pre + length (block_build b)) bs) = Some (Inr (concat bs))"
    using Cons.IH [of "pre @ block_build b"] Cons.prems by simp
  ultimately show ?case by simp
qed simp

lemma scan_loop_range: "sorted_map es \<Longrightarrow> scan_loop a b es = bt_range a b es"
proof (induction a b es rule: scan_loop.induct)
  case (2 a b k v es)
  have "bt_range a b es = []" if "b \<le> k"
    using "2.prems" that by (auto simp: bt_range_def filter_empty_conv)
  then show ?case using 2 by (auto simp: bt_range_def)
qed (simp add: bt_range_def)

lemma sorted_map_keys: "sorted_map es \<Longrightarrow> sorted (map fst es)"
  by (simp add: sorted_map_def strict_sorted_imp_sorted)

lemma block_search_lookup:
  assumes "sorted_map es"
  shows "(case block_search es key of Some i \<Rightarrow> Some (snd (es ! i)) | None \<Rightarrow> None) = map_of es key"
proof -
  note b = binary_search_spec [OF sorted_map_keys [OF assms], of key]
  show ?thesis
  proof (cases "binary_search (map fst es) key")
    case (Inl i)
    then have "map_of es key = None" using b by (simp add: map_of_eq_None_iff)
    then show ?thesis using Inl by (simp add: block_search_def)
  next
    case (Inr i)
    then have "i < length es" "fst (es ! i) = key" using b by auto
    then have "map_of es key = Some (snd (es ! i))"
      using sorted_map_distinct [OF assms] by (metis map_of_eq_Some_iff nth_mem prod.collapse)
    then show ?thesis using Inr by (simp add: block_search_def)
  qed
qed

text \<open>The block that binary search selects is the only one that can hold the key.\<close>

lemma map_of_concat_block:
  assumes "sorted_map (concat bs)" and "\<forall>b \<in> set bs. b \<noteq> []" and "j < length bs"
    and "j = 0 \<or> fst (hd (bs ! j)) \<le> key" and "\<forall>m. j < m \<longrightarrow> m < length bs \<longrightarrow> key < fst (hd (bs ! m))"
  shows "map_of (concat bs) key = map_of (bs ! j) key"
proof -
  have cc: "concat bs = concat (take j bs) @ bs ! j @ concat (drop (Suc j) bs)"
    using assms(3) by (metis append_Cons append_Nil concat.simps(2) concat_append id_take_nth_drop)
  have hd: "hd (bs ! j) \<in> set (bs ! j)" using assms(2,3) by simp
  have "key \<notin> fst ` set (concat (take j bs))"
  proof (cases "j = 0")
    case False
    have "x < fst (hd (bs ! j))" if "x \<in> fst ` set (concat (take j bs))" for x
      using assms(1) that hd unfolding cc sorted_map_append by fastforce
    then show ?thesis using False assms(4) by fastforce
  qed simp
  moreover have "key \<notin> fst ` set (concat (drop (Suc j) bs))"
  proof
    assume "key \<in> fst ` set (concat (drop (Suc j) bs))"
    then obtain b e where "b \<in> set (drop (Suc j) bs)" "e \<in> set b" "fst e = key" by auto
    then obtain l where l: "l < length bs - Suc j" "b = bs ! (Suc j + l)" by (auto simp: in_set_conv_nth)
    define m where "m = Suc j + l"
    have m: "j < m" "m < length bs" "e \<in> set (bs ! m)"
      using l \<open>e \<in> set b\<close> by (simp_all add: m_def)
    have "sorted_map (bs ! m)"
      using assms(1) m(2) by (metis concat.simps(2) concat_append id_take_nth_drop sorted_map_append)
    then have "fst (hd (bs ! m)) \<le> key" using m(3) \<open>fst e = key\<close> by (cases "bs ! m") (auto simp: less_imp_le)
    then show False using assms(5) m by fastforce
  qed
  ultimately have "map_of (concat (take j bs)) key = None" "map_of (concat (drop (Suc j) bs)) key = None"
    by (simp_all only: map_of_eq_None_iff not_False_eq_True)
  then show ?thesis unfolding cc by (simp add: map_add_def split: option.split)
qed

lemma concat_heads_less:
  assumes "sorted_map (concat bs)" and "\<forall>b \<in> set bs. b \<noteq> []" and "i < m" and "m < length bs"
  shows "fst (hd (bs ! i)) < fst (hd (bs ! m))"
proof -
  have "concat bs = concat (take m bs) @ bs ! m @ concat (drop (Suc m) bs)"
    using assms(4) by (metis append_Cons append_Nil concat.simps(2) concat_append id_take_nth_drop)
  then have less: "\<forall>x \<in> fst ` set (concat (take m bs)). \<forall>y \<in> fst ` set (bs ! m @ concat (drop (Suc m) bs)). x < y"
    using assms(1) by (metis sorted_map_append)
  have ne: "bs ! i \<noteq> []" "bs ! m \<noteq> []" using assms by simp_all
  have "bs ! i \<in> set (take m bs)"
    using assms(3,4) by (metis in_set_conv_nth length_take min.absorb2 nth_take order.strict_implies_order)
  then have "hd (bs ! i) \<in> \<Union> (set ` set (take m bs))" using hd_in_set [OF ne(1)] by blast
  then have "fst (hd (bs ! i)) \<in> fst ` set (concat (take m bs))" by simp
  moreover have "fst (hd (bs ! m)) \<in> fst ` set (bs ! m @ concat (drop (Suc m) bs))" using ne(2) by simp
  ultimately show ?thesis using less by blast
qed

lemma find_block_correct:
  assumes "sorted_map (concat bs)" and "\<forall>b \<in> set bs. b \<noteq> []" and "sr_index r = blocks_index 0 bs" and "bs \<noteq> []"
  shows "find_block r key < length bs \<and> map_of (concat bs) key = map_of (bs ! find_block r key) key"
proof -
  let ?fk = "map (fst \<circ> hd) bs"
  have srt: "sorted ?fk"
    using concat_heads_less [OF assms(1,2)] by (auto simp: sorted_iff_nth_mono_less less_imp_le)
  note b = binary_search_spec [OF srt, of key]
  have "find_block r key < length bs \<and> (find_block r key = 0 \<or> fst (hd (bs ! find_block r key)) \<le> key) \<and>
      (\<forall>m. find_block r key < m \<longrightarrow> m < length bs \<longrightarrow> key < fst (hd (bs ! m)))"
  proof (cases "binary_search ?fk key")
    case (Inr i)
    then have i: "find_block r key = i" "i < length bs" "fst (hd (bs ! i)) = key"
      using b assms(3) by (auto simp: find_block_def)
    have "key < fst (hd (bs ! m))" if "i < m" "m < length bs" for m
      using concat_heads_less [OF assms(1,2) that] i(3) by simp
    then show ?thesis using i by (intro conjI allI impI) simp_all
  next
    case (Inl i)
    then have i: "find_block r key = i - 1" "i \<le> length bs" "\<forall>j < i. fst (hd (bs ! j)) < key"
      "\<forall>j. i \<le> j \<longrightarrow> j < length bs \<longrightarrow> key < fst (hd (bs ! j))"
      using b assms(3) by (auto simp: find_block_def)
    then show ?thesis using assms(4) by (cases i) (auto simp: less_imp_le Suc_le_eq)
  qed
  then show ?thesis using map_of_concat_block [OF assms(1,2)] by blast
qed

lemma sst_get_table:
  assumes "sst_env_ok w" and "sorted_map (concat bs)"
    and "\<forall>b \<in> set bs. b \<noteq> [] \<and> (\<forall>e \<in> set b. storable e) \<and> length b < 2 ^ 32"
    and r: "sr_data r = blocks_data bs @ rest" "sr_index r = blocks_index 0 bs" "sr_bloom r = table_bloom w (concat bs)"
  shows "sst_get w r key = Some (Inr (map_of (concat bs) key))"
proof (cases "bloom_has w (table_bloom w (concat bs)) key")
  case False
  then have "key \<notin> fst ` set (concat bs)" using wf_table_bloom(3) [OF assms(1)] by blast
  then have "map_of (concat bs) key = None" unfolding map_of_eq_None_iff .
  then show ?thesis
    using False may_contain_has [OF wf_table_bloom(1) [OF assms(1)]] by (simp add: sst_get_def r)
next
  case True
  then have mc: "bloom_may_contain w (sr_bloom r) key = Some True"
    using may_contain_has [OF wf_table_bloom(1) [OF assms(1)]] by (simp add: r)
  show ?thesis
  proof (cases "bs = []")
    case True
    then show ?thesis using mc by (simp add: sst_get_def r find_block_def binary_search_def)
  next
    case False
    define j where "j = find_block r key"
    have j: "j < length bs" "map_of (concat bs) key = map_of (bs ! j) key"
      using find_block_correct [OF assms(2) _ r(2) False, of key] assms(3) by (auto simp: j_def)
    have bj: "bs ! j \<in> set bs" using j(1) by simp
    have sj: "sorted_map (bs ! j)"
      using assms(2) j(1) by (metis concat.simps(2) concat_append id_take_nth_drop sorted_map_append)
    have rd: "read_entries (block_build (bs ! j)) = Inr (bs ! j)" using assms(3) bj by (simp add: read_entries_build)
    show ?thesis
      using mc block_slice_nth [OF j(1) r(1)] rd j block_search_lookup [OF sj, of key]
      by (simp add: sst_get_def r(2) j_def [symmetric] split: option.splits)
  qed
qed

text \<open>What a reader answers that has opened a table with the entries \<open>es\<close>.\<close>

definition reads :: "sst_env \<Rightarrow> sst_reader \<Rightarrow> block_entry list \<Rightarrow> bool" where
  "reads w r es \<longleftrightarrow>
     (\<forall>key. sst_get w r key = Some (Inr (map_of es key))) \<and> sst_iter r = Some (Inr es) \<and>
     (\<forall>a b. sst_scan r a b = Some (Inr (bt_range a b es)))"

lemma length_concat_ge: "\<forall>b \<in> set bs. b \<noteq> [] \<Longrightarrow> length bs \<le> length (concat bs)"
proof (induction bs)
  case (Cons b bs)
  then have "length bs \<le> length (concat bs)" "0 < length b" by auto
  then show ?case by (simp del: length_greater_0_conv)
qed simp

lemma length_block_le: "b \<in> set bs \<Longrightarrow> length b \<le> length (concat bs)"
  by (induction bs) auto

lemma write_sstable_reads:
  assumes "sst_env_ok w" and "sorted_map es" and "\<forall>e \<in> set es. storable e" and "length es < 2 ^ 32"
    and "write_sstable w block_size es = (data, info)" and "length data < 2 ^ 64"
  shows "\<exists>r. sst_open w data = Some (Inr r) \<and> reads w r es"
    and "info = \<lparr>si_entry_count = length es, si_file_size = length data\<rparr>"
proof -
  obtain bs where bs: "\<forall>b \<in> set bs. b \<noteq> []" "concat bs = es" and wr: "data = table_file w bs"
    and info: "info = \<lparr>si_entry_count = length es, si_file_size = length data\<rparr>"
    using write_sstable_layout [of es w block_size] assms(5) by auto
  show "info = \<lparr>si_entry_count = length es, si_file_size = length data\<rparr>" by (rule info)
  have small: "\<forall>b \<in> set bs. b \<noteq> [] \<and> (\<forall>e \<in> set b. storable e) \<and> length b < 2 ^ 32"
    using bs assms(3,4) length_block_le [of _ bs] by (fastforce dest: le_less_trans)
  then have st: "\<forall>b \<in> set bs. b \<noteq> [] \<and> (\<forall>e \<in> set b. storable e)" by blast
  define r where "r = \<lparr>sr_data = data, sr_index = blocks_index 0 bs, sr_bloom = table_bloom w es\<rparr>"
  have op: "sst_open w data = Some (Inr r)"
    using sst_open_table [OF assms(1) st] length_concat_ge [OF bs(1)] assms(4,6) by (simp add: wr r_def bs(2))
  obtain rest where d: "data = blocks_data bs @ rest" by (simp add: wr table_file_def Let_def)
  have "sst_get w r key = Some (Inr (map_of es key))" for key
    using sst_get_table [OF assms(1) _ small, of r rest key] assms(2) by (simp add: r_def bs(2) d [symmetric])
  moreover have it: "sst_iter r = Some (Inr es)"
    using iter_blocks_table [of bs r "[]" rest] small by (simp add: sst_iter_def r_def bs(2) d)
  moreover have "sst_scan r a b = Some (Inr (bt_range a b es))" for a b
    using it scan_loop_range [OF assms(2)] by (simp add: sst_scan_def)
  ultimately show "\<exists>r. sst_open w data = Some (Inr r) \<and> reads w r es" using op by (auto simp: reads_def)
qed

text \<open>The size of a table file is linear in what it stores.\<close>

lemma data_size_simps [simp]:
  "data_size [] = 0" "data_size (e # es) = length (fst e) + value_len (snd e) + data_size es"
  "data_size (xs @ ys) = data_size xs + data_size ys"
  by (simp_all add: data_size_def case_prod_beta)

lemma length_block_build: "length (block_build b) = 8 * length b + data_size b + 4"
proof -
  have "length (concat (map encode_block_entry b)) = 8 * length b + data_size b"
    by (induction b) (auto simp: encode_block_entry_def value_len_def split: option.split)
  then show ?thesis by (simp add: block_build_def)
qed

lemma length_blocks_bound:
  "\<forall>b \<in> set bs. b \<noteq> [] \<Longrightarrow>
     length (blocks_data bs) + length (concat (map encode_index_entry (blocks_index off bs))) \<le>
       2 * data_size (concat bs) + 32 * length (concat bs)"
proof (induction bs arbitrary: off)
  case (Cons b bs)
  then obtain e es where b: "b = e # es" by (cases b) auto
  have "length (encode_index_entry \<lparr>ie_first_key = fst e, ie_offset = off, ie_size = n\<rparr>) = 20 + length (fst e)" for n
    by (simp add: encode_index_entry_def)
  then show ?case
    using Cons.IH [of "off + length (block_build b)"] Cons.prems by (simp add: b length_block_build)
qed simp

lemma write_sstable_size:
  assumes "sst_env_ok w"
  shows "length (fst (write_sstable w block_size es)) \<le> 2 * data_size es + 48 * length es + 68"
proof -
  obtain bs where bs: "\<forall>b \<in> set bs. b \<noteq> []" "concat bs = es" "fst (write_sstable w block_size es) = table_file w bs"
    using write_sstable_layout [of es w block_size] by auto
  let ?b = "table_bloom w es"
  have "wf_bloom ?b" by (rule wf_table_bloom(1) [OF assms])
  moreover have "bf_num_bits ?b = bf_num_bits (bloom_new w (max (length es) 1))"
    by (simp add: table_bloom_def)
  ultimately have "length (bf_bits ?b) = max (se_num_bits w (max (length es) 1)) 8"
    by (simp add: wf_bloom_def bloom_new_def Let_def)
  moreover have "se_num_bits w (max (length es) 1) \<le> 16 * max (length es) 1"
    using assms unfolding sst_env_ok_def by blast
  ultimately have "length (bf_bits ?b) \<le> 16 * length es + 16" by simp
  moreover have "length (se_pack w (bf_bits ?b)) \<le> length (bf_bits ?b)"
    using assms unfolding sst_env_ok_def by blast
  ultimately have "length (se_pack w (bf_bits ?b)) \<le> 16 * length es + 16" by simp
  then show ?thesis
    using length_blocks_bound [OF bs(1), of 0] by (simp add: bs length_table_file table_footer_def encode_index_def FOOTER_SIZE_def Let_def)
qed

text \<open>C17: an SSTable returns exactly what was written. For entries in strictly ascending key order whose
  lengths fit the file's four-byte fields, the file the writer produces opens without error, whatever
  the block size; a lookup of any key returns the value or the tombstone stored for it, or nothing if
  the key was not added; iteration returns all entries in order; a range scan returns the entries of the
  range. The hash functions and the filter size are arbitrary.\<close>

theorem sstable_round_trip:
  assumes "sst_env_ok w" and "sorted_map es" and "\<forall>e \<in> set es. storable e" and "length es < 2 ^ 32"
    and "write_sstable w block_size es = (data, info)" and "length data < 2 ^ 64"
  shows "\<exists>r. sst_open w data = Some (Inr r) \<and> (\<forall>key. sst_get w r key = Some (Inr (map_of es key))) \<and>
     sst_iter r = Some (Inr es) \<and> (\<forall>a b. sst_scan r a b = Some (Inr (bt_range a b es))) \<and>
     si_entry_count info = length es \<and> si_file_size info = length data"
  using write_sstable_reads [OF assms] by (simp add: reads_def)

definition demo_table :: "bytes \<times> sst_info" where
  "demo_table = write_sstable demo_sst 8 [([1], Some [9]), ([2], None), ([2, 0], Some [])]"

lemma length_demo_table: "length (fst demo_table) < 1000"
  by (simp add: demo_table_def write_sstable_def sst_finish_def sst_add_def flush_block_def sst_writer_new_def
      block_add_def block_builder_new_def bloom_new_def bloom_insert_def bloom_indices_def demo_sst_def Let_def
      encode_index_def encode_index_entry_def footer_encode_def block_build_def encode_block_entry_def
      block_first_key_def fold_set_true)

theorem sstable_round_trip_witness:
  "\<exists>r. sst_open demo_sst (fst demo_table) = Some (Inr r) \<and> sst_get demo_sst r [2] = Some (Inr (Some None)) \<and>
     sst_get demo_sst r [3] = Some (Inr None) \<and> sst_scan r [1] [2] = Some (Inr [([1], Some [9])])"
proof -
  have rng: "bt_range [1] [2] [([1], Some [9]), ([2], None), ([2, 0], Some [])] = [([1 :: byte], Some [9 :: byte])]"
    by (simp add: bt_range_def)
  have "\<exists>r. sst_open demo_sst (fst demo_table) = Some (Inr r) \<and>
     (\<forall>key. sst_get demo_sst r key = Some (Inr (map_of [([1], Some [9]), ([2], None), ([2, 0], Some [])] key))) \<and>
     sst_iter r = Some (Inr [([1], Some [9]), ([2], None), ([2, 0], Some [])]) \<and>
     (\<forall>a b. sst_scan r a b = Some (Inr (bt_range a b [([1], Some [9]), ([2], None), ([2, 0], Some [])]))) \<and>
     si_entry_count (snd demo_table) = length [([1 :: byte], Some [9 :: byte]), ([2], None), ([2, 0], Some [])] \<and>
     si_file_size (snd demo_table) = length (fst demo_table)"
    by (rule sstable_round_trip [where block_size = 8])
      (use length_demo_table in \<open>simp_all add: demo_table_def storable_def sorted_map_def TOMBSTONE_MARKER_def value_len_def\<close>)
  then show ?thesis using rng by auto
qed

end
