(* ===== verification/Manifest.thy ===== *)
theory Manifest
  imports Sstable_Table
begin

text \<open>
  The manifest of the LSM tree (\<open>raft-storage/src/compaction/manifest.rs\<close>): which SSTables exist on
  which level. The files of the data directory are a map from names to contents; the JSON codec of the
  crate \<open>serde_json\<close> is a parameter, and the outcome of each file-system call is an argument.
  Lemmas: identifiers stay unique and below the counter, an entry is stored on the level it names, and a
  saved manifest is the one that is loaded.
\<close>

type_synonym files = "string \<rightharpoonup> bytes"

record sst_entry =
  te_id :: nat
  te_level :: nat
  te_file_name :: string
  te_min_key :: bytes
  te_max_key :: bytes
  te_entry_count :: nat
  te_file_size :: nat

record manifest =
  mf_levels :: "sst_entry list list"
  mf_next_sst_id :: nat

section \<open>Operations\<close>

definition manifest_new :: "nat \<Rightarrow> manifest" where
  "manifest_new num_levels = \<lparr>mf_levels = map (\<lambda>_. []) [0..<num_levels], mf_next_sst_id = 0\<rparr>"

definition sst_file_name :: "nat \<Rightarrow> string" where
  "sst_file_name sst_id = pad_decimal 8 sst_id @ ''.sst''"

definition next_sst_filename :: "manifest \<Rightarrow> (nat \<times> string) \<times> manifest" where
  "next_sst_filename m =
     (let sst_id = mf_next_sst_id m
      in ((sst_id, sst_file_name sst_id), m\<lparr>mf_next_sst_id := sst_id + 1\<rparr>))"

definition add_sstable :: "manifest \<Rightarrow> sst_entry \<Rightarrow> manifest" where
  "add_sstable m entry =
     (let level = te_level entry;
          levels = (if level \<ge> length (mf_levels m)
                    then mf_levels m @ replicate (level + 1 - length (mf_levels m)) []
                    else mf_levels m)
      in m\<lparr>mf_levels := levels[level := levels ! level @ [entry]]\<rparr>)"

definition remove_sstables :: "manifest \<Rightarrow> nat list \<Rightarrow> manifest" where
  "remove_sstables m ids = m\<lparr>mf_levels := map (filter (\<lambda>e. te_id e \<notin> set ids)) (mf_levels m)\<rparr>"

definition manifest_level :: "manifest \<Rightarrow> nat \<Rightarrow> sst_entry list" where
  "manifest_level m level = (case vec_get (mf_levels m) level of None \<Rightarrow> [] | Some l \<Rightarrow> l)"

definition level_count :: "manifest \<Rightarrow> nat \<Rightarrow> nat" where
  "level_count m level = (case vec_get (mf_levels m) level of None \<Rightarrow> 0 | Some l \<Rightarrow> length l)"

definition num_levels :: "manifest \<Rightarrow> nat" where
  "num_levels m = length (mf_levels m)"

definition manifest_load ::
  "(bytes \<Rightarrow> manifest option) \<Rightarrow> bool \<Rightarrow> files \<Rightarrow> string \<Rightarrow> nat \<Rightarrow> manifest result" where
  "manifest_load dec read_ok fs path levels =
     (case fs path of
        None \<Rightarrow> Inr (manifest_new levels)
      | Some data \<Rightarrow>
          if \<not> read_ok then Inl (Io ''read'')
          else if \<not> utf8_valid data then Inl (Io ''invalid utf-8'')
          else (case dec data of None \<Rightarrow> Inl (Corruption ''manifest parse error'') | Some m \<Rightarrow> Inr m))"

definition write_to :: "io_outcome \<Rightarrow> string \<Rightarrow> bytes \<Rightarrow> files \<Rightarrow> unit result \<times> files" where
  "write_to io name data fs =
     (case io of
        IoOk \<Rightarrow> (Inr (), fs(name \<mapsto> data))
      | IoRefused \<Rightarrow> (Inl (Io ''write''), fs)
      | IoShort n \<Rightarrow> (Inl (Io ''write''), fs(name \<mapsto> take n data)))"

definition rename_to :: "bool \<Rightarrow> string \<Rightarrow> string \<Rightarrow> files \<Rightarrow> unit result \<times> files" where
  "rename_to ok tmp path fs =
     (case fs tmp of
        Some data \<Rightarrow> if ok then (Inr (), (fs(tmp := None))(path \<mapsto> data)) else (Inl (Io ''rename''), fs)
      | None \<Rightarrow> (Inl (Io ''rename''), fs))"

text \<open>\<open>path.with_extension("tmp")\<close> for a name without an extension, as the manifest's is.\<close>

definition manifest_save ::
  "(manifest \<Rightarrow> bytes option) \<Rightarrow> io_outcome \<Rightarrow> bool \<Rightarrow> manifest \<Rightarrow> string \<Rightarrow> files \<Rightarrow> unit result \<times> files" where
  "manifest_save enc write_io rename_ok m path fs =
     (case enc m of
        None \<Rightarrow> (Inl (Storage ''manifest serialize error''), fs)
      | Some data \<Rightarrow>
          (case write_to write_io (path @ ''.tmp'') data fs of
             (Inl e, fs1) \<Rightarrow> (Inl e, fs1)
           | (Inr _, fs1) \<Rightarrow> rename_to rename_ok (path @ ''.tmp'') path fs1))"

section \<open>Well-formed manifests\<close>

definition all_tables :: "manifest \<Rightarrow> sst_entry list" where
  "all_tables m = concat (mf_levels m)"

definition wf_manifest :: "manifest \<Rightarrow> bool" where
  "wf_manifest m \<longleftrightarrow>
     distinct (map te_id (all_tables m)) \<and>
     (\<forall>e \<in> set (all_tables m). te_id e < mf_next_sst_id m \<and> te_file_name e = sst_file_name (te_id e)) \<and>
     (\<forall>l < num_levels m. \<forall>e \<in> set (manifest_level m l). te_level e = l)"

lemma level_count_length [simp]: "level_count m l = length (manifest_level m l)"
  by (simp add: level_count_def manifest_level_def split: option.split)

lemma manifest_level_nth: "l < num_levels m \<Longrightarrow> manifest_level m l = mf_levels m ! l"
  by (simp add: manifest_level_def vec_get_def num_levels_def)

lemma manifest_level_out: "num_levels m \<le> l \<Longrightarrow> manifest_level m l = []"
  by (simp add: manifest_level_def vec_get_def num_levels_def)

lemma all_tables_levels: "all_tables m = concat (map (manifest_level m) [0..<num_levels m])"
proof -
  have "mf_levels m = map (manifest_level m) [0..<num_levels m]"
    by (rule nth_equalityI) (simp_all add: num_levels_def manifest_level_nth [unfolded num_levels_def])
  then show ?thesis unfolding all_tables_def by simp
qed

lemma manifest_new_simps [simp]:
  "all_tables (manifest_new n) = []" "num_levels (manifest_new n) = n" "manifest_level (manifest_new n) l = []"
  "mf_next_sst_id (manifest_new n) = 0"
  by (auto simp: all_tables_def manifest_new_def num_levels_def manifest_level_def vec_get_def)

lemma wf_manifest_new [simp]: "wf_manifest (manifest_new n)"
  by (simp add: wf_manifest_def)

lemma next_sst_filename_simps:
  assumes "next_sst_filename m = ((i, name), m')"
  shows "i = mf_next_sst_id m" "name = sst_file_name i" "m' = m\<lparr>mf_next_sst_id := Suc i\<rparr>"
  using assms by (auto simp: next_sst_filename_def Let_def)

lemma next_sst_preserves [simp]:
  "all_tables (m\<lparr>mf_next_sst_id := i\<rparr>) = all_tables m" "num_levels (m\<lparr>mf_next_sst_id := i\<rparr>) = num_levels m"
  "manifest_level (m\<lparr>mf_next_sst_id := i\<rparr>) l = manifest_level m l"
  by (simp_all add: all_tables_def num_levels_def manifest_level_def)

lemma wf_next_sst: "wf_manifest m \<Longrightarrow> mf_next_sst_id m \<le> i \<Longrightarrow> wf_manifest (m\<lparr>mf_next_sst_id := i\<rparr>)"
  by (fastforce simp: wf_manifest_def)

lemma manifest_level_add:
  "manifest_level (add_sstable m e) l = (if l = te_level e then manifest_level m l @ [e] else manifest_level m l)"
  by (auto simp: add_sstable_def manifest_level_def vec_get_def Let_def nth_append)

lemma num_levels_add [simp]: "num_levels (add_sstable m e) = max (num_levels m) (Suc (te_level e))"
  by (auto simp: add_sstable_def num_levels_def Let_def max_def)

lemma next_id_add [simp]: "mf_next_sst_id (add_sstable m e) = mf_next_sst_id m"
  by (simp add: add_sstable_def Let_def)

lemma manifest_level_remove:
  "manifest_level (remove_sstables m ids) l = filter (\<lambda>e. te_id e \<notin> set ids) (manifest_level m l)"
  by (simp add: remove_sstables_def manifest_level_def vec_get_def)

lemma num_levels_remove [simp]: "num_levels (remove_sstables m ids) = num_levels m"
  by (simp add: remove_sstables_def num_levels_def)

lemma next_id_remove [simp]: "mf_next_sst_id (remove_sstables m ids) = mf_next_sst_id m"
  by (simp add: remove_sstables_def)

lemma all_tables_remove: "all_tables (remove_sstables m ids) = filter (\<lambda>e. te_id e \<notin> set ids) (all_tables m)"
  by (simp add: all_tables_def remove_sstables_def filter_concat)

lemma set_all_tables: "set (all_tables m) = (\<Union>l. set (manifest_level m l))"
proof -
  have "(\<Union>l \<in> {0..<num_levels m}. set (manifest_level m l)) = (\<Union>l. set (manifest_level m l))"
  proof (intro equalityI subsetI)
    fix e assume "e \<in> (\<Union>l. set (manifest_level m l))"
    then obtain l where l: "e \<in> set (manifest_level m l)" by blast
    then have "l < num_levels m" using manifest_level_out [of m l] by (cases "l < num_levels m") auto
    then show "e \<in> (\<Union>l \<in> {0..<num_levels m}. set (manifest_level m l))" using l by auto
  qed auto
  then show ?thesis by (simp add: all_tables_levels)
qed

lemma wf_manifest_level: "wf_manifest m \<Longrightarrow> e \<in> set (manifest_level m l) \<Longrightarrow> te_level e = l"
  using manifest_level_out [of m l] by (cases "l < num_levels m") (auto simp: wf_manifest_def)

lemma wf_remove: "wf_manifest m \<Longrightarrow> wf_manifest (remove_sstables m ids)"
  by (auto simp: wf_manifest_def all_tables_remove distinct_map_filter manifest_level_remove)

lemma all_tables_add: "\<exists>xs ys. all_tables m = xs @ ys \<and> all_tables (add_sstable m e) = xs @ e # ys"
proof -
  define ls where "ls = (if te_level e \<ge> length (mf_levels m)
    then mf_levels m @ replicate (te_level e + 1 - length (mf_levels m)) [] else mf_levels m)"
  have c: "concat ls = all_tables m" and l: "te_level e < length ls"
    by (auto simp: ls_def all_tables_def concat_replicate_trivial)
  have ls: "ls = take (te_level e) ls @ ls ! te_level e # drop (Suc (te_level e)) ls"
    using l by (rule id_take_nth_drop)
  have "concat ls = (concat (take (te_level e) ls) @ ls ! te_level e) @ concat (drop (Suc (te_level e)) ls)"
    using arg_cong [OF ls, of concat] by simp
  moreover have "all_tables (add_sstable m e) = concat (ls[te_level e := ls ! te_level e @ [e]])"
    by (simp add: all_tables_def add_sstable_def ls_def Let_def)
  then have "all_tables (add_sstable m e) =
      (concat (take (te_level e) ls) @ ls ! te_level e) @ e # concat (drop (Suc (te_level e)) ls)"
    using l by (simp add: upd_conv_take_nth_drop)
  ultimately show ?thesis using c by metis
qed

lemma set_all_tables_add [simp]: "set (all_tables (add_sstable m e)) = insert e (set (all_tables m))"
  using all_tables_add [of m e] by auto

lemma wf_add:
  assumes "wf_manifest m" and "te_id e < mf_next_sst_id m" and "te_file_name e = sst_file_name (te_id e)"
    and "te_id e \<notin> te_id ` set (all_tables m)"
  shows "wf_manifest (add_sstable m e)"
proof -
  obtain xs ys where xy: "all_tables m = xs @ ys" "all_tables (add_sstable m e) = xs @ e # ys"
    using all_tables_add [of m e] by blast
  have "distinct (map te_id (all_tables (add_sstable m e)))"
    using assms(1,4) unfolding xy(2) wf_manifest_def by (auto simp: xy(1))
  moreover have "te_level x = l" if "x \<in> set (manifest_level (add_sstable m e) l)" for x l
    using that wf_manifest_level [OF assms(1), of x l] by (auto simp: manifest_level_add split: if_splits)
  ultimately show ?thesis
    using assms by (auto simp: wf_manifest_def)
qed

lemma manifest_level_set: "wf_manifest m \<Longrightarrow> set (manifest_level m l) = {e \<in> set (all_tables m). te_level e = l}"
  using wf_manifest_level [of m] by (auto simp: set_all_tables)

lemma wf_manifest_inj: "wf_manifest m \<Longrightarrow> inj_on te_id (set (all_tables m))"
  by (simp add: wf_manifest_def distinct_map)

lemma sst_file_name_inject [simp]: "sst_file_name i = sst_file_name j \<longleftrightarrow> i = j"
  by (simp add: sst_file_name_def)

end
