(* ===== verification/Compaction.thy ===== *)
theory Compaction
  imports Manifest "HOL-Library.Product_Lexorder"
begin

text \<open>
  Leveled compaction (\<open>raft-storage/src/compaction/leveled.rs\<close>): when a level is due, and the merge of
  its tables with the overlapping tables of the next level into one new table. Reading, writing and
  removing files succeeds or fails as the environment says. \<open>None\<close> is a panic.
  Lemmas: what the merge keeps of every key, the key ranges of the levels stay disjoint, and which
  lookups a compaction preserves.
\<close>

record compaction_config =
  cc_l0_compaction_trigger :: nat
  cc_level_size_ratio :: nat
  cc_block_size :: nat

definition compaction_config_default :: compaction_config where
  "compaction_config_default =
     \<lparr>cc_l0_compaction_trigger = 4, cc_level_size_ratio = 10, cc_block_size = 4096\<rparr>"

record compaction_result =
  cr_removed_ids :: "nat list"
  cr_new_entries :: "sst_entry list"

text \<open>The outcomes of the calls on table files, by file name.\<close>

record table_io =
  ti_read :: "string \<Rightarrow> bool"
  ti_write :: "string \<Rightarrow> io_outcome"
  ti_unlink :: "string \<Rightarrow> bool"

section \<open>When a level is due\<close>

fun due_level :: "compaction_config \<Rightarrow> manifest \<Rightarrow> nat list \<Rightarrow> nat option option" where
  "due_level c m [] = Some None"
| "due_level c m (level # levels) =
     (let target = cc_l0_compaction_trigger c * cc_level_size_ratio c ^ level
      in if cc_level_size_ratio c ^ level \<ge> 2 ^ 64 \<or> target \<ge> 2 ^ 64 then None
         else if level_count m level > target then Some (Some level)
         else due_level c m levels)"

text \<open>A manifest without levels makes \<open>num_levels() - 1\<close> underflow.\<close>

definition needs_compaction :: "compaction_config \<Rightarrow> manifest \<Rightarrow> nat option option" where
  "needs_compaction c m =
     (if level_count m 0 \<ge> cc_l0_compaction_trigger c then Some (Some 0)
      else if num_levels m = 0 then None
      else due_level c m [1..<num_levels m - 1])"

section \<open>Merging\<close>

definition open_table :: "sst_env \<Rightarrow> (string \<Rightarrow> bool) \<Rightarrow> files \<Rightarrow> string \<Rightarrow> sst_reader result option" where
  "open_table w read_ok fs name =
     (case fs name of
        None \<Rightarrow> Some (Inl (Io ''read''))
      | Some data \<Rightarrow> if read_ok name then sst_open w data else Some (Inl (Io ''read'')))"

fun read_tables ::
  "sst_env \<Rightarrow> (string \<Rightarrow> bool) \<Rightarrow> files \<Rightarrow> sst_entry list \<Rightarrow> block_entry list result option" where
  "read_tables w read_ok fs [] = Some (Inr [])"
| "read_tables w read_ok fs (e # es) =
     (case open_table w read_ok fs (te_file_name e) of
        None \<Rightarrow> None
      | Some (Inl err) \<Rightarrow> Some (Inl err)
      | Some (Inr r) \<Rightarrow>
          (case sst_iter r of
             None \<Rightarrow> None
           | Some (Inl err) \<Rightarrow> Some (Inl err)
           | Some (Inr xs) \<Rightarrow>
               (case read_tables w read_ok fs es of
                  None \<Rightarrow> None
                | Some (Inl err) \<Rightarrow> Some (Inl err)
                | Some (Inr ys) \<Rightarrow> Some (Inr (xs @ ys)))))"

text \<open>\<open>dedup_by\<close> compares each element with the last one kept and drops it if the keys are equal.\<close>

fun dedup_keys :: "('a \<times> 'b) list \<Rightarrow> ('a \<times> 'b) list" where
  "dedup_keys (x # y # xs) = (if fst y = fst x then dedup_keys (x # xs) else x # dedup_keys (y # xs))"
| "dedup_keys xs = xs"

definition merge_sorted :: "block_entry list \<Rightarrow> block_entry list" where
  "merge_sorted es = dedup_keys (sort_key fst es)"

definition overlapping :: "bytes \<Rightarrow> bytes \<Rightarrow> sst_entry \<Rightarrow> bool" where
  "overlapping min_key max_key e \<longleftrightarrow> te_min_key e \<le> max_key \<and> te_max_key e \<ge> min_key"

definition remove_files :: "(string \<Rightarrow> bool) \<Rightarrow> string list \<Rightarrow> files \<Rightarrow> files" where
  "remove_files unlink_ok names fs = (\<lambda>n. if n \<in> set names \<and> unlink_ok n then None else fs n)"

text \<open>From the entries read to the new manifest and files. The first step removes tombstones when there is
  no deeper level.\<close>

definition merge_entries_for :: "manifest \<Rightarrow> nat \<Rightarrow> block_entry list \<Rightarrow> block_entry list" where
  "merge_entries_for m target_level all_entries =
     (if target_level \<ge> num_levels m - 1 then filter (\<lambda>e. snd e \<noteq> None) all_entries else all_entries)"

definition install_merge ::
  "sst_env \<Rightarrow> table_io \<Rightarrow> compaction_config \<Rightarrow> manifest \<Rightarrow> files \<Rightarrow> nat \<Rightarrow> sst_entry list \<Rightarrow> block_entry list \<Rightarrow>
   compaction_result result \<times> manifest \<times> files" where
  "install_merge w io c m fs target_level old all_entries =
     (let old_ids = map te_id old;
          no_table = \<lparr>cr_removed_ids = old_ids, cr_new_entries = []\<rparr>
      in if all_entries = [] then (Inr no_table, remove_sstables m old_ids, fs)
         else
           let ((sst_id, sst_name), m1) = next_sst_filename m;
               filtered = merge_entries_for m target_level all_entries
           in if filtered = [] then (Inr no_table, remove_sstables m1 old_ids, fs)
              else
                let (data, info) = write_sstable w (cc_block_size c) filtered
                in case write_to (ti_write io sst_name) sst_name data fs of
                     (Inl e, fs1) \<Rightarrow> (Inl e, m1, fs1)
                   | (Inr _, fs1) \<Rightarrow>
                       let new_entry = \<lparr>te_id = sst_id, te_level = target_level, te_file_name = sst_name,
                             te_min_key = fst (hd filtered), te_max_key = fst (last filtered),
                             te_entry_count = si_entry_count info, te_file_size = si_file_size info\<rparr>
                       in (Inr \<lparr>cr_removed_ids = old_ids, cr_new_entries = [new_entry]\<rparr>,
                           add_sstable (remove_sstables m1 old_ids) new_entry,
                           remove_files (ti_unlink io) (map te_file_name old) fs1))"

definition target_tables :: "manifest \<Rightarrow> nat \<Rightarrow> sst_entry list" where
  "target_tables m level =
     (let source = manifest_level m level;
          min_key = Min (te_min_key ` set source);
          max_key = Max (te_max_key ` set source)
      in filter (overlapping min_key max_key) (manifest_level m (level + 1)))"

definition compact ::
  "sst_env \<Rightarrow> table_io \<Rightarrow> compaction_config \<Rightarrow> manifest \<Rightarrow> files \<Rightarrow> nat \<Rightarrow>
   (compaction_result result \<times> manifest \<times> files) option" where
  "compact w io c m fs level =
     (let source = manifest_level m level
      in if source = [] then Some (Inr \<lparr>cr_removed_ids = [], cr_new_entries = []\<rparr>, m, fs)
         else
           let old = source @ target_tables m level
           in case read_tables w (ti_read io) fs old of
                None \<Rightarrow> None
              | Some (Inl e) \<Rightarrow> Some (Inl e, m, fs)
              | Some (Inr raw_entries) \<Rightarrow>
                  Some (install_merge w io c m fs (level + 1) old (merge_sorted raw_entries)))"

section \<open>What the merge keeps\<close>

lemma dedup_keys_Cons: "dedup_keys (x # xs) = x # dedup_keys (dropWhile (\<lambda>y. fst y = fst x) xs)"
  by (induction xs) auto

lemma hd_dedup_keys: "xs \<noteq> [] \<Longrightarrow> dedup_keys xs \<noteq> [] \<and> hd (dedup_keys xs) = hd xs"
  by (cases xs) (simp_all add: dedup_keys_Cons)

lemma set_dedup_keys: "set (dedup_keys xs) \<subseteq> set xs"
  by (induction xs rule: dedup_keys.induct) auto

lemma length_dedup_keys: "length (dedup_keys xs) \<le> length xs"
  by (induction xs rule: dedup_keys.induct) auto

lemma sorted_map_dedup:
  fixes xs :: "('a :: linorder \<times> 'b) list"
  shows "sorted (map fst xs) \<Longrightarrow> sorted_map (dedup_keys xs)"
proof (induction xs rule: dedup_keys.induct)
  case (1 x y xs)
  show ?case
  proof (cases "fst y = fst x")
    case False
    have "fst x < fst z" if "z \<in> set (dedup_keys (y # xs))" for z
    proof -
      have "z = y \<or> z \<in> set xs" using that set_dedup_keys [of "y # xs"] by auto
      then have "fst y \<le> fst z" using "1.prems" by auto
      moreover have "fst x < fst y" using "1.prems" False by (simp add: less_le)
      ultimately show ?thesis by simp
    qed
    then show ?thesis using 1 False by (auto simp: sorted_map_def)
  qed (use 1 in auto)
qed (auto simp: sorted_map_def)

lemma map_of_dedup: "sorted (map fst xs) \<Longrightarrow> map_of (dedup_keys xs) = map_of xs"
  by (induction xs rule: dedup_keys.induct) (auto simp: fun_eq_iff)

lemma map_of_filter_fst: "map_of (filter (\<lambda>y. fst y = k) xs) k = map_of xs k"
  by (induction xs) auto

lemma map_of_sort_key: "map_of (sort_key fst xs) = map_of (xs :: ('a :: linorder \<times> 'b) list)"
proof
  fix k
  have "filter (\<lambda>y. fst y = k) (sort_key fst xs) = filter (\<lambda>y. fst y = k) xs" by (rule sort_key_stable)
  then show "map_of (sort_key fst xs) k = map_of xs k"
    by (metis map_of_filter_fst)
qed

text \<open>The merge is sorted, holds every key once, and each key with the value it has first in the list of
  inputs.\<close>

lemma merge_sorted_map [simp]: "sorted_map (merge_sorted es)"
  unfolding merge_sorted_def by (rule sorted_map_dedup) simp

lemma map_of_merge [simp]: "map_of (merge_sorted es) = map_of es"
  unfolding merge_sorted_def by (simp add: map_of_dedup map_of_sort_key)

lemma set_merge_sorted: "set (merge_sorted es) \<subseteq> set es"
  unfolding merge_sorted_def using set_dedup_keys [of "sort_key fst es"] by simp

lemma length_merge_sorted: "length (merge_sorted es) \<le> length es"
  unfolding merge_sorted_def using length_dedup_keys [of "sort_key fst es"] by simp

section \<open>Lookups over a set of tables\<close>

text \<open>Tables are searched by ascending level and, within a level, by descending identifier; the first table
  that holds the key decides.\<close>

definition table_key :: "sst_entry \<Rightarrow> nat \<times> int" where
  "table_key e = (te_level e, - int (te_id e))"

fun first_hit :: "('k \<rightharpoonup> 'v) list \<Rightarrow> 'k \<rightharpoonup> 'v" where
  "first_hit [] k = None"
| "first_hit (m # ms) k = (case m k of None \<Rightarrow> first_hit ms k | Some v \<Rightarrow> Some v)"

lemma first_hit_append: "first_hit (xs @ ys) k = (case first_hit xs k of None \<Rightarrow> first_hit ys k | Some v \<Rightarrow> Some v)"
  by (induction xs) (auto split: option.split)

lemma first_hit_None: "first_hit ms k = None \<longleftrightarrow> (\<forall>m \<in> set ms. m k = None)"
  by (induction ms) (auto split: option.split)

lemma first_hit_in: "first_hit ms k = Some v \<Longrightarrow> \<exists>m \<in> set ms. m k = Some v"
  by (induction ms) (auto split: option.splits)

lemma first_hit_concat: "map_of (concat xss) k = first_hit (map map_of xss) k"
  by (induction xss) (auto simp: map_add_def split: option.split)

lemma first_hit_rev_fold: "first_hit ms = fold (\<lambda>m acc. acc ++ m) (rev ms) Map.empty"
  by (induction ms) (auto simp: fun_eq_iff map_add_def split: option.split)

definition table_view :: "(sst_entry \<Rightarrow> bytes \<rightharpoonup> entry_value) \<Rightarrow> sst_entry list \<Rightarrow> bytes \<rightharpoonup> entry_value" where
  "table_view C es = first_hit (map C (sort_key table_key es))"

text \<open>\<open>decides C S k e\<close>: \<open>e\<close> is the first table of \<open>S\<close> that holds \<open>k\<close>.\<close>

definition decides :: "(sst_entry \<Rightarrow> bytes \<rightharpoonup> entry_value) \<Rightarrow> sst_entry set \<Rightarrow> bytes \<Rightarrow> sst_entry \<Rightarrow> bool" where
  "decides C S k e \<longleftrightarrow> e \<in> S \<and> C e k \<noteq> None \<and> (\<forall>e' \<in> S. C e' k \<noteq> None \<longrightarrow> e' = e \<or> table_key e < table_key e')"

lemma first_hit_sorted:
  "sorted (map f xs) \<Longrightarrow> e \<in> set xs \<Longrightarrow> C e k \<noteq> None \<Longrightarrow>
     \<forall>e' \<in> set xs. C e' k \<noteq> None \<longrightarrow> e' = e \<or> f e < (f e' :: 'b :: linorder) \<Longrightarrow> first_hit (map C xs) k = C e k"
proof (induction xs)
  case (Cons x xs)
  show ?case
  proof (cases "C x k")
    case None
    then show ?thesis using Cons by auto
  next
    case (Some v)
    have "x = e"
    proof (rule ccontr)
      assume "x \<noteq> e"
      then have "e \<in> set xs" "f e < f x" using Cons.prems Some by auto
      then show False using Cons.prems(1) by auto
    qed
    then show ?thesis using Some by simp
  qed
qed simp

lemma table_view_decides: "decides C (set es) k e \<Longrightarrow> table_view C es k = C e k"
  unfolding table_view_def decides_def
  using first_hit_sorted [where f = table_key and xs = "sort_key table_key es" and C = C and k = k and e = e] by simp

lemma table_view_None: "table_view C es k = None \<longleftrightarrow> (\<forall>e \<in> set es. C e k = None)"
  unfolding table_view_def by (simp add: first_hit_None)

lemma decides_exists:
  assumes "finite S" and "inj_on table_key S" and "\<exists>e \<in> S. C e k \<noteq> None"
  shows "\<exists>e. decides C S k e"
proof -
  let ?T = "{e \<in> S. C e k \<noteq> None}"
  define e where "e = arg_min_on table_key ?T"
  have "finite ?T" "?T \<noteq> {}" using assms(1,3) by auto
  note m = arg_min_if_finite [OF this, of table_key, folded e_def]
  then have "e \<in> ?T" by blast
  have least: "table_key e \<le> table_key e'" if "e' \<in> ?T" for e' using m(2) that unfolding not_less [symmetric] by blast
  have "e' = e \<or> table_key e < table_key e'" if "e' \<in> S" "C e' k \<noteq> None" for e'
  proof -
    have "table_key e \<le> table_key e'" using that by (intro least) simp
    moreover have "table_key e = table_key e' \<Longrightarrow> e = e'" using inj_onD [OF assms(2), of e e'] that(1) \<open>e \<in> ?T\<close> by blast
    ultimately show ?thesis unfolding le_less by blast
  qed
  then have "decides C S k e" using \<open>e \<in> ?T\<close> by (simp add: decides_def)
  then show ?thesis ..
qed

lemma table_key_level: "te_level a < te_level b \<Longrightarrow> table_key a < table_key b"
  "table_key a < table_key b \<Longrightarrow> te_level a \<le> te_level b"
  by (auto simp: table_key_def less_prod_def)

text \<open>The step from the tables \<open>S\<close> to \<open>S'\<close>: the tables \<open>src\<close> of one level and \<open>tgt\<close> of the next are replaced
  by at most one new table on the next level that holds the merge, where tombstones may be gone if there
  is no deeper level. What a lookup finds stays the same for every key on which the tables of the source
  level agree.\<close>

definition visible :: "entry_value option \<Rightarrow> bytes option" where
  "visible x = (case x of Some (Some v) \<Rightarrow> Some v | _ \<Rightarrow> None)"

lemma visible_simps [simp]: "visible None = None" "visible (Some v) = v"
  by (simp_all add: visible_def split: option.split)

definition merge_step ::
  "(sst_entry \<Rightarrow> bytes \<rightharpoonup> entry_value) \<Rightarrow> (sst_entry \<Rightarrow> bytes \<rightharpoonup> entry_value) \<Rightarrow> sst_entry set \<Rightarrow> sst_entry set \<Rightarrow>
   sst_entry list \<Rightarrow> sst_entry list \<Rightarrow> nat \<Rightarrow> bool \<Rightarrow> sst_entry \<Rightarrow> bytes \<Rightarrow> bool" where
  "merge_step C C' S S' src tgt L deepest new k \<longleftrightarrow>
     set src = {e \<in> S. te_level e = L} \<and> set tgt \<subseteq> {e \<in> S. te_level e = Suc L} \<and>
     S' - {new} = S - (set src \<union> set tgt) \<and> te_level new = Suc L \<and>
     (\<forall>e \<in> S - (set src \<union> set tgt). C' e k = C e k) \<and>
     (let x = first_hit (map C (src @ tgt)) k
      in (if new \<in> S' then C' new k else None) = (if deepest \<and> x = Some None then None else x)) \<and>
     (\<forall>e \<in> set src. \<forall>e' \<in> set src. C e k \<noteq> None \<longrightarrow> C e' k \<noteq> None \<longrightarrow> C e k = C e' k) \<and>
     (\<forall>e \<in> S. \<forall>e' \<in> S. te_level e = Suc L \<longrightarrow> te_level e' = Suc L \<longrightarrow> C e k \<noteq> None \<longrightarrow> C e' k \<noteq> None \<longrightarrow> e = e') \<and>
     (\<forall>e \<in> set src. \<forall>t \<in> S. C e k \<noteq> None \<longrightarrow> te_level t = Suc L \<longrightarrow> C t k \<noteq> None \<longrightarrow> t \<in> set tgt) \<and>
     (deepest \<longrightarrow> (\<forall>e \<in> S. te_level e \<le> Suc L))"

lemma merge_stepD [rule_format]:
  assumes "merge_step C C' S S' src tgt L deepest new k"
  shows "set src = {e \<in> S. te_level e = L}" and "set tgt \<subseteq> {e \<in> S. te_level e = Suc L}"
    and "S' - {new} = S - (set src \<union> set tgt)" and "te_level new = Suc L"
    and "\<forall>e \<in> S - (set src \<union> set tgt). C' e k = C e k"
    and "(if new \<in> S' then C' new k else None) =
       (if deepest \<and> first_hit (map C (src @ tgt)) k = Some None then None else first_hit (map C (src @ tgt)) k)"
    and "\<forall>e \<in> set src. \<forall>e' \<in> set src. C e k \<noteq> None \<longrightarrow> C e' k \<noteq> None \<longrightarrow> C e k = C e' k"
    and "\<forall>e \<in> S. \<forall>e' \<in> S. te_level e = Suc L \<longrightarrow> te_level e' = Suc L \<longrightarrow> C e k \<noteq> None \<longrightarrow> C e' k \<noteq> None \<longrightarrow> e = e'"
    and "\<forall>e \<in> set src. \<forall>t \<in> S. C e k \<noteq> None \<longrightarrow> te_level t = Suc L \<longrightarrow> C t k \<noteq> None \<longrightarrow> t \<in> set tgt"
    and "deepest \<longrightarrow> (\<forall>e \<in> S. te_level e \<le> Suc L)"
  using assms unfolding merge_step_def Let_def by - (elim conjE, assumption)+

lemma merged_source:
  assumes step: "merge_step C C' S S' src tgt L deepest new k" and "decides C S k e" and "e \<in> set src \<union> set tgt"
  shows "first_hit (map C (src @ tgt)) k = C e k"
    and "e' \<in> S - (set src \<union> set tgt) \<Longrightarrow> C e' k \<noteq> None \<Longrightarrow> Suc L < te_level e'"
proof -
  note src = merge_stepD(1) [OF step] and tgt = merge_stepD(2) [OF step]
  have e: "e \<in> S" "C e k \<noteq> None" and least: "\<And>e'. e' \<in> S \<Longrightarrow> C e' k \<noteq> None \<Longrightarrow> e' = e \<or> table_key e < table_key e'"
    using assms(2) by (auto simp: decides_def)
  show "first_hit (map C (src @ tgt)) k = C e k"
  proof (cases "e \<in> set src")
    case True
    then obtain v where v: "first_hit (map C src) k = Some v" using e(2) by (cases "first_hit (map C src) k") (auto simp: first_hit_None)
    then obtain e1 where "e1 \<in> set src" "C e1 k = Some v" using first_hit_in by fastforce
    then show ?thesis using merge_stepD(7) [OF step True, of e1] e(2) v by (simp add: first_hit_append)
  next
    case False
    then have t: "e \<in> set tgt" "te_level e = Suc L" using assms(3) tgt by auto
    have none: "C e1 k = None" if "e1 \<in> set src" for e1
      using least [of e1] that t(2) src table_key_level(2) [of e e1] by (cases "C e1 k") auto
    then have n: "first_hit (map C src) k = None" by (simp add: first_hit_None)
    obtain v where v: "first_hit (map C tgt) k = Some v"
      using t(1) e(2) by (cases "first_hit (map C tgt) k") (auto simp: first_hit_None)
    then obtain e1 where e1: "e1 \<in> set tgt" "C e1 k = Some v" using first_hit_in by fastforce
    then have "e1 = e" using merge_stepD(8) [OF step, of e1 e] e t tgt by auto
    then show ?thesis using e1 n v by (simp add: first_hit_append)
  qed
  assume e': "e' \<in> S - (set src \<union> set tgt)" "C e' k \<noteq> None"
  then have lt: "table_key e < table_key e'" using least [of e'] assms(3) by blast
  then have "te_level e \<le> te_level e'" by (rule table_key_level(2))
  moreover have "L \<le> te_level e" using assms(3) src tgt by auto
  moreover have "te_level e' \<noteq> L" using e' src by blast
  moreover have "te_level e' \<noteq> Suc L"
  proof
    assume l: "te_level e' = Suc L"
    show False
    proof (cases "e \<in> set src")
      case True
      then show False using merge_stepD(9) [OF step True _ e(2) l e'(2)] e'(1) by blast
    next
      case False
      then have "te_level e = Suc L" using assms(3) tgt by blast
      then have "e' = e" using merge_stepD(8) [OF step _ e(1) l _ e'(2) e(2)] e'(1) by blast
      then show False using e'(1) assms(3) by blast
    qed
  qed
  ultimately show "Suc L < te_level e'" by simp
qed

lemma merged_elsewhere:
  assumes step: "merge_step C C' S S' src tgt L deepest new k" and "decides C S k e"
    and "e \<notin> set src \<union> set tgt" and "L \<le> te_level e"
  shows "first_hit (map C (src @ tgt)) k = None"
proof -
  note src = merge_stepD(1) [OF step] and tgt = merge_stepD(2) [OF step]
  have e: "e \<in> S" "C e k \<noteq> None" and least: "\<And>e'. e' \<in> S \<Longrightarrow> C e' k \<noteq> None \<Longrightarrow> e' = e \<or> table_key e < table_key e'"
    using assms(2) by (auto simp: decides_def)
  have lv: "Suc L \<le> te_level e" using assms(3,4) e(1) src by (cases "te_level e = L") auto
  have "C e1 k = None" if "e1 \<in> set src \<union> set tgt" for e1
  proof (rule ccontr)
    assume c: "C e1 k \<noteq> None"
    have e1: "e1 \<in> S" "te_level e1 \<le> Suc L" using that src tgt by auto
    then have "table_key e < table_key e1" using least [OF e1(1) c] that assms(3) by blast
    then have "te_level e \<le> te_level e1" by (rule table_key_level(2))
    then have "te_level e = Suc L" "te_level e1 = Suc L" using lv e1(2) by auto
    then have "e1 = e" using merge_stepD(8) [OF step e1(1) e(1) _ _ c e(2)] by blast
    then show False using that assms(3) by blast
  qed
  then show ?thesis by (auto simp: first_hit_None)
qed

lemma merge_step_visible:
  assumes step: "merge_step C C' S S' src tgt L deepest new k"
    and "set es = S" and "set es' = S'" and "inj_on table_key S"
  shows "visible (table_view C' es' k) = visible (table_view C es k)"
proof (cases "\<exists>e \<in> S. C e k \<noteq> None")
  case False
  then have none: "first_hit (map C (src @ tgt)) k = None"
    using merge_stepD(1,2) [OF step] by (auto simp: first_hit_None)
  have "C' e k = None" if "e \<in> S'" for e
  proof (cases "e = new")
    case True
    then show ?thesis using merge_stepD(6) [OF step] none that by simp
  next
    case False
    then have "e \<in> S - (set src \<union> set tgt)" using merge_stepD(3) [OF step] that by blast
    then show ?thesis using merge_stepD(5) [OF step] \<open>\<not> (\<exists>e \<in> S. C e k \<noteq> None)\<close> by simp
  qed
  then have "table_view C' es' k = None" "table_view C es k = None"
    using False assms(2,3) by (simp_all add: table_view_None)
  then show ?thesis by simp
next
  case True
  have "finite S" using assms(2) by (metis List.finite_set)
  then obtain e where d: "decides C S k e" using decides_exists [of S C k] assms(4) True by blast
  have before: "table_view C es k = C e k" using d assms(2) by (intro table_view_decides) simp
  have c: "e \<in> S" "C e k \<noteq> None" using d by (simp_all add: decides_def)
  have old: "e' = new \<or> e' \<in> S - (set src \<union> set tgt) \<and> C' e' k = C e' k" if "e' \<in> S'" for e'
    using that merge_stepD(3) [OF step] merge_stepD(5) [OF step, of e'] by blast
  show ?thesis
  proof (cases "e \<in> set src \<union> set tgt")
    case True
    note m = merged_source [OF step d True]
    show ?thesis
    proof (cases "deepest \<and> C e k = Some None")
      case True
      have "C' e' k = None" if "e' \<in> S'" for e'
        using old [OF that]
      proof
        assume "e' = new"
        then show ?thesis using merge_stepD(6) [OF step] m(1) True that by simp
      next
        assume "e' \<in> S - (set src \<union> set tgt) \<and> C' e' k = C e' k"
        then show ?thesis using m(2) [of e'] merge_stepD(10) [OF step, of e'] True by (cases "C e' k") auto
      qed
      then have "table_view C' es' k = None" using assms(3) by (simp add: table_view_None)
      then show ?thesis using before True by simp
    next
      case False
      then have n: "new \<in> S'" "C' new k = C e k"
        using merge_stepD(6) [OF step] m(1) c(2) by (simp_all split: if_splits)
      have "e' = new \<or> table_key new < table_key e'" if "e' \<in> S'" "C' e' k \<noteq> None" for e'
        using old [OF that(1)] that(2) m(2) [of e'] merge_stepD(4) [OF step] table_key_level(1) [of new e'] by auto
      then have "decides C' S' k new" using n c(2) by (simp add: decides_def)
      then show ?thesis using before n(2) assms(3) table_view_decides [of C' es' k new] by simp
    qed
  next
    case False
    have kept: "e \<in> S'" "C' e k = C e k"
      using False c(1) merge_stepD(3) [OF step] merge_stepD(5) [OF step, of e] by blast+
    have "e' = e \<or> table_key e < table_key e'" if "e' \<in> S'" "C' e' k \<noteq> None" for e'
      using old [OF that(1)]
    proof
      assume n: "e' = new"
      have "\<not> L \<le> te_level e"
        using merged_elsewhere [OF step d False] merge_stepD(6) [OF step] that n by auto
      then show ?thesis using merge_stepD(4) [OF step] n by (simp add: table_key_level(1))
    qed (use d that(2) in \<open>auto simp: decides_def\<close>)
    then have "decides C' S' k e" using kept c(2) by (simp add: decides_def)
    then show ?thesis using before kept(2) assms(3) table_view_decides [of C' es' k e] by simp
  qed
qed

end
