(* ===== verification/Compaction_View.thy ===== *)
theory Compaction_View
  imports Compaction
begin

text \<open>
  What a compaction does to the data: the files of a well-formed manifest hold sorted tables whose key
  ranges are disjoint on every level but the first, and compaction keeps this and what lookups see.
\<close>

section \<open>Tables on disk\<close>

definition contents :: "sst_env \<Rightarrow> files \<Rightarrow> sst_entry \<Rightarrow> block_entry list" where
  "contents w fs e =
     (case fs (te_file_name e) of
        None \<Rightarrow> []
      | Some data \<Rightarrow>
          (case sst_open w data of
             Some (Inr r) \<Rightarrow> (case sst_iter r of Some (Inr es) \<Rightarrow> es | _ \<Rightarrow> [])
           | _ \<Rightarrow> []))"

abbreviation table_map :: "sst_env \<Rightarrow> files \<Rightarrow> sst_entry \<Rightarrow> bytes \<rightharpoonup> entry_value" where
  "table_map w fs e \<equiv> map_of (contents w fs e)"

definition opens :: "sst_env \<Rightarrow> files \<Rightarrow> sst_entry \<Rightarrow> sst_reader \<Rightarrow> bool" where
  "opens w fs e r \<longleftrightarrow>
     (\<exists>data. fs (te_file_name e) = Some data \<and> sst_open w data = Some (Inr r)) \<and> reads w r (contents w fs e)"

definition good_table :: "sst_env \<Rightarrow> files \<Rightarrow> sst_entry \<Rightarrow> bool" where
  "good_table w fs e \<longleftrightarrow>
     (\<exists>r. opens w fs e r) \<and> sorted_map (contents w fs e) \<and> contents w fs e \<noteq> [] \<and>
     te_min_key e = fst (hd (contents w fs e)) \<and> te_max_key e = fst (last (contents w fs e)) \<and>
     (\<forall>x \<in> set (contents w fs e). storable x)"

definition ranges_disjoint :: "manifest \<Rightarrow> bool" where
  "ranges_disjoint m \<longleftrightarrow>
     (\<forall>e \<in> set (all_tables m). \<forall>e' \<in> set (all_tables m). 0 < te_level e \<longrightarrow> te_level e = te_level e' \<longrightarrow>
        e = e' \<or> te_max_key e < te_min_key e' \<or> te_max_key e' < te_min_key e)"

definition wf_tables :: "sst_env \<Rightarrow> files \<Rightarrow> manifest \<Rightarrow> bool" where
  "wf_tables w fs m \<longleftrightarrow> wf_manifest m \<and> (\<forall>e \<in> set (all_tables m). good_table w fs e) \<and> ranges_disjoint m"

text \<open>How much is stored, by a weight of the entries: their number or their bytes of keys and values.\<close>

definition weight :: "(block_entry \<Rightarrow> nat) \<Rightarrow> block_entry list \<Rightarrow> nat" where
  "weight f es = sum_list (map f es)"

definition stored :: "(block_entry \<Rightarrow> nat) \<Rightarrow> sst_env \<Rightarrow> files \<Rightarrow> manifest \<Rightarrow> nat" where
  "stored f w fs m = (\<Sum>e \<in> set (all_tables m). weight f (contents w fs e))"

definition entry_bytes :: "block_entry \<Rightarrow> nat" where
  "entry_bytes e = length (fst e) + value_len (snd e)"

definition entry_unit :: "block_entry \<Rightarrow> nat" where
  "entry_unit e = 1"

lemma weight_unit: "weight entry_unit es = length es"
  by (induction es) (simp_all add: weight_def entry_unit_def)

lemma weight_bytes: "weight entry_bytes es = data_size es"
  by (induction es) (simp_all add: weight_def entry_bytes_def)

lemma weight_subset:
  assumes "distinct xs" and "set xs \<subseteq> set ys"
  shows "weight f xs \<le> weight f ys"
proof -
  have "sum f (set xs) \<le> sum f (set ys)" using assms(2) by (intro sum_mono2) auto
  also have "\<dots> \<le> weight f ys"
  proof (induction ys)
    case (Cons y ys)
    then show ?case by (cases "y \<in> set ys") (auto simp: weight_def insert_absorb)
  qed (simp add: weight_def)
  finally show ?thesis using assms(1) by (simp add: weight_def sum_list_distinct_conv_sum_set)
qed

text \<open>Keys on which the tables of a list hold the same value.\<close>

definition tables_agree :: "sst_env \<Rightarrow> files \<Rightarrow> sst_entry list \<Rightarrow> bytes \<Rightarrow> bool" where
  "tables_agree w fs es k \<longleftrightarrow>
     (\<forall>e \<in> set es. \<forall>e' \<in> set es. table_map w fs e k \<noteq> None \<longrightarrow> table_map w fs e' k \<noteq> None \<longrightarrow>
        table_map w fs e k = table_map w fs e' k)"

section \<open>Reading and writing tables\<close>

lemma contents_frame: "fs' (te_file_name e) = fs (te_file_name e) \<Longrightarrow> contents w fs' e = contents w fs e"
  by (simp add: contents_def)

lemma good_table_frame:
  assumes "fs' (te_file_name e) = fs (te_file_name e)"
  shows "opens w fs' e r = opens w fs e r" and "good_table w fs' e = good_table w fs e"
  using assms contents_frame [of fs' e fs w] by (simp_all add: opens_def good_table_def)

lemma opens_iter: "opens w fs e r \<Longrightarrow> sst_iter r = Some (Inr (contents w fs e))"
  by (simp add: opens_def reads_def)

lemma opens_open_table: "opens w fs e r \<Longrightarrow> rd (te_file_name e) \<Longrightarrow> open_table w rd fs (te_file_name e) = Some (Inr r)"
  by (auto simp: opens_def open_table_def)

lemma open_table_opens:
  "good_table w fs e \<Longrightarrow> open_table w rd fs (te_file_name e) = Some (Inr r) \<Longrightarrow> opens w fs e r"
  by (auto simp: good_table_def opens_def open_table_def split: if_splits)

lemma read_tables_contents:
  "\<forall>e \<in> set es. good_table w fs e \<Longrightarrow> read_tables w rd fs es = Some (Inr raw) \<Longrightarrow>
     raw = concat (map (contents w fs) es)"
proof (induction es arbitrary: raw)
  case (Cons e es)
  obtain r where r: "open_table w rd fs (te_file_name e) = Some (Inr r)"
    using Cons.prems(2) by (auto split: option.splits sum.splits)
  then have it: "sst_iter r = Some (Inr (contents w fs e))"
    using open_table_opens [of w fs e rd r] Cons.prems(1) opens_iter by auto
  then obtain ys where "read_tables w rd fs es = Some (Inr ys)" "raw = contents w fs e @ ys"
    using Cons.prems(2) r by (auto split: option.splits sum.splits)
  then show ?case using Cons.IH Cons.prems(1) by simp
qed simp

lemma read_tables_ok:
  "\<forall>e \<in> set es. good_table w fs e \<and> rd (te_file_name e) \<Longrightarrow>
     read_tables w rd fs es = Some (Inr (concat (map (contents w fs) es)))"
proof (induction es)
  case (Cons e es)
  then obtain r where "opens w fs e r" by (auto simp: good_table_def)
  then show ?case using Cons by (simp add: opens_open_table opens_iter)
qed simp

lemma sorted_map_bounds:
  "sorted_map es \<Longrightarrow> x \<in> set es \<Longrightarrow> fst (hd es) \<le> fst x \<and> fst x \<le> fst (last es)"
proof (induction es rule: rev_induct)
  case (snoc y ys)
  show ?case
  proof (cases "ys = []")
    case False
    have less: "fst z < fst y" if "z \<in> set ys" for z using snoc.prems(1) that by (auto simp: sorted_map_append)
    have "fst (hd ys) < fst y" using less [of "hd ys"] False by simp
    moreover have "x = y \<or> x \<in> set ys \<and> fst (hd ys) \<le> fst x" using snoc by (auto simp: sorted_map_append)
    ultimately show ?thesis using less [of x] False by (auto simp: less_imp_le)
  qed (use snoc.prems in simp)
qed simp

lemma good_table_range:
  "good_table w fs e \<Longrightarrow> table_map w fs e k \<noteq> None \<Longrightarrow> te_min_key e \<le> k \<and> k \<le> te_max_key e"
  using sorted_map_bounds [of "contents w fs e"] by (auto simp: good_table_def dest!: map_of_SomeD)

lemma good_table_min_max: "good_table w fs e \<Longrightarrow> te_min_key e \<le> te_max_key e"
  using sorted_map_bounds [of "contents w fs e" "hd (contents w fs e)"] by (simp add: good_table_def)

lemma written_table:
  assumes "sst_env_ok w" and "sorted_map es" and "es \<noteq> []" and "\<forall>x \<in> set es. storable x"
    and "length es < 2 ^ 32" and "data_size es < 2 ^ 60"
    and "fs (te_file_name e) = Some (fst (write_sstable w block_size es))"
    and "te_min_key e = fst (hd es)" and "te_max_key e = fst (last es)"
  shows "good_table w fs e" and "contents w fs e = es"
proof -
  obtain data info where wr: "write_sstable w block_size es = (data, info)" by (cases "write_sstable w block_size es")
  have "length data < 2 ^ 64" using write_sstable_size [OF assms(1), of block_size es] assms(5,6) by (simp add: wr)
  from write_sstable_reads(1) [OF assms(1,2,4,5) wr this] obtain r where r: "sst_open w data = Some (Inr r)" "reads w r es"
    by blast
  then show c: "contents w fs e = es" using assms(7) by (simp add: contents_def wr reads_def)
  show "good_table w fs e"
    using r assms(2-4,7-9) by (auto simp: good_table_def opens_def c wr)
qed

section \<open>The outcome of a compaction\<close>

text \<open>The new table, if any entry is left for it.\<close>

definition survivors :: "sst_env \<Rightarrow> files \<Rightarrow> manifest \<Rightarrow> nat \<Rightarrow> block_entry list" where
  "survivors w fs m level =
     merge_entries_for m (level + 1)
       (merge_sorted (concat (map (contents w fs) (manifest_level m level @ target_tables m level))))"

lemma compact_reads:
  assumes "\<forall>e \<in> set (all_tables m). good_table w fs e"
    and "compact w io c m fs level = Some (Inr res, m', fs')" and "manifest_level m level \<noteq> []"
  defines "old \<equiv> manifest_level m level @ target_tables m level"
  shows "install_merge w io c m fs (level + 1) old (merge_sorted (concat (map (contents w fs) old))) = (Inr res, m', fs')"
proof -
  have "set old \<subseteq> set (all_tables m)" by (auto simp: old_def target_tables_def set_all_tables Let_def)
  then have good: "\<forall>e \<in> set old. good_table w fs e" using assms(1) by auto
  obtain raw where rd: "read_tables w (ti_read io) fs old = Some (Inr raw)"
    and eq: "install_merge w io c m fs (level + 1) old (merge_sorted raw) = (Inr res, m', fs')"
    using assms(2,3) by (auto simp: compact_def Let_def old_def split: option.splits sum.splits)
  show ?thesis using eq read_tables_contents [OF good rd] by simp
qed

lemma install_outcome:
  assumes "install_merge w io c m fs level old es = (Inr res, m', fs')"
  defines "out \<equiv> merge_entries_for m level es"
  defines "m1 \<equiv> \<lambda>n. (remove_sstables m (map te_id old))\<lparr>mf_next_sst_id := n\<rparr>"
  shows "out = [] \<and> fs' = fs \<and> (\<exists>n \<ge> mf_next_sst_id m. m' = m1 n) \<or>
    out \<noteq> [] \<and>
    (\<exists>e. te_id e = mf_next_sst_id m \<and> te_level e = level \<and> te_file_name e = sst_file_name (te_id e) \<and>
       te_min_key e = fst (hd out) \<and> te_max_key e = fst (last out) \<and> m' = add_sstable (m1 (Suc (mf_next_sst_id m))) e \<and>
       fs' = remove_files (ti_unlink io) (map te_file_name old)
              (fs(te_file_name e \<mapsto> fst (write_sstable w (cc_block_size c) out))))"
proof -
  let ?n = "mf_next_sst_id m"
  have rm: "remove_sstables (m\<lparr>mf_next_sst_id := n\<rparr>) (map te_id old) = m1 n" for n
    by (simp add: remove_sstables_def m1_def)
  have self: "remove_sstables m (map te_id old) = m1 ?n" by (simp add: remove_sstables_def m1_def)
  note i = assms(1) [unfolded install_merge_def Let_def next_sst_filename_def, folded out_def, simplified]
  obtain data info where wr: "write_sstable w (cc_block_size c) out = (data, info)"
    by (cases "write_sstable w (cc_block_size c) out")
  show ?thesis
  proof (cases "out = []")
    case True
    then have "fs' = fs" "m' = m1 ?n \<or> m' = m1 (Suc ?n)" using i by (simp_all add: rm self split: if_splits)
    then have "\<exists>n \<ge> ?n. m' = m1 n" by (metis le_refl le_SucI)
    then show ?thesis using True \<open>fs' = fs\<close> by blast
  next
    case False
    have "es = [] \<Longrightarrow> out = []" by (simp add: out_def merge_entries_for_def)
    then have "es \<noteq> []" using False by blast
    then have "ti_write io (sst_file_name ?n) = IoOk"
      using i False wr by (cases "ti_write io (sst_file_name ?n)") (simp_all add: write_to_def)
    moreover define e where "e = \<lparr>te_id = ?n, te_level = level, te_file_name = sst_file_name ?n,
          te_min_key = fst (hd out), te_max_key = fst (last out), te_entry_count = si_entry_count info,
          te_file_size = si_file_size info\<rparr>"
    ultimately have "(Inr \<lparr>cr_removed_ids = map te_id old, cr_new_entries = [e]\<rparr>, add_sstable (m1 (Suc ?n)) e,
        remove_files (ti_unlink io) (map te_file_name old) (fs(sst_file_name ?n \<mapsto> data))) = (Inr res, m', fs')"
      using i False \<open>es \<noteq> []\<close> wr by (simp add: write_to_def rm)
    then have "m' = add_sstable (m1 (Suc ?n)) e"
      "fs' = remove_files (ti_unlink io) (map te_file_name old) (fs(sst_file_name ?n \<mapsto> data))" by simp_all
    then show ?thesis using False wr by (intro disjI2 conjI exI [of _ e]) (simp_all add: e_def)
  qed
qed

section \<open>Compaction keeps the tables well formed\<close>

lemma in_old_tables: "e \<in> set (manifest_level m level @ target_tables m level) \<Longrightarrow> e \<in> set (all_tables m)"
  by (auto simp: target_tables_def set_all_tables Let_def)

lemma table_name_inj:
  assumes "wf_manifest m" and "e \<in> set (all_tables m)" and "e' \<in> set (all_tables m)"
  shows "te_file_name e = te_file_name e' \<longleftrightarrow> e = e'" and "te_file_name e \<noteq> sst_file_name (mf_next_sst_id m)"
proof -
  have n: "te_file_name e = sst_file_name (te_id e)" "te_file_name e' = sst_file_name (te_id e')" "te_id e < mf_next_sst_id m"
    using assms by (simp_all add: wf_manifest_def)
  then show "te_file_name e = te_file_name e' \<longleftrightarrow> e = e'"
    using inj_onD [OF wf_manifest_inj [OF assms(1)] _ assms(2,3)] by auto
  show "te_file_name e \<noteq> sst_file_name (mf_next_sst_id m)" using n by simp
qed

lemma remaining_tables:
  assumes "wf_manifest m" and "\<forall>e \<in> set old. e \<in> set (all_tables m)"
  shows "set (all_tables (remove_sstables m (map te_id old))) = set (all_tables m) - set old"
proof -
  have "te_id e \<in> te_id ` set old \<longleftrightarrow> e \<in> set old" if "e \<in> set (all_tables m)" for e
    using inj_on_image_mem_iff [OF wf_manifest_inj [OF assms(1)] that, of "set old"] assms(2) by blast
  then show ?thesis by (auto simp: all_tables_remove)
qed

lemma map_of_filter_values:
  "distinct (map fst es) \<Longrightarrow> map_of (filter (\<lambda>e. snd e \<noteq> None) es) k = (if map_of es k = Some None then None else map_of es k)"
proof (induction es)
  case (Cons e es)
  have "map_of es (fst e) = None" using Cons.prems by (simp add: map_of_eq_None_iff)
  then show ?case using Cons by (cases e) auto
qed simp

lemma survivors_facts:
  fixes level :: nat
  assumes "\<forall>e \<in> set (all_tables m). good_table w fs e"
  defines "old \<equiv> manifest_level m level @ target_tables m level"
  shows "sorted_map (survivors w fs m level)" and "\<forall>x \<in> set (survivors w fs m level). storable x"
    and "set (survivors w fs m level) \<subseteq> (\<Union>e \<in> set old. set (contents w fs e))"
    and "map_of (survivors w fs m level) k =
      (let x = first_hit (map (table_map w fs) old) k in if Suc level \<ge> num_levels m - 1 \<and> x = Some None then None else x)"
proof -
  let ?raw = "concat (map (contents w fs) old)"
  have s: "survivors w fs m level = merge_entries_for m (level + 1) (merge_sorted ?raw)"
    by (simp add: survivors_def old_def)
  show "sorted_map (survivors w fs m level)"
    by (simp add: s merge_entries_for_def sorted_map_filter)
  have "set (survivors w fs m level) \<subseteq> set ?raw"
    using set_merge_sorted [of ?raw] by (auto simp: s merge_entries_for_def)
  then show sub: "set (survivors w fs m level) \<subseteq> (\<Union>e \<in> set old. set (contents w fs e))" by simp
  have "storable x" if "e \<in> set old" "x \<in> set (contents w fs e)" for e x
    using assms(1) in_old_tables [of e m level] that by (auto simp: good_table_def old_def)
  then show "\<forall>x \<in> set (survivors w fs m level). storable x" using sub by blast
  have "map_of ?raw k = first_hit (map (table_map w fs) old) k"
    by (simp add: first_hit_concat comp_def)
  then show "map_of (survivors w fs m level) k =
      (let x = first_hit (map (table_map w fs) old) k in if Suc level \<ge> num_levels m - 1 \<and> x = Some None then None else x)"
    using map_of_filter_values [OF sorted_map_distinct [OF merge_sorted_map [of ?raw]], of k]
    by (simp add: s merge_entries_for_def Let_def)
qed

lemma distinct_level: "wf_manifest m \<Longrightarrow> distinct (manifest_level m l)"
proof -
  assume "wf_manifest m"
  then have "distinct (concat (mf_levels m))" by (simp add: wf_manifest_def all_tables_def distinct_map)
  then show ?thesis
    by (auto simp: manifest_level_def vec_get_def distinct_concat_iff split: option.split)
qed

lemma distinct_old:
  assumes "wf_manifest m"
  shows "distinct (manifest_level m level @ target_tables m level)"
proof -
  have "set (manifest_level m level) \<inter> set (manifest_level m (Suc level)) = {}"
    using wf_manifest_level [OF assms, of _ level] wf_manifest_level [OF assms, of _ "Suc level"] by force
  then show ?thesis
    using distinct_level [OF assms, of level] distinct_level [OF assms, of "Suc level"]
    by (auto simp: target_tables_def Let_def)
qed

lemma weight_concat: "weight f (concat xss) = sum_list (map (weight f) xss)"
  by (induction xss) (simp_all add: weight_def)

lemma survivors_weight:
  assumes "wf_manifest m" and "\<forall>e \<in> set (all_tables m). good_table w fs e"
  shows "weight f (survivors w fs m level) \<le>
    (\<Sum>e \<in> set (manifest_level m level @ target_tables m level). weight f (contents w fs e))"
proof -
  let ?old = "manifest_level m level @ target_tables m level"
  have "distinct (survivors w fs m level)"
    using sorted_map_distinct [OF survivors_facts(1) [OF assms(2)]] by (simp add: distinct_map)
  moreover have "set (survivors w fs m level) \<subseteq> set (concat (map (contents w fs) ?old))"
    using survivors_facts(3) [OF assms(2), of level] by simp
  ultimately have "weight f (survivors w fs m level) \<le> weight f (concat (map (contents w fs) ?old))"
    by (rule weight_subset)
  also have "\<dots> = sum_list (map (\<lambda>e. weight f (contents w fs e)) ?old)"
    by (simp add: weight_concat comp_def del: map_append)
  also have "\<dots> = (\<Sum>e \<in> set ?old. weight f (contents w fs e))"
    by (rule sum_list_distinct_conv_sum_set [OF distinct_old [OF assms(1)]])
  finally show ?thesis .
qed

text \<open>The tables after a compaction: the old ones outside the merge, whose files are untouched, and the
  new one if anything survives.\<close>

lemma compact_tables:
  assumes "sst_env_ok w" and "wf_tables w fs m" and "compact w io c m fs level = Some (Inr res, m', fs')"
    and "manifest_level m level \<noteq> []" and "stored entry_unit w fs m < 2 ^ 32" and "stored entry_bytes w fs m < 2 ^ 60"
  defines "rest \<equiv> set (all_tables m) - set (manifest_level m level @ target_tables m level)"
    and "out \<equiv> survivors w fs m level"
  shows "\<exists>new. wf_manifest m' \<and> mf_next_sst_id m \<le> mf_next_sst_id m' \<and> num_levels m \<le> num_levels m' \<and>
     new \<notin> set (all_tables m) \<and> te_level new = Suc level \<and>
     set (all_tables m') = (if out = [] then rest else insert new rest) \<and>
     (\<forall>e \<in> rest. fs' (te_file_name e) = fs (te_file_name e)) \<and>
     (out \<noteq> [] \<longrightarrow> good_table w fs' new \<and> contents w fs' new = out)"
proof -
  let ?old = "manifest_level m level @ target_tables m level"
  have wfm: "wf_manifest m" and good: "\<forall>e \<in> set (all_tables m). good_table w fs e"
    using assms(2) by (simp_all add: wf_tables_def)
  have rest: "set (all_tables (remove_sstables m (map te_id ?old))) = rest"
    unfolding rest_def by (rule remaining_tables [OF wfm]) (use in_old_tables in blast)
  have wt: "weight f out \<le> stored f w fs m" for f
  proof -
    have "weight f out \<le> (\<Sum>e \<in> set ?old. weight f (contents w fs e))"
      unfolding out_def by (rule survivors_weight [OF wfm good])
    also have "\<dots> \<le> stored f w fs m" unfolding stored_def using in_old_tables by (intro sum_mono2) auto
    finally show ?thesis .
  qed
  note oc = install_outcome [OF compact_reads [OF good assms(3,4)], folded survivors_def Suc_eq_plus1, folded out_def]
  show ?thesis
  proof (cases "out = []")
    case True
    then obtain n where "n \<ge> mf_next_sst_id m" and m': "m' = (remove_sstables m (map te_id ?old))\<lparr>mf_next_sst_id := n\<rparr>"
      and "fs' = fs" using oc by blast
    moreover have "wf_manifest m'" unfolding m' using \<open>n \<ge> _\<close> by (intro wf_next_sst wf_remove wfm) simp
    moreover obtain new :: sst_entry where "te_level new = Suc level" "te_id new = mf_next_sst_id m"
      by (metis sst_entry.select_convs(1,2))
    moreover have "new \<notin> set (all_tables m)" using \<open>te_id new = _\<close> wfm by (auto simp: wf_manifest_def)
    ultimately show ?thesis using True rest by (intro exI [of _ new]) simp
  next
    case False
    then obtain e where e: "te_id e = mf_next_sst_id m" "te_level e = Suc level" "te_file_name e = sst_file_name (te_id e)"
      "te_min_key e = fst (hd out)" "te_max_key e = fst (last out)"
      and m': "m' = add_sstable ((remove_sstables m (map te_id ?old))\<lparr>mf_next_sst_id := Suc (mf_next_sst_id m)\<rparr>) e"
      and fs': "fs' = remove_files (ti_unlink io) (map te_file_name ?old)
        (fs(te_file_name e \<mapsto> fst (write_sstable w (cc_block_size c) out)))" using oc by blast
    have fresh: "te_file_name e \<noteq> te_file_name t" "te_id t \<noteq> te_id e" if "t \<in> set (all_tables m)" for t
      using table_name_inj(2) [OF wfm that that] e wfm that by (auto simp: wf_manifest_def)
    have new: "e \<notin> set (all_tables m)" using fresh(2) by blast
    have "wf_manifest m'" unfolding m'
    proof (rule wf_add)
      show "wf_manifest ((remove_sstables m (map te_id ?old))\<lparr>mf_next_sst_id := Suc (mf_next_sst_id m)\<rparr>)"
        by (intro wf_next_sst wf_remove wfm) simp
      have "te_id t \<noteq> te_id e" if "t \<in> rest" for t using fresh(2) [of t] that by (simp add: rest_def)
      then have "te_id e \<notin> te_id ` rest" by (metis imageE)
      then show "te_id e \<notin> te_id ` set (all_tables ((remove_sstables m (map te_id ?old))\<lparr>mf_next_sst_id := Suc (mf_next_sst_id m)\<rparr>))"
        by (simp add: rest del: map_append)
    qed (use e in simp_all)
    moreover have "set (all_tables m') = insert e rest" unfolding m' by (simp add: rest del: map_append)
    moreover have "fs' (te_file_name t) = fs (te_file_name t)" if "t \<in> rest" for t
    proof -
      have t: "t \<in> set (all_tables m)" "t \<notin> set ?old" using that by (simp_all add: rest_def)
      then have "te_file_name t \<notin> te_file_name ` set ?old"
        using table_name_inj(1) [OF wfm t(1)] in_old_tables by blast
      then show ?thesis using fresh(1) [OF t(1)] by (auto simp: fs' remove_files_def)
    qed
    moreover have "fs' (te_file_name e) = Some (fst (write_sstable w (cc_block_size c) out))"
      using fresh(1) in_old_tables by (fastforce simp: fs' remove_files_def)
    then have "good_table w fs' e" "contents w fs' e = out"
      using written_table [OF assms(1) _ False _ _ _ _ e(4,5)] survivors_facts(1,2) [OF good, of level] wt [of entry_unit] wt [of entry_bytes] assms(5,6)
      by (simp_all add: out_def weight_unit weight_bytes)
    ultimately show ?thesis using False new e(2) m' by (intro exI [of _ e]) auto
  qed
qed

lemma ranges_apart:
  assumes "wf_tables w fs m" and "e \<in> set (all_tables m)" and "e' \<in> set (all_tables m)"
    and "0 < te_level e" and "te_level e = te_level e'"
    and "table_map w fs e k \<noteq> None" and "table_map w fs e' k \<noteq> None"
  shows "e = e'"
proof -
  have "good_table w fs e" "good_table w fs e'" using assms(1-3) by (simp_all add: wf_tables_def)
  then have "te_min_key e \<le> k" "k \<le> te_max_key e" "te_min_key e' \<le> k" "k \<le> te_max_key e'"
    using good_table_range assms(6,7) by blast+
  then have "\<not> te_max_key e < te_min_key e'" "\<not> te_max_key e' < te_min_key e" by auto
  moreover have "ranges_disjoint m" using assms(1) by (simp add: wf_tables_def)
  ultimately show ?thesis using assms(2-5) unfolding ranges_disjoint_def by blast
qed

lemma target_overlaps:
  assumes "e \<in> set (manifest_level m level)" and "t \<in> set (manifest_level m (Suc level))"
    and "te_min_key t \<le> te_max_key e" and "te_min_key e \<le> te_max_key t"
  shows "t \<in> set (target_tables m level)"
proof -
  have "te_max_key e \<le> Max (te_max_key ` set (manifest_level m level))"
    "Min (te_min_key ` set (manifest_level m level)) \<le> te_min_key e" using assms(1) by simp_all
  then show ?thesis using assms(2-4) by (auto simp: target_tables_def overlapping_def Let_def)
qed

text \<open>A table of the next level that is not merged lies entirely on one side of every merged key: the
  merged ranges all meet the source range, so their union has no gap the table could lie in.\<close>

lemma spectator_apart:
  assumes wf: "wf_tables w fs m" and t: "t \<in> set (manifest_level m (Suc level))" "t \<notin> set (target_tables m level)"
    and src: "manifest_level m level \<noteq> []"
  shows "(\<forall>e \<in> set (manifest_level m level @ target_tables m level). te_max_key t < te_min_key e) \<or>
     (\<forall>e \<in> set (manifest_level m level @ target_tables m level). te_max_key e < te_min_key t)"
proof -
  let ?src = "manifest_level m level"
  let ?lo = "Min (te_min_key ` set ?src)" and ?hi = "Max (te_max_key ` set ?src)"
  have good: "te_min_key e \<le> te_max_key e" if "e \<in> set (all_tables m)" for e
    using wf that good_table_min_max by (auto simp: wf_tables_def)
  have lohi: "?lo \<le> te_min_key e" "te_max_key e \<le> ?hi" if "e \<in> set ?src" for e using that by simp_all
  have tin: "t \<in> set (all_tables m)" using t(1) by (auto simp: set_all_tables)
  have side: "?hi < te_min_key t \<or> te_max_key t < ?lo"
    using t by (auto simp: target_tables_def overlapping_def Let_def not_le)
  have tgt: "te_min_key e \<le> ?hi" "?lo \<le> te_max_key e" "e \<in> set (all_tables m)" "te_level e = Suc level" "e \<noteq> t"
    if "e \<in> set (target_tables m level)" for e
    using that t(2) wf_manifest_level [of m e "Suc level"] wf
    by (auto simp: target_tables_def overlapping_def set_all_tables wf_tables_def Let_def)
  have tl: "te_level t = Suc level" using wf wf_manifest_level [OF _ t(1)] by (simp add: wf_tables_def)
  have apart: "te_max_key e < te_min_key t \<or> te_max_key t < te_min_key e" if "e \<in> set (target_tables m level)" for e
    using wf tgt(3-5) [OF that] tin tl unfolding wf_tables_def ranges_disjoint_def by fastforce
  from side show ?thesis
  proof
    assume hi: "?hi < te_min_key t"
    have "te_max_key e < te_min_key t" if "e \<in> set (?src @ target_tables m level)" for e
    proof (cases "e \<in> set ?src")
      case True
      then show ?thesis using lohi(2) [OF True] hi by order
    next
      case False
      then have e: "e \<in> set (target_tables m level)" using that by simp
      then show ?thesis using apart [OF e] tgt(1) [OF e] hi good [OF tin] by (elim disjE) order+
    qed
    then show ?thesis by blast
  next
    assume lo: "te_max_key t < ?lo"
    have "te_max_key t < te_min_key e" if "e \<in> set (?src @ target_tables m level)" for e
    proof (cases "e \<in> set ?src")
      case True
      then show ?thesis using lohi(1) [OF True] lo by order
    next
      case False
      then have e: "e \<in> set (target_tables m level)" using that by simp
      then show ?thesis using apart [OF e] tgt(2) [OF e] lo good [OF tin] by (elim disjE) order+
    qed
    then show ?thesis by blast
  qed
qed

lemma compact_wf:
  assumes "sst_env_ok w" and wf: "wf_tables w fs m" and cp: "compact w io c m fs level = Some (Inr res, m', fs')"
    and small: "stored entry_unit w fs m < 2 ^ 32" "stored entry_bytes w fs m < 2 ^ 60"
  shows "wf_tables w fs' m'" and "stored f w fs' m' \<le> stored f w fs m"
    and "tables_agree w fs (manifest_level m level) k \<Longrightarrow>
      visible (table_view (table_map w fs') (all_tables m') k) = visible (table_view (table_map w fs) (all_tables m) k)"
proof -
  let ?src = "manifest_level m level" and ?S = "set (all_tables m)" and ?out = "survivors w fs m level"
  let ?old = "?src @ target_tables m level"
  have goal: "wf_tables w fs' m' \<and> stored f w fs' m' \<le> stored f w fs m \<and>
    (tables_agree w fs ?src k \<longrightarrow>
      visible (table_view (table_map w fs') (all_tables m') k) = visible (table_view (table_map w fs) (all_tables m) k))"
  proof (cases "?src = []")
    case True
    then have "m' = m" "fs' = fs" using cp by (simp_all add: compact_def)
    then show ?thesis using wf by simp
  next
    case False
    have wfm: "wf_manifest m" and good: "\<forall>e \<in> ?S. good_table w fs e" using wf by (simp_all add: wf_tables_def)
    obtain new where wfm': "wf_manifest m'" and new: "new \<notin> ?S" "te_level new = Suc level"
      and S': "set (all_tables m') = (if ?out = [] then ?S - set ?old else insert new (?S - set ?old))"
      and fr: "\<And>e. e \<in> ?S - set ?old \<Longrightarrow> fs' (te_file_name e) = fs (te_file_name e)"
      and gn: "?out \<noteq> [] \<Longrightarrow> good_table w fs' new \<and> contents w fs' new = ?out"
      using compact_tables [OF assms(1) wf cp False small] by metis
    have keep: "contents w fs' e = contents w fs e" "good_table w fs' e" if "e \<in> ?S - set ?old" for e
      using contents_frame [of fs' e fs w] good_table_frame(2) [of fs' e fs w] fr [OF that] good that by auto
    have rng: "\<exists>e \<in> set ?old. te_min_key e \<le> fst x \<and> fst x \<le> te_max_key e" if x: "x \<in> set ?out" for x
    proof -
      obtain e where e: "e \<in> set ?old" "x \<in> set (contents w fs e)"
        using survivors_facts(3) [OF good, of level] x by blast
      have "good_table w fs e" using good in_old_tables [OF e(1)] by blast
      then have "te_min_key e \<le> fst x \<and> fst x \<le> te_max_key e"
        using e(2) sorted_map_bounds [of "contents w fs e" x] by (simp add: good_table_def)
      then show ?thesis using e(1) by blast
    qed
    have new_apart: "te_max_key t < te_min_key new \<or> te_max_key new < te_min_key t"
      if t: "t \<in> ?S - set ?old" "te_level t = Suc level" and ne: "?out \<noteq> []" for t
    proof -
      have k: "te_min_key new = fst (hd ?out)" "te_max_key new = fst (last ?out)"
        using gn [OF ne] by (simp_all add: good_table_def)
      have "t \<in> set (manifest_level m (Suc level))" "t \<notin> set (target_tables m level)"
        using t manifest_level_set [OF wfm] by auto
      from spectator_apart [OF wf this False] show ?thesis
        using rng [of "hd ?out"] rng [of "last ?out"] ne unfolding k by (meson hd_in_set last_in_set le_less_trans less_le_trans)
    qed
    have "ranges_disjoint m'" unfolding ranges_disjoint_def
    proof (intro ballI impI)
      fix a b assume ab: "a \<in> set (all_tables m')" "b \<in> set (all_tables m')" "0 < te_level a" "te_level a = te_level b"
      consider "a = b" | "a \<in> ?S - set ?old" "b \<in> ?S - set ?old" | "a = new" "b \<in> ?S - set ?old" "?out \<noteq> []"
        | "b = new" "a \<in> ?S - set ?old" "?out \<noteq> []" using ab(1,2) S' by (auto split: if_splits)
      then show "a = b \<or> te_max_key a < te_min_key b \<or> te_max_key b < te_min_key a"
      proof cases
        case 2
        then show ?thesis using wf ab(3,4) unfolding wf_tables_def ranges_disjoint_def by blast
      qed (use new_apart [of a] new_apart [of b] new(2) ab(4) in auto)
    qed
    have "wf_tables w fs' m'" using wfm' \<open>ranges_disjoint m'\<close> gn keep S' by (auto simp: wf_tables_def split: if_splits)
    moreover have "stored f w fs' m' \<le> stored f w fs m"
    proof -
      let ?g = "\<lambda>e. weight f (contents w fs e)"
      have "stored f w fs' m' \<le> sum ?g (?S - set ?old) + weight f ?out"
        using S' new(1) keep(1) gn by (simp add: stored_def)
      also have "\<dots> \<le> sum ?g (?S - set ?old) + sum ?g (set ?old)"
        using survivors_weight [OF wfm good, of f level] by simp
      also have "\<dots> = stored f w fs m"
        unfolding stored_def by (rule sum.subset_diff [symmetric]) (use in_old_tables in auto)
      finally show ?thesis .
    qed
    moreover have "visible (table_view (table_map w fs') (all_tables m') k) = visible (table_view (table_map w fs) (all_tables m) k)"
      if ag: "tables_agree w fs ?src k"
    proof -
      have lv: "set ?src = {e \<in> ?S. te_level e = level}" "set (target_tables m level) \<subseteq> {e \<in> ?S. te_level e = Suc level}"
        using manifest_level_set [OF wfm] by (auto simp: target_tables_def Let_def)
      have ov: "t \<in> set (target_tables m level)"
        if "e \<in> set ?src" "table_map w fs e k \<noteq> None" "t \<in> ?S" "te_level t = Suc level" "table_map w fs t k \<noteq> None" for e t
      proof -
        have "good_table w fs e" "good_table w fs t" using good lv that by auto
        then have "te_min_key e \<le> k" "k \<le> te_max_key e" "te_min_key t \<le> k" "k \<le> te_max_key t"
          using good_table_range that by blast+
        then show ?thesis
          using target_overlaps [OF that(1), of t] that(3,4) manifest_level_set [OF wfm, of "Suc level"] by auto
      qed
      have dp: "te_level e \<le> Suc level" if "Suc level \<ge> num_levels m - 1" "e \<in> ?S" for e
      proof -
        have "e \<in> set (manifest_level m (te_level e))" using that(2) manifest_level_set [OF wfm] by blast
        then have "te_level e < num_levels m" using manifest_level_out [of m "te_level e"] by (cases "te_level e < num_levels m") auto
        then show ?thesis using that(1) by simp
      qed
      have "merge_step (table_map w fs) (table_map w fs') ?S (set (all_tables m')) ?src (target_tables m level) level
          (Suc level \<ge> num_levels m - 1) new k"
        unfolding merge_step_def Let_def
      proof (intro conjI)
        show "(if new \<in> set (all_tables m') then table_map w fs' new k else None) =
          (if num_levels m - 1 \<le> Suc level \<and> first_hit (map (table_map w fs) ?old) k = Some None then None
           else first_hit (map (table_map w fs) ?old) k)"
          using survivors_facts(4) [OF good, of level k] S' new(1) gn by (cases "?out = []") (simp_all add: Let_def split: if_splits)
        show "set (all_tables m') - {new} = ?S - (set ?src \<union> set (target_tables m level))" using S' new(1) by auto
        show "\<forall>e \<in> ?S. \<forall>e' \<in> ?S. te_level e = Suc level \<longrightarrow> te_level e' = Suc level \<longrightarrow> table_map w fs e k \<noteq> None \<longrightarrow>
            table_map w fs e' k \<noteq> None \<longrightarrow> e = e'"
          using ranges_apart [OF wf] by auto
      qed (use lv ag new(2) keep(1) ov dp in \<open>simp_all add: tables_agree_def\<close>)
      moreover have "inj_on table_key ?S"
        using wf_manifest_inj [OF wfm] by (auto simp: inj_on_def table_key_def)
      ultimately show ?thesis by (rule merge_step_visible [OF _ refl refl])
    qed
    ultimately show ?thesis by blast
  qed
  then show "wf_tables w fs' m'" "stored f w fs' m' \<le> stored f w fs m"
    "tables_agree w fs ?src k \<Longrightarrow>
      visible (table_view (table_map w fs') (all_tables m') k) = visible (table_view (table_map w fs) (all_tables m) k)"
    by blast+
qed

lemma compact_succeeds:
  assumes "\<forall>e \<in> set (all_tables m). good_table w fs e" and "\<And>n. ti_read io n" and "\<And>n. ti_write io n = IoOk"
  shows "\<exists>res m' fs'. compact w io c m fs level = Some (Inr res, m', fs')"
proof -
  let ?old = "manifest_level m level @ target_tables m level"
  have "\<forall>e \<in> set ?old. good_table w fs e \<and> ti_read io (te_file_name e)"
    using assms(1,2) in_old_tables by blast
  from read_tables_ok [OF this] have rd: "read_tables w (ti_read io) fs ?old = Some (Inr (concat (map (contents w fs) ?old)))" .
  have "\<exists>res m' fs'. install_merge w io c m fs l old es = (Inr res, m', fs')" for l old es
    by (simp add: install_merge_def next_sst_filename_def write_to_def assms(3) Let_def split: prod.split)
  then show ?thesis
    unfolding compact_def Let_def using rd by (simp only: option.case sum.case) (metis (full_types))
qed

text \<open>When the source level is the only one above the rest that holds a key, the merged value of the key is
  the one of the first listed table of the source level.\<close>

lemma compact_first_wins:
  assumes "sst_env_ok w" and wf: "wf_tables w fs m" and cp: "compact w io c m fs level = Some (Inr res, m', fs')"
    and small: "stored entry_unit w fs m < 2 ^ 32" "stored entry_bytes w fs m < 2 ^ 60"
    and k: "first_hit (map (table_map w fs) (manifest_level m level)) k = Some (Some v)"
    and above: "\<forall>e \<in> set (all_tables m). te_level e < level \<longrightarrow> table_map w fs e k = None"
  shows "table_view (table_map w fs') (all_tables m') k = Some (Some v)"
proof -
  let ?src = "manifest_level m level" and ?S = "set (all_tables m)" and ?out = "survivors w fs m level"
  let ?old = "?src @ target_tables m level"
  have ne: "?src \<noteq> []" using k by auto
  have wfm: "wf_manifest m" and good: "\<forall>e \<in> ?S. good_table w fs e" using wf by (simp_all add: wf_tables_def)
  obtain new where new: "te_level new = Suc level"
    and S': "set (all_tables m') = (if ?out = [] then ?S - set ?old else insert new (?S - set ?old))"
    and fr: "\<forall>e \<in> ?S - set ?old. fs' (te_file_name e) = fs (te_file_name e)"
    and gn: "?out \<noteq> [] \<longrightarrow> good_table w fs' new \<and> contents w fs' new = ?out"
    using compact_tables [OF assms(1) wf cp ne small] by metis
  have out: "map_of ?out k = Some (Some v)"
    using survivors_facts(4) [OF good, of level k] k by (simp add: Let_def first_hit_append)
  then have "?out \<noteq> []" by auto
  then have N: "new \<in> set (all_tables m')" "table_map w fs' new k = Some (Some v)" using S' gn out by auto
  obtain e0 where e0: "e0 \<in> set ?src" "table_map w fs e0 k \<noteq> None" using first_hit_in [OF k] by auto
  have "table_key new < table_key e" if e: "e \<in> ?S - set ?old" "table_map w fs' e k \<noteq> None" for e
  proof (rule table_key_level(1))
    have "contents w fs' e = contents w fs e" by (rule contents_frame) (use fr e(1) in blast)
    then have he: "table_map w fs e k \<noteq> None" using e(2) by simp
    have "good_table w fs e" "good_table w fs e0" using good e(1) in_old_tables [of e0 m level] e0(1) by auto
    then have b: "te_min_key e \<le> k" "k \<le> te_max_key e" "te_min_key e0 \<le> k" "k \<le> te_max_key e0"
      using good_table_range he e0(2) by blast+
    have "te_level e \<noteq> level" using e(1) manifest_level_set [OF wfm, of level] by auto
    moreover have "te_level e \<noteq> Suc level"
    proof
      assume "te_level e = Suc level"
      then have "e \<in> set (manifest_level m (Suc level))" using e(1) manifest_level_set [OF wfm, of "Suc level"] by auto
      then have "e \<in> set (target_tables m level)" using target_overlaps [OF e0(1)] b by (meson order_trans)
      then show False using e(1) by simp
    qed
    moreover have "\<not> te_level e < level" using above e(1) he by auto
    ultimately show "te_level new < te_level e" using new by simp
  qed
  then have "decides (table_map w fs') (set (all_tables m')) k new"
    using N S' \<open>?out \<noteq> []\<close> unfolding decides_def by auto
  then show ?thesis using table_view_decides N(2) by metis
qed

text \<open>Below level 0 a key is in one table of a level, and so the tables of a level agree on it.\<close>

lemma deep_level_agrees:
  assumes "wf_tables w fs m" and "0 < level \<or> tables_agree w fs (manifest_level m 0) key"
  shows "tables_agree w fs (manifest_level m level) key"
proof (cases "0 < level")
  case True
  have wfm: "wf_manifest m" using assms(1) by (simp add: wf_tables_def)
  have "e = e'" if "e \<in> set (manifest_level m level)" "e' \<in> set (manifest_level m level)"
    "table_map w fs e key \<noteq> None" "table_map w fs e' key \<noteq> None" for e e'
    using ranges_apart [OF assms(1), of e e' key] that True manifest_level_set [OF wfm, of level] by auto
  then show ?thesis unfolding tables_agree_def by blast
qed (use assms(2) in simp)

text \<open>A compaction invents no values.\<close>

lemma compact_values:
  assumes "sst_env_ok w" and wf: "wf_tables w fs m" and cp: "compact w io c m fs level = Some (Inr res, m', fs')"
    and small: "stored entry_unit w fs m < 2 ^ 32" "stored entry_bytes w fs m < 2 ^ 60"
    and e: "e \<in> set (all_tables m')" "table_map w fs' e k = Some v"
  shows "\<exists>e0 \<in> set (all_tables m). table_map w fs e0 k = Some v"
proof (cases "manifest_level m level = []")
  case True
  then have "m' = m" "fs' = fs" using cp by (simp_all add: compact_def)
  then show ?thesis using e by blast
next
  case False
  let ?old = "manifest_level m level @ target_tables m level" and ?out = "survivors w fs m level"
  have good: "\<forall>e \<in> set (all_tables m). good_table w fs e" using wf by (simp add: wf_tables_def)
  obtain new where S': "set (all_tables m') = (if ?out = [] then set (all_tables m) - set ?old
        else insert new (set (all_tables m) - set ?old))"
    and fr: "\<forall>e \<in> set (all_tables m) - set ?old. fs' (te_file_name e) = fs (te_file_name e)"
    and gn: "?out \<noteq> [] \<longrightarrow> good_table w fs' new \<and> contents w fs' new = ?out"
    using compact_tables [OF assms(1) wf cp False small] by metis
  show ?thesis
  proof (cases "e \<in> set (all_tables m) - set ?old")
    case True
    have "contents w fs' e = contents w fs e" by (rule contents_frame) (use fr True in blast)
    then show ?thesis using True e(2) by auto
  next
    case new: False
    then have "?out \<noteq> []" "e = new" using e(1) S' by (auto split: if_splits)
    then have "map_of ?out k = Some v" using gn e(2) by simp
    then have "first_hit (map (table_map w fs) ?old) k = Some v"
      using survivors_facts(4) [OF good, of level k] by (auto simp: Let_def split: if_splits)
    then obtain e0 where "e0 \<in> set ?old" "table_map w fs e0 k = Some v" using first_hit_in by fastforce
    then show ?thesis using in_old_tables by blast
  qed
qed

text \<open>A compaction of a deeper level adds no table to level 0.\<close>

lemma compact_level0:
  assumes "sst_env_ok w" and wf: "wf_tables w fs m" and cp: "compact w io c m fs level = Some (Inr res, m', fs')"
    and small: "stored entry_unit w fs m < 2 ^ 32" "stored entry_bytes w fs m < 2 ^ 60"
  shows "num_levels m \<le> num_levels m'" and "level_count m' 0 \<le> level_count m 0"
proof -
  have "num_levels m \<le> num_levels m' \<and> set (manifest_level m' 0) \<subseteq> set (manifest_level m 0)"
  proof (cases "manifest_level m level = []")
    case True
    then have "m' = m" using cp by (simp add: compact_def)
    then show ?thesis by simp
  next
    case False
    have wfm: "wf_manifest m" using wf by (simp add: wf_tables_def)
    obtain new where new: "wf_manifest m'" "num_levels m \<le> num_levels m'" "te_level new = Suc level"
      and sub: "set (all_tables m') \<subseteq> insert new (set (all_tables m))"
      using compact_tables [OF assms(1) wf cp False small] by (auto split: if_splits)
    show ?thesis using new sub unfolding manifest_level_set [OF wfm] manifest_level_set [OF new(1)] by auto
  qed
  moreover have "distinct (manifest_level m' 0)"
    using compact_wf(1) [OF assms] by (simp add: distinct_level wf_tables_def)
  ultimately show "num_levels m \<le> num_levels m'" "level_count m' 0 \<le> level_count m 0"
    using card_mono [of "set (manifest_level m 0)" "set (manifest_level m' 0)"] card_length [of "manifest_level m 0"]
    by (simp_all add: distinct_card)
qed

section \<open>Properties of compaction\<close>

text \<open>C18: a successful compaction does not lose or change data. Lookups before and after it see the same
  value for a key, if the source level is not level 0 or the tables of level 0 do not hold different
  values for the key; the table files stay readable and sorted, and on every level but the first the key
  ranges stay disjoint. Tombstones are dropped only where no deeper level can hold the key. The tree is
  assumed to hold fewer than \<open>2 ^ 32\<close> entries and \<open>2 ^ 60\<close> bytes.\<close>

theorem compaction_preserves_lookups:
  assumes "sst_env_ok w" and "wf_tables w fs m" and "compact w io c m fs level = Some (Inr res, m', fs')"
    and "stored entry_unit w fs m < 2 ^ 32" and "stored entry_bytes w fs m < 2 ^ 60"
    and "0 < level \<or> tables_agree w fs (manifest_level m 0) key"
  shows "wf_tables w fs' m' \<and>
    visible (table_view (table_map w fs') (all_tables m') key) = visible (table_view (table_map w fs) (all_tables m) key)"
  using compact_wf [OF assms(1-5)] deep_level_agrees [OF assms(2,6)] by simp

text \<open>Two tables of level 0 that hold different values of one key; the second is the newer one.\<close>

definition demo_sst_entry :: "nat \<Rightarrow> nat \<Rightarrow> block_entry list \<Rightarrow> sst_entry" where
  "demo_sst_entry i l es = \<lparr>te_id = i, te_level = l, te_file_name = sst_file_name i, te_min_key = fst (hd es),
     te_max_key = fst (last es), te_entry_count = length es, te_file_size = 0\<rparr>"

definition demo_old :: "block_entry list" where
  "demo_old = [([7], Some [1])]"

definition demo_new :: "block_entry list" where
  "demo_new = [([7], Some [2]), ([8], Some [3])]"

definition demo_files :: files where
  "demo_files = [sst_file_name 2 \<mapsto> fst (write_sstable demo_sst 64 demo_old), sst_file_name 3 \<mapsto> fst (write_sstable demo_sst 64 demo_new)]"

definition demo_manifest :: manifest where
  "demo_manifest = \<lparr>mf_levels = [[demo_sst_entry 2 0 demo_old, demo_sst_entry 3 0 demo_new], [], []], mf_next_sst_id = 4\<rparr>"

definition demo_table_io :: table_io where
  "demo_table_io = \<lparr>ti_read = (\<lambda>_. True), ti_write = (\<lambda>_. IoOk), ti_unlink = (\<lambda>_. True)\<rparr>"

lemma demo_tables:
  "all_tables demo_manifest = [demo_sst_entry 2 0 demo_old, demo_sst_entry 3 0 demo_new]"
  "manifest_level demo_manifest 0 = [demo_sst_entry 2 0 demo_old, demo_sst_entry 3 0 demo_new]"
  by (simp_all add: demo_manifest_def all_tables_def manifest_level_def vec_get_def)

lemma demo_contents:
  "good_table demo_sst demo_files (demo_sst_entry 2 0 demo_old)" "contents demo_sst demo_files (demo_sst_entry 2 0 demo_old) = demo_old"
  "good_table demo_sst demo_files (demo_sst_entry 3 0 demo_new)" "contents demo_sst demo_files (demo_sst_entry 3 0 demo_new) = demo_new"
proof -
  have s: "sorted_map demo_old" "sorted_map demo_new" "\<forall>x \<in> set demo_old. storable x" "\<forall>x \<in> set demo_new. storable x"
    "demo_old \<noteq> []" "demo_new \<noteq> []" "length demo_old < 2 ^ 32" "length demo_new < 2 ^ 32" "data_size demo_old < 2 ^ 60" "data_size demo_new < 2 ^ 60"
    by (simp_all add: demo_old_def demo_new_def storable_def value_len_def TOMBSTONE_MARKER_def)
  note od = written_table [OF demo_sst_ok s(1) s(5) s(3) s(7) s(9), where block_size = 64 and fs = demo_files and e = "demo_sst_entry 2 0 demo_old"]
  note nw = written_table [OF demo_sst_ok s(2) s(6) s(4) s(8) s(10), where block_size = 64 and fs = demo_files and e = "demo_sst_entry 3 0 demo_new"]
  show "good_table demo_sst demo_files (demo_sst_entry 2 0 demo_old)" "contents demo_sst demo_files (demo_sst_entry 2 0 demo_old) = demo_old"
    using od by (simp_all add: demo_sst_entry_def demo_files_def)
  show "good_table demo_sst demo_files (demo_sst_entry 3 0 demo_new)" "contents demo_sst demo_files (demo_sst_entry 3 0 demo_new) = demo_new"
    using nw by (simp_all add: demo_sst_entry_def demo_files_def)
qed

lemma demo_wf: "wf_tables demo_sst demo_files demo_manifest"
proof -
  have "wf_manifest demo_manifest" unfolding wf_manifest_def demo_tables
    by (auto simp: demo_manifest_def demo_sst_entry_def num_levels_def manifest_level_def vec_get_def less_Suc_eq numeral_eq_Suc)
  moreover have "ranges_disjoint demo_manifest" by (simp add: ranges_disjoint_def demo_tables demo_sst_entry_def)
  ultimately show ?thesis by (simp add: wf_tables_def demo_tables demo_contents)
qed

lemma demo_small: "stored entry_unit demo_sst demo_files demo_manifest < 2 ^ 32" "stored entry_bytes demo_sst demo_files demo_manifest < 2 ^ 60"
proof -
  have "demo_sst_entry 2 0 demo_old \<noteq> demo_sst_entry 3 0 demo_new" by (simp add: demo_sst_entry_def)
  then show "stored entry_unit demo_sst demo_files demo_manifest < 2 ^ 32" "stored entry_bytes demo_sst demo_files demo_manifest < 2 ^ 60"
    by (simp_all add: stored_def demo_tables demo_contents weight_unit weight_bytes) (simp_all add: demo_old_def demo_new_def value_len_def)
qed

lemma demo_compacts:
  "\<exists>res m' fs'. compact demo_sst demo_table_io compaction_config_default demo_manifest demo_files 0 = Some (Inr res, m', fs')"
  by (rule compact_succeeds) (simp_all add: demo_tables demo_contents demo_table_io_def)

theorem compaction_preserves_lookups_witness:
  "\<exists>res m' fs'. compact demo_sst demo_table_io compaction_config_default demo_manifest demo_files 0 = Some (Inr res, m', fs') \<and>
     wf_tables demo_sst fs' m' \<and> visible (table_view (table_map demo_sst fs') (all_tables m') [8]) =
       visible (table_view (table_map demo_sst demo_files) (all_tables demo_manifest) [8])"
proof -
  obtain res m' fs' where cp: "compact demo_sst demo_table_io compaction_config_default demo_manifest demo_files 0 = Some (Inr res, m', fs')"
    using demo_compacts by blast
  have "tables_agree demo_sst demo_files (manifest_level demo_manifest 0) [8]"
    unfolding tables_agree_def demo_tables by (simp add: demo_contents) (simp add: demo_old_def demo_new_def)
  then show ?thesis
    using compaction_preserves_lookups [OF demo_sst_ok demo_wf cp demo_small, of "[8]"] cp by blast
qed

text \<open>C19: compaction of level 0 keeps the oldest value of a key instead of the newest. Of two tables of
  level 0 the newer one maps a key to 2 and the older one to 1; lookups see 2 before the compaction and 1
  after it. The tables are listed oldest first, the sort is stable and the first entry of each key is
  kept.\<close>

theorem compaction_revives_old_value:
  "\<exists>res m' fs'. compact demo_sst demo_table_io compaction_config_default demo_manifest demo_files 0 = Some (Inr res, m', fs') \<and>
     table_view (table_map demo_sst demo_files) (all_tables demo_manifest) [7] = Some (Some [2]) \<and>
     table_view (table_map demo_sst fs') (all_tables m') [7] = Some (Some [1])"
proof -
  obtain res m' fs' where cp: "compact demo_sst demo_table_io compaction_config_default demo_manifest demo_files 0 = Some (Inr res, m', fs')"
    using demo_compacts by blast
  have "first_hit (map (table_map demo_sst demo_files) (manifest_level demo_manifest 0)) [7] = Some (Some [1])"
    by (simp add: demo_tables demo_contents) (simp add: demo_old_def)
  then have "table_view (table_map demo_sst fs') (all_tables m') [7] = Some (Some [1])"
    using compact_first_wins [OF demo_sst_ok demo_wf cp demo_small] by simp
  moreover have "decides (table_map demo_sst demo_files) (set (all_tables demo_manifest)) [7] (demo_sst_entry 3 0 demo_new)"
    unfolding decides_def demo_tables
    by (simp add: demo_contents) (simp add: demo_new_def table_key_def demo_sst_entry_def)
  then have "table_view (table_map demo_sst demo_files) (all_tables demo_manifest) [7] = Some (Some [2])"
    using table_view_decides [of _ "all_tables demo_manifest"] by (simp add: demo_contents) (simp add: demo_new_def)
  ultimately show ?thesis using cp by blast
qed

end
