(* ===== verification/Lsm.thy ===== *)
theory Lsm
  imports Compaction_View Wal
begin

text \<open>
  The LSM tree (\<open>raft-storage/src/lsm.rs\<close>): writes go to the write-ahead log and the active memtable; a
  full memtable is written to a table of level 0; reads consult the memtables and then the tables, newest
  first. A tree carries the files of its directory, so that a crash and a restart can be expressed. Each
  method runs to completion before the next one starts. \<open>None\<close> is a panic.
\<close>

section \<open>Operations in the write-ahead log\<close>

datatype wal_op = WalPut bytes bytes | WalDelete bytes

fun wal_op_encode :: "wal_op \<Rightarrow> bytes" where
  "wal_op_encode (WalPut key value) =
     [1] @ le_bytes 4 (as_u32 (length key)) @ key @ le_bytes 4 (as_u32 (length value)) @ value"
| "wal_op_encode (WalDelete key) = [2] @ le_bytes 4 (as_u32 (length key)) @ key"

definition wal_op_decode :: "bytes \<Rightarrow> wal_op result option" where
  "wal_op_decode data =
     (case data of
        [] \<Rightarrow> Some (Inl (Corruption ''empty WAL op''))
      | tag # _ \<Rightarrow>
          if tag = 1 then
            Option.bind (subslice data 1 5) (\<lambda>kl. let key_len = le_value kl in
            Option.bind (subslice data 5 (5 + key_len)) (\<lambda>key. let val_start = 5 + key_len in
            Option.bind (subslice data val_start (val_start + 4)) (\<lambda>vl. let val_len = le_value vl in
            Option.bind (subslice data (val_start + 4) (val_start + 4 + val_len)) (\<lambda>value.
              Some (Inr (WalPut key value))))))
          else if tag = 2 then
            Option.bind (subslice data 1 5) (\<lambda>kl. let key_len = le_value kl in
            Option.bind (subslice data 5 (5 + key_len)) (\<lambda>key. Some (Inr (WalDelete key))))
          else Some (Inl (Corruption ''unknown WAL op tag'')))"

section \<open>State and environment\<close>

definition NUM_LEVELS :: nat where
  "NUM_LEVELS = 7"

definition MANIFEST_FILE :: string where
  "MANIFEST_FILE = ''MANIFEST''"

record lsm_config =
  lc_memtable_size_limit :: nat
  lc_block_size :: nat
  lc_l0_compaction_trigger :: nat
  lc_level_size_ratio :: nat

definition lsm_config_default :: lsm_config where
  "lsm_config_default = \<lparr>lc_memtable_size_limit = 4 * 1024 * 1024, lc_block_size = 4096,
     lc_l0_compaction_trigger = 4, lc_level_size_ratio = 10\<rparr>"

definition compaction_of :: "lsm_config \<Rightarrow> compaction_config" where
  "compaction_of c = \<lparr>cc_l0_compaction_trigger = lc_l0_compaction_trigger c,
     cc_level_size_ratio = lc_level_size_ratio c, cc_block_size = lc_block_size c\<rparr>"

text \<open>The file \<open>wal.log\<close> is the disk of the writer, unless the name was removed and could not be created
  again: then the writer's file is no longer linked in the directory.\<close>

record lsm_tree =
  lt_files :: files
  lt_active :: memtable
  lt_immutables :: "memtable list"
  lt_manifest :: manifest
  lt_wal :: wal_writer
  lt_wal_linked :: bool
  lt_cache :: "(sst_entry \<times> sst_reader) list"
  lt_config :: lsm_config

record lsm_env =
  le_sst :: sst_env
  le_crc :: "bytes \<Rightarrow> 32 word"
  le_enc :: "manifest \<Rightarrow> bytes option"
  le_dec :: "bytes \<Rightarrow> manifest option"
  le_tables :: table_io
  le_save :: "manifest \<Rightarrow> io_outcome"
  le_rename :: "manifest \<Rightarrow> bool"
  le_wal_write :: bool
  le_wal_sync :: bool
  le_wal_unlink :: bool
  le_wal_open :: bool
  le_mkdir :: bool
  le_read_manifest :: bool

section \<open>Opening\<close>

text \<open>The readers of all tables whose file exists, in manifest order, up to the first that fails.\<close>

fun load_cache ::
  "sst_env \<Rightarrow> (string \<Rightarrow> bool) \<Rightarrow> files \<Rightarrow> sst_entry list \<Rightarrow> (sst_entry \<times> sst_reader) list \<Rightarrow>
   (unit result \<times> (sst_entry \<times> sst_reader) list) option" where
  "load_cache w rd fs [] acc = Some (Inr (), acc)"
| "load_cache w rd fs (e # es) acc =
     (if fs (te_file_name e) = None then load_cache w rd fs es acc
      else case open_table w rd fs (te_file_name e) of
             None \<Rightarrow> None
           | Some (Inl err) \<Rightarrow> Some (Inl err, acc)
           | Some (Inr r) \<Rightarrow> load_cache w rd fs es (acc @ [(e, r)]))"

fun to_mt_op :: "wal_op \<Rightarrow> mt_op" where
  "to_mt_op (WalPut key value) = MtPut key value"
| "to_mt_op (WalDelete key) = MtDelete key"

definition replay_wal ::
  "(bytes \<Rightarrow> 32 word) \<Rightarrow> nat \<Rightarrow> bytes option \<Rightarrow> memtable result option" where
  "replay_wal crc limit wal_file =
     (case wal_file of
        None \<Rightarrow> Some (Inr (memtable_new limit))
      | Some bs \<Rightarrow>
          (case read_all crc bs of
             Inl e \<Rightarrow> Some (Inl e)
           | Inr rs \<Rightarrow>
               (case decode_records wal_op_decode rs of
                  None \<Rightarrow> None
                | Some (Inl e) \<Rightarrow> Some (Inl e)
                | Some (Inr ops) \<Rightarrow>
                    (case mt_run (memtable_new limit) (map to_mt_op ops) of
                       None \<Rightarrow> None
                     | Some mt \<Rightarrow> Some (Inr mt)))))"

definition lsm_open :: "lsm_env \<Rightarrow> lsm_config \<Rightarrow> files \<Rightarrow> bytes option \<Rightarrow> lsm_tree result option" where
  "lsm_open w c fs wal_file =
     (if \<not> le_mkdir w then Some (Inl (Io ''create_dir''))
      else case manifest_load (le_dec w) (le_read_manifest w) fs MANIFEST_FILE NUM_LEVELS of
        Inl e \<Rightarrow> Some (Inl e)
      | Inr m \<Rightarrow>
          (case replay_wal (le_crc w) (lc_memtable_size_limit c) wal_file of
             None \<Rightarrow> None
           | Some (Inl e) \<Rightarrow> Some (Inl e)
           | Some (Inr mt) \<Rightarrow>
               if \<not> le_wal_open w then Some (Inl (Io ''open''))
               else case load_cache (le_sst w) (ti_read (le_tables w)) fs (all_tables m) [] of
                 None \<Rightarrow> None
               | Some (Inl e, _) \<Rightarrow> Some (Inl e)
               | Some (Inr _, cache) \<Rightarrow>
                   Some (Inr \<lparr>lt_files = fs, lt_active = mt, lt_immutables = [], lt_manifest = m,
                     lt_wal = wal_open (case wal_file of None \<Rightarrow> [] | Some bs \<Rightarrow> bs),
                     lt_wal_linked = True, lt_cache = cache, lt_config = c\<rparr>)))"

section \<open>Flushing and compacting\<close>

definition save_manifest :: "lsm_env \<Rightarrow> manifest \<Rightarrow> files \<Rightarrow> unit result \<times> files" where
  "save_manifest w m fs = manifest_save (le_enc w) (le_save w m) (le_rename w m) m MANIFEST_FILE fs"

text \<open>Removing the log and opening a new one; the result of the removal is ignored.\<close>

definition reset_wal :: "lsm_env \<Rightarrow> lsm_tree \<Rightarrow> unit result \<times> lsm_tree" where
  "reset_wal w t =
     (let linked = (lt_wal_linked t \<and> \<not> le_wal_unlink w)
      in if \<not> le_wal_open w then (Inl (Io ''open''), t\<lparr>lt_wal_linked := linked\<rparr>)
         else if linked then (Inr (), t\<lparr>lt_wal := (lt_wal t)\<lparr>ww_bytes_written := length (ww_disk (lt_wal t))\<rparr>\<rparr>)
         else (Inr (), t\<lparr>lt_wal := wal_open [], lt_wal_linked := True\<rparr>))"

definition flush_memtable :: "lsm_env \<Rightarrow> lsm_tree \<Rightarrow> (unit result \<times> lsm_tree) option" where
  "flush_memtable w t =
     (if memtable_is_empty (lt_active t) then Some (Inr (), t)
      else
        let frozen = lt_active t;
            ((sst_id, sst_name), m1) = next_sst_filename (lt_manifest t);
            t1 = t\<lparr>lt_active := memtable_new (lc_memtable_size_limit (lt_config t)),
                   lt_immutables := lt_immutables t @ [frozen], lt_manifest := m1\<rparr>;
            (data, info) = write_sstable (le_sst w) (lc_block_size (lt_config t)) (memtable_iter frozen)
        in case write_to (ti_write (le_tables w) sst_name) sst_name data (lt_files t) of
             (Inl e, fs1) \<Rightarrow> Some (Inl e, t1\<lparr>lt_files := fs1\<rparr>)
           | (Inr _, fs1) \<Rightarrow>
               let entry = \<lparr>te_id = sst_id, te_level = 0, te_file_name = sst_name,
                     te_min_key = fst (hd (memtable_iter frozen)), te_max_key = fst (last (memtable_iter frozen)),
                     te_entry_count = si_entry_count info, te_file_size = si_file_size info\<rparr>;
                   m2 = add_sstable m1 entry
               in case save_manifest w m2 fs1 of
                    (Inl e, fs2) \<Rightarrow> Some (Inl e, t1\<lparr>lt_files := fs2, lt_manifest := m2\<rparr>)
                  | (Inr _, fs2) \<Rightarrow>
                      (case open_table (le_sst w) (ti_read (le_tables w)) fs2 sst_name of
                         None \<Rightarrow> None
                       | Some (Inl e) \<Rightarrow> Some (Inl e, t1\<lparr>lt_files := fs2, lt_manifest := m2\<rparr>)
                       | Some (Inr reader) \<Rightarrow>
                           Some (reset_wal w
                             (t1\<lparr>lt_files := fs2, lt_manifest := m2, lt_cache := lt_cache t @ [(entry, reader)],
                                 lt_immutables := lt_immutables t\<rparr>))))"

definition maybe_compact :: "lsm_env \<Rightarrow> lsm_tree \<Rightarrow> (unit result \<times> lsm_tree) option" where
  "maybe_compact w t =
     (case needs_compaction (compaction_of (lt_config t)) (lt_manifest t) of
        None \<Rightarrow> None
      | Some None \<Rightarrow> Some (Inr (), t)
      | Some (Some level) \<Rightarrow>
          (case compact (le_sst w) (le_tables w) (compaction_of (lt_config t)) (lt_manifest t) (lt_files t) level of
             None \<Rightarrow> None
           | Some (Inl e, m1, fs1) \<Rightarrow> Some (Inl e, t\<lparr>lt_manifest := m1, lt_files := fs1\<rparr>)
           | Some (Inr _, m1, fs1) \<Rightarrow>
               (case save_manifest w m1 fs1 of
                  (Inl e, fs2) \<Rightarrow> Some (Inl e, t\<lparr>lt_manifest := m1, lt_files := fs2\<rparr>)
                | (Inr _, fs2) \<Rightarrow>
                    (case load_cache (le_sst w) (ti_read (le_tables w)) fs2 (all_tables m1) [] of
                       None \<Rightarrow> None
                     | Some (r, cache) \<Rightarrow> Some (r, t\<lparr>lt_manifest := m1, lt_files := fs2, lt_cache := cache\<rparr>)))))"

section \<open>The storage engine\<close>

fun search_memtables :: "memtable list \<Rightarrow> bytes \<Rightarrow> entry_value option" where
  "search_memtables [] key = None"
| "search_memtables (mt # mts) key =
     (case memtable_get mt key of Some v \<Rightarrow> Some v | None \<Rightarrow> search_memtables mts key)"

fun search_tables :: "sst_env \<Rightarrow> (sst_entry \<times> sst_reader) list \<Rightarrow> bytes \<Rightarrow> bytes option result option" where
  "search_tables w [] key = Some (Inr None)"
| "search_tables w ((e, r) # rest) key =
     (case sst_get w r key of
        None \<Rightarrow> None
      | Some (Inl err) \<Rightarrow> Some (Inl err)
      | Some (Inr (Some v)) \<Rightarrow> Some (Inr v)
      | Some (Inr None) \<Rightarrow> search_tables w rest key)"

text \<open>\<open>sort_by\<close> by ascending level, then by descending identifier.\<close>

definition newest_first :: "(sst_entry \<times> sst_reader) list \<Rightarrow> (sst_entry \<times> sst_reader) list" where
  "newest_first cache = sort_key (\<lambda>(e, _). (te_level e, - int (te_id e))) cache"

definition lsm_get :: "lsm_env \<Rightarrow> lsm_tree \<Rightarrow> bytes \<Rightarrow> bytes option result option" where
  "lsm_get w t key =
     (case memtable_get (lt_active t) key of
        Some v \<Rightarrow> Some (Inr v)
      | None \<Rightarrow>
          (case search_memtables (rev (lt_immutables t)) key of
             Some v \<Rightarrow> Some (Inr v)
           | None \<Rightarrow> search_tables (le_sst w) (newest_first (lt_cache t)) key))"

definition log_op :: "lsm_env \<Rightarrow> lsm_tree \<Rightarrow> wal_op \<Rightarrow> unit result \<times> lsm_tree" where
  "log_op w t op =
     (case wal_append (le_crc w) (le_wal_write w) (lt_wal t) (wal_op_encode op) of
        (Inl e, wal) \<Rightarrow> (Inl e, t\<lparr>lt_wal := wal\<rparr>)
      | (Inr _, wal) \<Rightarrow>
          (case wal_sync (le_wal_sync w) wal of (r, wal') \<Rightarrow> (r, t\<lparr>lt_wal := wal'\<rparr>)))"

definition flush_if_full :: "lsm_env \<Rightarrow> lsm_tree \<Rightarrow> (unit result \<times> lsm_tree) option" where
  "flush_if_full w t =
     (if memtable_is_full (lt_active t)
      then case flush_memtable w t of
             None \<Rightarrow> None
           | Some (Inl e, t1) \<Rightarrow> Some (Inl e, t1)
           | Some (Inr _, t1) \<Rightarrow> maybe_compact w t1
      else Some (Inr (), t))"

definition lsm_put :: "lsm_env \<Rightarrow> lsm_tree \<Rightarrow> bytes \<Rightarrow> bytes \<Rightarrow> (unit result \<times> lsm_tree) option" where
  "lsm_put w t key value =
     (case log_op w t (WalPut key value) of
        (Inl e, t1) \<Rightarrow> Some (Inl e, t1)
      | (Inr _, t1) \<Rightarrow>
          (case memtable_put (lt_active t1) key value of
             None \<Rightarrow> None
           | Some mt \<Rightarrow> flush_if_full w (t1\<lparr>lt_active := mt\<rparr>)))"

definition lsm_delete :: "lsm_env \<Rightarrow> lsm_tree \<Rightarrow> bytes \<Rightarrow> (unit result \<times> lsm_tree) option" where
  "lsm_delete w t key =
     (case log_op w t (WalDelete key) of
        (Inl e, t1) \<Rightarrow> Some (Inl e, t1)
      | (Inr _, t1) \<Rightarrow> flush_if_full w (t1\<lparr>lt_active := memtable_delete (lt_active t1) key\<rparr>))"

definition merge_into ::
  "(bytes \<times> entry_value) list \<Rightarrow> (bytes \<times> entry_value) list \<Rightarrow> (bytes \<times> entry_value) list" where
  "merge_into es merged = fold (\<lambda>(k, v). bt_insert k v) es merged"

fun scan_tables ::
  "sst_reader list \<Rightarrow> bytes \<Rightarrow> bytes \<Rightarrow> (bytes \<times> entry_value) list \<Rightarrow>
   (bytes \<times> entry_value) list result option" where
  "scan_tables [] start end' merged = Some (Inr merged)"
| "scan_tables (r # rs) start end' merged =
     (case sst_scan r start end' of
        None \<Rightarrow> None
      | Some (Inl e) \<Rightarrow> Some (Inl e)
      | Some (Inr es) \<Rightarrow> scan_tables rs start end' (merge_into es merged))"

fun scan_memtables ::
  "memtable list \<Rightarrow> bytes \<Rightarrow> bytes \<Rightarrow> (bytes \<times> entry_value) list \<Rightarrow> (bytes \<times> entry_value) list option" where
  "scan_memtables [] start end' merged = Some merged"
| "scan_memtables (mt # mts) start end' merged =
     (case memtable_scan mt start end' of
        None \<Rightarrow> None
      | Some es \<Rightarrow> scan_memtables mts start end' (merge_into es merged))"

text \<open>\<open>sort_by\<close> by descending level, then by ascending identifier.\<close>

definition oldest_first :: "(sst_entry \<times> sst_reader) list \<Rightarrow> (sst_entry \<times> sst_reader) list" where
  "oldest_first cache = sort_key (\<lambda>(e, _). (- int (te_level e), te_id e)) cache"

definition live_entries :: "(bytes \<times> entry_value) list \<Rightarrow> (bytes \<times> bytes) list" where
  "live_entries merged = List.map_filter (\<lambda>(k, v). map_option (\<lambda>val. (k, val)) v) merged"

definition lsm_scan :: "lsm_env \<Rightarrow> lsm_tree \<Rightarrow> bytes \<Rightarrow> bytes \<Rightarrow> (bytes \<times> bytes) list result option" where
  "lsm_scan w t start end' =
     (case scan_tables (map snd (oldest_first (lt_cache t))) start end' [] of
        None \<Rightarrow> None
      | Some (Inl e) \<Rightarrow> Some (Inl e)
      | Some (Inr m1) \<Rightarrow>
          (case scan_memtables (lt_immutables t) start end' m1 of
             None \<Rightarrow> None
           | Some m2 \<Rightarrow>
               (case scan_memtables [lt_active t] start end' m2 of
                  None \<Rightarrow> None
                | Some m3 \<Rightarrow> Some (Inr (live_entries m3)))))"

definition lsm_flush :: "lsm_env \<Rightarrow> lsm_tree \<Rightarrow> (unit result \<times> lsm_tree) option" where
  "lsm_flush w t = flush_memtable w t"

section \<open>Operations survive the log\<close>

definition valid_op :: "wal_op \<Rightarrow> bool" where
  "valid_op op \<longleftrightarrow> length (wal_op_encode op) \<le> MAX_RECORD"

lemma wal_op_decode_encode:
  assumes "valid_op op"
  shows "wal_op_decode (wal_op_encode op) = Some (Inr op)"
proof (cases op)
  case (WalPut k v)
  have len: "length k < 2 ^ 32" "length v < 2 ^ 32" using assms by (simp_all add: valid_op_def WalPut MAX_RECORD_def)
  have enc: "wal_op_encode op = 1 # le_bytes 4 (length k) @ k @ le_bytes 4 (length v) @ v"
    using len by (simp add: WalPut)
  have "subslice (wal_op_encode op) 1 5 = Some (le_bytes 4 (length k))"
    "subslice (wal_op_encode op) 5 (5 + length k) = Some k"
    "subslice (wal_op_encode op) (5 + length k) (5 + length k + 4) = Some (le_bytes 4 (length v))"
    "subslice (wal_op_encode op) (5 + length k + 4) (5 + length k + 4 + length v) = Some v"
    using subslice_append_mid [OF refl refl, of "[1]" "le_bytes 4 (length k)" "k @ le_bytes 4 (length v) @ v"]
      subslice_append_mid [OF refl refl, of "1 # le_bytes 4 (length k)" k "le_bytes 4 (length v) @ v"]
      subslice_append_mid [OF refl refl, of "1 # le_bytes 4 (length k) @ k" "le_bytes 4 (length v)" v]
      subslice_append_mid [OF refl refl, of "1 # le_bytes 4 (length k) @ k @ le_bytes 4 (length v)" v "[]"]
    by (simp_all add: enc ac_simps)
  then show ?thesis
    using len unfolding wal_op_decode_def by (simp add: WalPut le_value_small Let_def)
next
  case (WalDelete k)
  have len: "length k < 2 ^ 32" using assms by (simp add: valid_op_def WalDelete MAX_RECORD_def)
  then have "subslice (wal_op_encode op) 1 5 = Some (le_bytes 4 (length k))"
    "subslice (wal_op_encode op) 5 (5 + length k) = Some k"
    by (simp_all add: WalDelete subslice_def)
  then show ?thesis
    using len unfolding wal_op_decode_def by (simp add: WalDelete le_value_small Let_def)
qed

interpretation lsm_wal: wal_payload wal_op_encode wal_op_decode valid_op
  by unfold_locales (simp_all add: wal_op_decode_encode valid_op_def)

end
