(* ===== verification/Lsm_View.thy ===== *)
theory Lsm_View
  imports Lsm
begin

text \<open>
  The LSM tree as a map. \<open>lsm_view\<close> is the map from keys to values that a tree stands for; lookups and
  range scans answer from it, successful writes update it, and flushing and compacting do not change it
  as long as the tables of level 0 hold one value per key.
\<close>

section \<open>The map a tree stands for\<close>

definition layers :: "lsm_env \<Rightarrow> lsm_tree \<Rightarrow> (bytes \<rightharpoonup> entry_value) list" where
  "layers w t =
     map_of (mt_data (lt_active t)) # map (map_of \<circ> mt_data) (rev (lt_immutables t)) @
     map (table_map (le_sst w) (lt_files t)) (sort_key table_key (map fst (lt_cache t)))"

definition lsm_view :: "lsm_env \<Rightarrow> lsm_tree \<Rightarrow> bytes \<rightharpoonup> bytes" where
  "lsm_view w t k = visible (first_hit (layers w t) k)"

definition wf_cache :: "lsm_env \<Rightarrow> lsm_tree \<Rightarrow> bool" where
  "wf_cache w t \<longleftrightarrow>
     set (map fst (lt_cache t)) = set (all_tables (lt_manifest t)) \<and> distinct (map fst (lt_cache t)) \<and>
     (\<forall>(e, r) \<in> set (lt_cache t). opens (le_sst w) (lt_files t) e r)"

definition wf_lsm :: "lsm_env \<Rightarrow> lsm_tree \<Rightarrow> bool" where
  "wf_lsm w t \<longleftrightarrow>
     wf_memtable (lt_active t) \<and> (\<forall>x \<in> set (mt_data (lt_active t)). storable x) \<and> lt_immutables t = [] \<and>
     wf_tables (le_sst w) (lt_files t) (lt_manifest t) \<and> wf_cache w t"

text \<open>Entries and bytes held in all layers.\<close>

definition lsm_stored :: "(block_entry \<Rightarrow> nat) \<Rightarrow> lsm_env \<Rightarrow> lsm_tree \<Rightarrow> nat" where
  "lsm_stored f w t = stored f (le_sst w) (lt_files t) (lt_manifest t) + weight f (mt_data (lt_active t))"

text \<open>There is room for \<open>c\<close> more entries of \<open>n\<close> bytes together.\<close>

definition lsm_room :: "lsm_env \<Rightarrow> lsm_tree \<Rightarrow> nat \<Rightarrow> nat \<Rightarrow> bool" where
  "lsm_room w t c n \<longleftrightarrow> lsm_stored entry_unit w t + c < 2 ^ 32 \<and> lsm_stored entry_bytes w t + n < 2 ^ 60"

text \<open>The values some layer of the tree holds for a key, visible or not.\<close>

definition held :: "lsm_env \<Rightarrow> lsm_tree \<Rightarrow> bytes \<Rightarrow> entry_value set" where
  "held w t k = {v. \<exists>f \<in> set (layers w t). f k = Some v}"

lemma held_tables:
  "wf_lsm w t \<Longrightarrow> v \<in> held w t k \<longleftrightarrow> map_of (mt_data (lt_active t)) k = Some v \<or>
     (\<exists>e \<in> set (all_tables (lt_manifest t)). table_map (le_sst w) (lt_files t) e k = Some v)"
  unfolding wf_lsm_def wf_cache_def by (simp add: held_def layers_def)

lemma view_held: "lsm_view w t k = Some v \<Longrightarrow> Some v \<in> held w t k"
  unfolding lsm_view_def held_def using first_hit_in by (fastforce simp: visible_def split: option.splits)

section \<open>Reading\<close>

lemma map_fst_insort: "map fst (insort_key (\<lambda>x. f (fst x)) x xs) = insort_key f (fst x) (map fst xs)"
  by (induction xs) auto

lemma map_fst_sort: "map fst (sort_key (\<lambda>x. f (fst x)) xs) = sort_key f (map fst xs)"
  by (induction xs) (simp_all add: map_fst_insort)

lemma newest_first_tables: "map fst (newest_first cache) = sort_key table_key (map fst cache)"
proof -
  have "(\<lambda>(e, _ :: sst_reader). (te_level e, - int (te_id e))) = (\<lambda>x. table_key (fst x))"
    by (auto simp: table_key_def fun_eq_iff)
  then show ?thesis unfolding newest_first_def using map_fst_sort [of table_key cache] by simp
qed

lemma search_tables_hit:
  "\<forall>(e, r) \<in> set cache. opens w fs e r \<Longrightarrow>
     search_tables w cache k = Some (Inr (visible (first_hit (map (table_map w fs) (map fst cache)) k)))"
  by (induction cache) (auto simp: opens_def reads_def split: option.split)

lemma search_memtables_hit: "search_memtables mts k = first_hit (map (map_of \<circ> mt_data) mts) k"
  by (induction mts) (auto simp: memtable_get_def split: option.split)

lemma lsm_get_view:
  assumes "wf_cache w t"
  shows "lsm_get w t k = Some (Inr (lsm_view w t k))"
proof -
  have "\<forall>(e, r) \<in> set (newest_first (lt_cache t)). opens (le_sst w) (lt_files t) e r"
    using assms by (simp add: wf_cache_def newest_first_def)
  then show ?thesis
    by (auto simp: lsm_get_def lsm_view_def layers_def search_tables_hit search_memtables_hit memtable_get_def
        newest_first_tables first_hit_append split: option.split)
qed

lemma merge_into_map:
  "sorted_map m \<Longrightarrow> distinct (map fst es) \<Longrightarrow>
     sorted_map (merge_into es m) \<and> map_of (merge_into es m) = map_of m ++ map_of es"
  unfolding merge_into_def
proof (induction es arbitrary: m)
  case (Cons x es)
  obtain k v where x: "x = (k, v)" by (cases x)
  have "k \<notin> dom (map_of es)" using Cons.prems(2) by (simp add: x dom_map_of_conv_image_fst)
  then have "(map_of m)(k \<mapsto> v) ++ map_of es = map_of m ++ map_of (x # es)"
    by (auto simp: x fun_eq_iff map_add_def domIff split: option.split)
  moreover have "distinct (map fst es)" using Cons.prems(2) by simp
  ultimately show ?case
    using Cons.IH [OF sorted_bt_insert [OF Cons.prems(1)], of k v] map_of_bt_insert [OF Cons.prems(1), of k v]
    by (simp only: x fold_simps prod.case simp_thms)
qed simp

text \<open>Restricting a map to the keys of a half-open range.\<close>

definition within :: "bytes \<Rightarrow> bytes \<Rightarrow> (bytes \<rightharpoonup> 'v) \<Rightarrow> bytes \<rightharpoonup> 'v" where
  "within a b f k = (if a \<le> k \<and> k < b then f k else None)"

lemma within_range: "map_of (bt_range a b es) = within a b (map_of es)"
  by (auto simp: within_def map_of_bt_range fun_eq_iff)

lemma within_add: "within a b (f ++ g) = within a b f ++ within a b g"
  by (auto simp: within_def map_add_def fun_eq_iff split: option.split)

lemma merge_range:
  assumes "sorted_map m" and "sorted_map es" and "map_of m = within a b f"
  shows "sorted_map (merge_into (bt_range a b es) m) \<and>
    map_of (merge_into (bt_range a b es) m) = within a b (f ++ map_of es)"
  using merge_into_map [OF assms(1), of "bt_range a b es"] sorted_map_distinct [OF sorted_bt_range [OF assms(2), of a b]] assms(3)
  by (simp add: within_range within_add)

lemma scan_tables_merge:
  "\<forall>(e, r) \<in> set cache. opens w fs e r \<and> good_table w fs e \<Longrightarrow> sorted_map m \<Longrightarrow> map_of m = within a b f \<Longrightarrow>
     \<exists>m'. scan_tables (map snd cache) a b m = Some (Inr m') \<and> sorted_map m' \<and>
       map_of m' = within a b (fold (\<lambda>g f. f ++ g) (map (table_map w fs) (map fst cache)) f)"
proof (induction cache arbitrary: m f)
  case (Cons x cache)
  obtain e r where x: "x = (e, r)" by (cases x)
  have "sst_scan r a b = Some (Inr (bt_range a b (contents w fs e)))" "sorted_map (contents w fs e)"
    using Cons.prems(1) by (auto simp: x opens_def reads_def good_table_def)
  then show ?case
    using Cons.IH [of "merge_into (bt_range a b (contents w fs e)) m" "f ++ table_map w fs e"]
      merge_range [OF Cons.prems(2) _ Cons.prems(3), of "contents w fs e"] Cons.prems(1) by (simp add: x)
qed simp

lemma scan_memtables_merge:
  "\<forall>mt \<in> set mts. wf_memtable mt \<Longrightarrow> a \<le> b \<Longrightarrow> sorted_map m \<Longrightarrow> map_of m = within a b f \<Longrightarrow>
     \<exists>m'. scan_memtables mts a b m = Some m' \<and> sorted_map m' \<and>
       map_of m' = within a b (fold (\<lambda>g f. f ++ g) (map (map_of \<circ> mt_data) mts) f)"
proof (induction mts arbitrary: m f)
  case (Cons mt mts)
  have "memtable_scan mt a b = Some (bt_range a b (mt_data mt))" "sorted_map (mt_data mt)"
    using Cons.prems(1,2) by (auto simp: memtable_scan_def wf_memtable_def)
  then show ?case
    using Cons.IH [of "merge_into (bt_range a b (mt_data mt)) m" "f ++ map_of (mt_data mt)"]
      merge_range [OF Cons.prems(3) _ Cons.prems(4), of "mt_data mt"] Cons.prems(1,2) by simp
qed simp

lemma sort_key_unique:
  fixes f :: "'a \<Rightarrow> 'b :: linorder"
  assumes "inj_on f (set xs)" and "distinct xs" and "distinct ys" and "set ys = set xs" and "sorted (map f ys)"
  shows "sort_key f xs = ys"
proof -
  have "map f (sort_key f xs) = map f ys"
    using assms by (intro sorted_distinct_set_unique) (simp_all add: distinct_map)
  then show ?thesis by (rule map_inj_on) (use assms(1,4) in simp)
qed

lemma sort_key_rev:
  fixes f :: "'a \<Rightarrow> 'b :: linorder" and g :: "'a \<Rightarrow> 'c :: linorder"
  assumes "inj_on f (set xs)" and "distinct xs" and "\<And>x y. g x < g y \<longleftrightarrow> f y < f x"
  shows "sort_key g xs = rev (sort_key f xs)"
proof -
  have ge: "g x \<le> g y \<longleftrightarrow> f y \<le> f x" for x y using assms(3) [of y x] by (meson not_less)
  have inj: "inj_on g (set xs)"
  proof (rule inj_onI)
    fix x y assume "x \<in> set xs" "y \<in> set xs" "g x = g y"
    moreover then have "f x = f y" using ge [of x y] ge [of y x] by simp
    ultimately show "x = y" using assms(1) by (simp add: inj_on_def)
  qed
  have "sorted (map g (rev (sort_key f xs)))"
  proof -
    have "sorted_wrt (\<lambda>x y. f x \<le> f y) (sort_key f xs)" using sorted_sort_key [of f xs] by (simp add: sorted_wrt_map)
    then have "sorted_wrt (\<lambda>x y. g y \<le> g x) (sort_key f xs)" by (simp add: ge)
    then show ?thesis by (simp add: sorted_wrt_map sorted_wrt_rev)
  qed
  then show ?thesis using sort_key_unique [OF inj assms(2), of "rev (sort_key f xs)"] assms(2) by simp
qed

lemma oldest_first_tables:
  assumes "distinct (map fst cache)" and "inj_on table_key (set (map fst cache))"
  shows "map fst (oldest_first cache) = rev (map fst (newest_first cache))"
proof -
  let ?f = "\<lambda>x :: sst_entry \<times> sst_reader. table_key (fst x)" and ?g = "\<lambda>x :: sst_entry \<times> sst_reader. (- int (te_level (fst x)), te_id (fst x))"
  have "inj_on fst (set cache)" "distinct cache" using assms(1) by (simp_all add: distinct_map)
  then have "inj_on ?f (set cache)" using assms(2) by (auto simp: inj_on_def)
  then have "sort_key ?g cache = rev (sort_key ?f cache)"
    using \<open>distinct cache\<close> by (rule sort_key_rev) (auto simp: table_key_def less_prod_def)
  moreover have "oldest_first cache = sort_key ?g cache" "newest_first cache = sort_key ?f cache"
    by (simp_all add: oldest_first_def newest_first_def table_key_def case_prod_beta')
  ultimately show ?thesis by (simp add: rev_map)
qed

lemma map_filter_live: "sorted_map m \<Longrightarrow> sorted_map (live_entries m) \<and> map_of (live_entries m) k = visible (map_of m k)"
proof (induction m)
  case (Cons x m)
  obtain k' v where x: "x = (k', v)" by (cases x)
  have "fst ` set (live_entries m) \<subseteq> fst ` set m"
    by (force simp: live_entries_def List.map_filter_def)
  then have "\<forall>y \<in> fst ` set (live_entries m). k' < y" using Cons.prems unfolding x sorted_map_Cons by blast
  moreover have "map_of m k' = None" using Cons.prems by (auto simp: x map_of_eq_None_iff)
  ultimately show ?case
    using Cons by (cases v) (auto simp: x live_entries_def map_filter_simps)
qed (simp add: live_entries_def map_filter_simps)

lemma lsm_scan_view:
  assumes "wf_lsm w t" and "a \<le> b"
  shows "\<exists>es. lsm_scan w t a b = Some (Inr es) \<and> sorted_map es \<and> map_of es = within a b (lsm_view w t)"
proof -
  let ?C = "table_map (le_sst w) (lt_files t)" and ?c = "lt_cache t"
  have wfc: "set (map fst ?c) = set (all_tables (lt_manifest t))" "distinct (map fst ?c)"
    and wft: "wf_manifest (lt_manifest t)" "\<forall>e \<in> set (all_tables (lt_manifest t)). good_table (le_sst w) (lt_files t) e"
    using assms(1) by (simp_all add: wf_lsm_def wf_cache_def wf_tables_def)
  have inj: "inj_on table_key (set (map fst ?c))"
    using wf_manifest_inj [OF wft(1)] unfolding wfc(1) by (auto simp: inj_on_def table_key_def)
  have "opens (le_sst w) (lt_files t) e r \<and> good_table (le_sst w) (lt_files t) e" if er: "(e, r) \<in> set ?c" for e r
  proof -
    have "e \<in> set (map fst ?c)" using imageI [OF er, of fst] by simp
    then show ?thesis using er assms(1) wft(2) unfolding wfc(1) by (auto simp: wf_lsm_def wf_cache_def)
  qed
  then have all: "\<forall>(e, r) \<in> set (oldest_first ?c). opens (le_sst w) (lt_files t) e r \<and> good_table (le_sst w) (lt_files t) e"
    unfolding oldest_first_def by auto
  have empty: "map_of [] = within a b Map.empty" by (simp add: within_def fun_eq_iff)
  from scan_tables_merge [OF all sorted_map_Nil empty] obtain m1 where
    m1: "scan_tables (map snd (oldest_first ?c)) a b [] = Some (Inr m1)" "sorted_map m1"
      "map_of m1 = within a b (fold (\<lambda>g f. f ++ g) (map ?C (map fst (oldest_first ?c))) Map.empty)"
    by blast
  have "fold (\<lambda>g f. f ++ g) (map ?C (map fst (oldest_first ?c))) Map.empty = first_hit (map ?C (sort_key table_key (map fst ?c)))"
    by (simp add: first_hit_rev_fold oldest_first_tables [OF wfc(2) inj] newest_first_tables rev_map)
  then have "map_of m1 = within a b (first_hit (map ?C (sort_key table_key (map fst ?c))))" using m1(3) by simp
  from scan_memtables_merge [OF _ assms(2) m1(2) this, of "[lt_active t]"] obtain m2 where
    m2: "scan_memtables [lt_active t] a b m1 = Some m2" "sorted_map m2"
      "map_of m2 = within a b (first_hit (map ?C (sort_key table_key (map fst ?c))) ++ map_of (mt_data (lt_active t)))"
    using assms(1) by (auto simp: wf_lsm_def)
  have "map_of m2 = within a b (first_hit (layers w t))"
    using assms(1) unfolding m2(3) by (auto simp: within_def layers_def wf_lsm_def map_add_def fun_eq_iff split: option.split)
  then have "map_of (live_entries m2) = within a b (lsm_view w t)"
    using map_filter_live [OF m2(2)] by (auto simp: fun_eq_iff within_def lsm_view_def)
  moreover have "lsm_scan w t a b = Some (Inr (live_entries m2))"
    using m1(1) m2(1) assms(1) by (simp add: lsm_scan_def wf_lsm_def)
  ultimately show ?thesis using map_filter_live [OF m2(2)] by blast
qed

section \<open>Writing tables and the manifest\<close>

lemma sst_name_reserved: "sst_file_name i \<noteq> MANIFEST_FILE" "sst_file_name i \<noteq> MANIFEST_FILE @ ''.tmp''"
proof -
  have "is_digit (hd (sst_file_name i))"
    using decimal_digits [of i] by (cases "decimal i") (auto simp: sst_file_name_def pad_decimal_def hd_append is_digit_def digit_char_def)
  moreover have "\<not> is_digit (hd MANIFEST_FILE)" "\<not> is_digit (hd (MANIFEST_FILE @ ''.tmp''))"
    by (simp_all add: MANIFEST_FILE_def is_digit_def)
  ultimately show "sst_file_name i \<noteq> MANIFEST_FILE" "sst_file_name i \<noteq> MANIFEST_FILE @ ''.tmp''" by metis+
qed

lemma save_manifest_frame:
  "save_manifest w m fs = (r, fs') \<Longrightarrow> fs' (sst_file_name i) = fs (sst_file_name i)"
  using sst_name_reserved [of i]
  by (auto simp: save_manifest_def manifest_save_def write_to_def rename_to_def
      split: option.splits io_outcome.splits if_splits prod.splits sum.splits)

lemma save_manifest_ok:
  "save_manifest w m fs = (Inr u, fs') \<Longrightarrow>
     \<exists>data. le_enc w m = Some data \<and> fs' = (fs(MANIFEST_FILE @ ''.tmp'' := None))(MANIFEST_FILE \<mapsto> data)"
  by (auto simp: save_manifest_def manifest_save_def write_to_def rename_to_def
      split: option.splits io_outcome.splits if_splits prod.splits sum.splits)

lemma table_frame:
  assumes "wf_manifest m" and "e \<in> set (all_tables m)" and "\<And>i. fs' (sst_file_name i) = fs (sst_file_name i)"
  shows "fs' (te_file_name e) = fs (te_file_name e)"
  using assms by (simp add: wf_manifest_def)

lemma wf_tables_frame:
  assumes "\<And>i. fs' (sst_file_name i) = fs (sst_file_name i)" and "wf_tables w fs m"
  shows "wf_tables w fs' m" and "e \<in> set (all_tables m) \<Longrightarrow> contents w fs' e = contents w fs e"
    and "stored f w fs' m = stored f w fs m"
proof -
  have fr: "fs' (te_file_name e) = fs (te_file_name e)" if "e \<in> set (all_tables m)" for e
    by (rule table_frame [of m]) (use assms that in \<open>simp_all add: wf_tables_def\<close>)
  have c: "contents w fs' e = contents w fs e" if "e \<in> set (all_tables m)" for e
    by (rule contents_frame) (rule fr [OF that])
  show "e \<in> set (all_tables m) \<Longrightarrow> contents w fs' e = contents w fs e" by (rule c)
  have "good_table w fs' e = good_table w fs e" if "e \<in> set (all_tables m)" for e
    by (rule good_table_frame) (rule fr [OF that])
  then show "wf_tables w fs' m" using assms(2) by (simp add: wf_tables_def)
  show "stored f w fs' m = stored f w fs m" unfolding stored_def by (rule sum.cong) (simp_all add: c)
qed

lemma load_cache_ok:
  "load_cache w rd fs es acc = Some (Inr u, cache) \<Longrightarrow> \<forall>e \<in> set es. good_table w fs e \<Longrightarrow>
     map fst cache = map fst acc @ es \<and> (\<forall>(e, r) \<in> set cache. (e, r) \<in> set acc \<or> opens w fs e r)"
proof (induction es arbitrary: acc)
  case (Cons e es)
  have ne: "fs (te_file_name e) \<noteq> None" using Cons.prems(2) by (auto simp: good_table_def opens_def)
  then obtain r where r: "open_table w rd fs (te_file_name e) = Some (Inr r)"
    and l: "load_cache w rd fs es (acc @ [(e, r)]) = Some (Inr u, cache)"
    using Cons.prems(1) by (auto split: option.splits sum.splits)
  have "opens w fs e r" using open_table_opens [OF _ r] Cons.prems(2) by simp
  then show ?case using Cons.IH [OF l] Cons.prems(2) by auto
qed auto

section \<open>Flushing\<close>

text \<open>The steps of a flush that succeeds.\<close>

lemma flush_steps:
  assumes "flush_memtable w t = Some (Inr u, t')" and "mt_data (lt_active t) \<noteq> []"
  defines "i \<equiv> mf_next_sst_id (lt_manifest t)" and "es \<equiv> mt_data (lt_active t)"
  shows "\<exists>e fs1 r. te_id e = i \<and> te_level e = 0 \<and> te_file_name e = sst_file_name i \<and>
     te_min_key e = fst (hd es) \<and> te_max_key e = fst (last es) \<and>
     fs1 = (lt_files t)(sst_file_name i \<mapsto> fst (write_sstable (le_sst w) (lc_block_size (lt_config t)) es)) \<and>
     lt_manifest t' = add_sstable ((lt_manifest t)\<lparr>mf_next_sst_id := Suc i\<rparr>) e \<and>
     save_manifest w (lt_manifest t') fs1 = (Inr (), lt_files t') \<and>
     open_table (le_sst w) (ti_read (le_tables w)) (lt_files t') (te_file_name e) = Some (Inr r) \<and>
     lt_cache t' = lt_cache t @ [(e, r)] \<and> lt_immutables t' = lt_immutables t \<and> lt_config t' = lt_config t \<and>
     lt_active t' = memtable_new (lc_memtable_size_limit (lt_config t)) \<and>
     lt_wal_linked t' \<and> (le_wal_unlink w \<longrightarrow> lt_wal t' = wal_open [])"
proof -
  obtain data info where wr: "write_sstable (le_sst w) (lc_block_size (lt_config t)) es = (data, info)"
    by (cases "write_sstable (le_sst w) (lc_block_size (lt_config t)) es")
  define e where "e = \<lparr>te_id = i, te_level = 0, te_file_name = sst_file_name i, te_min_key = fst (hd es),
    te_max_key = fst (last es), te_entry_count = si_entry_count info, te_file_size = si_file_size info\<rparr>"
  define m2 where "m2 = add_sstable ((lt_manifest t)\<lparr>mf_next_sst_id := Suc i\<rparr>) e"
  define fs1 where "fs1 = (lt_files t)(sst_file_name i \<mapsto> data)"
  have io: "ti_write (le_tables w) (sst_file_name i) = IoOk"
    using assms(1,2) wr by (auto simp: flush_memtable_def memtable_is_empty_def memtable_iter_def next_sst_filename_def
        Let_def write_to_def i_def es_def split: io_outcome.splits)
  obtain u' fs2 where sv: "save_manifest w m2 fs1 = (Inr u', fs2)"
    using assms(1,2) wr io by (cases "save_manifest w m2 fs1")
      (auto simp: flush_memtable_def memtable_is_empty_def memtable_iter_def next_sst_filename_def
        Let_def write_to_def i_def [symmetric] es_def [symmetric] e_def [symmetric] m2_def [symmetric] fs1_def [symmetric]
        split: sum.splits)
  obtain r where op: "open_table (le_sst w) (ti_read (le_tables w)) fs2 (sst_file_name i) = Some (Inr r)"
    using assms(1,2) wr io sv
    by (auto simp: flush_memtable_def memtable_is_empty_def memtable_iter_def next_sst_filename_def
        Let_def write_to_def i_def [symmetric] es_def [symmetric] e_def [symmetric] m2_def [symmetric] fs1_def [symmetric]
        split: sum.splits option.splits)
  have rs: "reset_wal w (t\<lparr>lt_active := memtable_new (lc_memtable_size_limit (lt_config t)),
      lt_files := fs2, lt_manifest := m2, lt_cache := lt_cache t @ [(e, r)]\<rparr>) = (Inr u, t')"
    using assms(1,2) wr io sv op
    by (simp add: flush_memtable_def memtable_is_empty_def memtable_iter_def next_sst_filename_def
        Let_def write_to_def i_def [symmetric] es_def [symmetric] e_def [symmetric] m2_def [symmetric] fs1_def [symmetric])
  have "lt_manifest t' = m2" "lt_files t' = fs2" "lt_cache t' = lt_cache t @ [(e, r)]" "lt_immutables t' = lt_immutables t"
    "lt_config t' = lt_config t" "lt_active t' = memtable_new (lc_memtable_size_limit (lt_config t))"
    "lt_wal_linked t'" "le_wal_unlink w \<longrightarrow> lt_wal t' = wal_open []"
    using rs by (auto simp: reset_wal_def Let_def split: if_splits)
  then show ?thesis
    using sv op wr by (intro exI [of _ e] exI [of _ fs1] exI [of _ r]) (simp add: e_def [symmetric] m2_def [symmetric] fs1_def, simp add: e_def)
qed

text \<open>The maps of the tables of level 0 in manifest order, oldest first, and whether a list of maps holds at
  most one value for a key.\<close>

definition l0_maps :: "lsm_env \<Rightarrow> lsm_tree \<Rightarrow> (bytes \<rightharpoonup> entry_value) list" where
  "l0_maps w t = map (table_map (le_sst w) (lt_files t)) (manifest_level (lt_manifest t) 0)"

definition one_value :: "(bytes \<rightharpoonup> entry_value) list \<Rightarrow> bytes \<Rightarrow> bool" where
  "one_value ms k \<longleftrightarrow> (\<forall>f \<in> set ms. \<forall>g \<in> set ms. f k \<noteq> None \<longrightarrow> g k \<noteq> None \<longrightarrow> f k = g k)"

lemma tables_agree_one_value: "tables_agree w fs es k = one_value (map (table_map w fs) es) k"
  by (simp add: tables_agree_def one_value_def)

lemma table_view_cong:
  assumes "\<And>e. e \<in> set es \<Longrightarrow> C e = C' e"
  shows "table_view C es = table_view C' es"
proof -
  have "map C (sort_key table_key es) = map C' (sort_key table_key es)" using assms by (intro map_cong) simp_all
  then show ?thesis unfolding table_view_def by (rule arg_cong)
qed

lemma table_view_perm:
  assumes "set es = set es'" and "inj_on table_key (set es)" and "distinct es" and "distinct es'"
  shows "table_view C es = table_view C es'"
proof -
  have "sort_key table_key es = sort_key table_key es'"
    by (rule sort_key_unique) (use assms in simp_all)
  then show ?thesis by (simp add: table_view_def fun_eq_iff)
qed

lemma table_view_snoc:
  assumes "inj_on table_key (set es)" and "distinct es" and "\<forall>x \<in> set es. table_key e < table_key x"
  shows "table_view C (es @ [e]) k = (case C e k of None \<Rightarrow> table_view C es k | Some v \<Rightarrow> Some v)"
proof -
  have lt: "table_key e < table_key x" if "x \<in> set es" for x using assms(3) that by blast
  have new: "e \<notin> set es" using lt by blast
  have "table_key e \<notin> table_key ` set es" using lt by fastforce
  then have "inj_on table_key (set (es @ [e]))" using assms(1) new by simp
  moreover have "sorted (map table_key (e # sort_key table_key es))" using lt by (simp add: order_less_imp_le)
  ultimately have "sort_key table_key (es @ [e]) = e # sort_key table_key es"
    using assms(2) new by (intro sort_key_unique) simp_all
  then show ?thesis by (simp add: table_view_def split: option.split)
qed

lemma lsm_view_tables:
  "lt_immutables t = [] \<Longrightarrow> lsm_view w t k = visible (case map_of (mt_data (lt_active t)) k of
      None \<Rightarrow> table_view (table_map (le_sst w) (lt_files t)) (map fst (lt_cache t)) k | Some v \<Rightarrow> Some v)"
  by (simp add: lsm_view_def layers_def table_view_def split: option.split)

lemma wf_inj_tables: "wf_manifest m \<Longrightarrow> inj_on table_key (set (all_tables m))"
  using wf_manifest_inj [of m] by (auto simp: inj_on_def table_key_def)

lemma flush_ok:
  assumes env: "sst_env_ok (le_sst w)" and wf: "wf_lsm w t" and room: "lsm_room w t 0 0"
    and fl: "flush_memtable w t = Some (Inr u, t')"
  shows "wf_lsm w t' \<and> lsm_view w t' = lsm_view w t \<and> lsm_stored f w t' = lsm_stored f w t \<and>
     lt_config t' = lt_config t \<and> held w t' k \<subseteq> held w t k \<and>
     (if mt_data (lt_active t) = [] then t' = t
      else l0_maps w t' = l0_maps w t @ [map_of (mt_data (lt_active t))])"
proof (cases "mt_data (lt_active t) = []")
  case True
  then have "flush_memtable w t = Some (Inr (), t)" by (simp add: flush_memtable_def memtable_is_empty_def)
  then have "t' = t" using fl by simp
  then show ?thesis using wf True by simp
next
  case False
  let ?m = "lt_manifest t" and ?w = "le_sst w" and ?es = "mt_data (lt_active t)" and ?i = "mf_next_sst_id (lt_manifest t)"
  obtain e fs1 r where e: "te_id e = ?i" "te_level e = 0" "te_file_name e = sst_file_name ?i"
      "te_min_key e = fst (hd ?es)" "te_max_key e = fst (last ?es)"
    and fs1: "fs1 = (lt_files t)(sst_file_name ?i \<mapsto> fst (write_sstable ?w (lc_block_size (lt_config t)) ?es))"
    and m': "lt_manifest t' = add_sstable (?m\<lparr>mf_next_sst_id := Suc ?i\<rparr>) e"
    and sv: "save_manifest w (lt_manifest t') fs1 = (Inr (), lt_files t')"
    and op: "open_table ?w (ti_read (le_tables w)) (lt_files t') (te_file_name e) = Some (Inr r)"
    and c': "lt_cache t' = lt_cache t @ [(e, r)]" and rest: "lt_immutables t' = lt_immutables t" "lt_config t' = lt_config t"
      "lt_active t' = memtable_new (lc_memtable_size_limit (lt_config t))"
    using flush_steps [OF fl False] by blast
  have wfm: "wf_manifest ?m" and wft: "wf_tables ?w (lt_files t) ?m" and es: "sorted_map ?es" "\<forall>x \<in> set ?es. storable x"
    and im: "lt_immutables t = []" and wfc: "set (map fst (lt_cache t)) = set (all_tables ?m)" "distinct (map fst (lt_cache t))"
    and opn: "\<And>x y. (x, y) \<in> set (lt_cache t) \<Longrightarrow> opens ?w (lt_files t) x y"
    using wf by (auto simp: wf_lsm_def wf_tables_def wf_memtable_def wf_cache_def)
  have fsn: "lt_files t' (sst_file_name j) = fs1 (sst_file_name j)" for j by (rule save_manifest_frame [OF sv])
  have old: "lt_files t' (te_file_name x) = lt_files t (te_file_name x)" if "x \<in> set (all_tables ?m)" for x
  proof -
    have "te_file_name x = sst_file_name (te_id x)" "te_id x \<noteq> ?i" using wfm that by (auto simp: wf_manifest_def)
    then show ?thesis using fsn [of "te_id x"] by (simp add: fs1)
  qed
  have cont: "contents ?w (lt_files t') x = contents ?w (lt_files t) x" if "x \<in> set (all_tables ?m)" for x
    by (rule contents_frame) (rule old [OF that])
  have "lt_files t' (te_file_name e) = Some (fst (write_sstable ?w (lc_block_size (lt_config t)) ?es))"
    using fsn [of ?i] by (simp add: e fs1)
  moreover have "length ?es < 2 ^ 32" "data_size ?es < 2 ^ 60"
    using room by (simp_all add: lsm_room_def lsm_stored_def weight_unit weight_bytes)
  ultimately have new: "good_table ?w (lt_files t') e" "contents ?w (lt_files t') e = ?es"
    using written_table [OF env es(1) False es(2) _ _ _ e(4,5)] by blast+
  have fresh: "e \<notin> set (all_tables ?m)" using e(1) wfm by (auto simp: wf_manifest_def)
  have tabs: "set (all_tables (lt_manifest t')) = insert e (set (all_tables ?m))" by (simp add: m')
  have wfm': "wf_manifest (lt_manifest t')" unfolding m'
    by (rule wf_add) (use e wfm in \<open>auto simp: wf_manifest_def intro: less_SucI\<close>)
  have "wf_tables ?w (lt_files t') (lt_manifest t')"
  proof -
    have "good_table ?w (lt_files t') x = good_table ?w (lt_files t) x" if "x \<in> set (all_tables ?m)" for x
      by (rule good_table_frame) (rule old [OF that])
    then have "good_table ?w (lt_files t') x" if "x \<in> set (all_tables (lt_manifest t'))" for x
      using that new(1) wft unfolding tabs wf_tables_def by auto
    moreover have "ranges_disjoint (lt_manifest t')"
      unfolding ranges_disjoint_def tabs
    proof (intro ballI impI)
      fix a b assume "a \<in> insert e (set (all_tables ?m))" "b \<in> insert e (set (all_tables ?m))" and l: "0 < te_level a" "te_level a = te_level b"
      then have "a \<in> set (all_tables ?m)" "b \<in> set (all_tables ?m)" using e(2) by auto
      then show "a = b \<or> te_max_key a < te_min_key b \<or> te_max_key b < te_min_key a"
        using wft l unfolding wf_tables_def ranges_disjoint_def by blast
    qed
    ultimately show ?thesis using wfm' by (simp add: wf_tables_def)
  qed
  moreover have "wf_cache w t'"
  proof -
    have "opens ?w (lt_files t') x y" if "(x, y) \<in> set (lt_cache t)" for x y
    proof -
      have "x \<in> set (all_tables ?m)" using imageI [OF that, of fst] wfc(1) by simp
      then have "opens ?w (lt_files t') x y = opens ?w (lt_files t) x y" by (intro good_table_frame(1) old)
      then show ?thesis using opn [OF that] by simp
    qed
    moreover have "opens ?w (lt_files t') e r" by (rule open_table_opens [OF new(1) op])
    ultimately have "\<forall>(x, y) \<in> set (lt_cache t'). opens ?w (lt_files t') x y" unfolding c' by auto
    moreover have "e \<notin> set (map fst (lt_cache t))" using fresh unfolding wfc(1) .
    ultimately show ?thesis using wfc unfolding wf_cache_def c' tabs by simp
  qed
  ultimately have wf': "wf_lsm w t'" using im by (simp add: wf_lsm_def rest) (simp add: memtable_new_def)
  moreover have "held w t' k \<subseteq> held w t k"
  proof
    fix v assume "v \<in> held w t' k"
    then show "v \<in> held w t k"
      unfolding held_tables [OF wf'] held_tables [OF wf] tabs using cont by (auto simp: rest memtable_new_def new(2))
  qed
  moreover have "lsm_view w t' = lsm_view w t"
  proof
    fix k
    have "table_key e < table_key x" if "x \<in> set (all_tables ?m)" for x
    proof (cases "te_level x = 0")
      case True
      then show ?thesis using wfm e(1,2) that by (simp add: table_key_def less_prod_def wf_manifest_def)
    qed (use e(2) in \<open>simp add: table_key_def less_prod_def\<close>)
    then have lt: "\<forall>x \<in> set (map fst (lt_cache t)). table_key e < table_key x" unfolding wfc(1) by blast
    have inj: "inj_on table_key (set (map fst (lt_cache t)))" unfolding wfc(1) by (rule wf_inj_tables [OF wfm])
    have "table_view (table_map ?w (lt_files t')) (map fst (lt_cache t')) k =
        (case map_of ?es k of None \<Rightarrow> table_view (table_map ?w (lt_files t')) (map fst (lt_cache t)) k | Some v \<Rightarrow> Some v)"
      using table_view_snoc [OF inj wfc(2) lt, of "table_map ?w (lt_files t')" k] by (simp add: c' new(2))
    moreover have "table_view (table_map ?w (lt_files t')) (map fst (lt_cache t)) = table_view (table_map ?w (lt_files t)) (map fst (lt_cache t))"
      by (rule table_view_cong) (use cont wfc(1) in simp)
    ultimately show "lsm_view w t' k = lsm_view w t k"
      using im by (simp add: lsm_view_tables rest memtable_new_def split: option.split)
  qed
  moreover have "lsm_stored f w t' = lsm_stored f w t"
  proof -
    have "stored f ?w (lt_files t') (lt_manifest t') = weight f ?es + stored f ?w (lt_files t) ?m"
      unfolding stored_def tabs using fresh by (simp add: new(2) cont)
    then show ?thesis by (simp add: lsm_stored_def rest memtable_new_def weight_def)
  qed
  moreover have "l0_maps w t' = l0_maps w t @ [map_of ?es]"
  proof -
    have "contents ?w (lt_files t') x = contents ?w (lt_files t) x" if "x \<in> set (manifest_level ?m 0)" for x
      by (rule cont) (use that in \<open>auto simp: set_all_tables\<close>)
    then show ?thesis using e(2) new(2) by (simp add: l0_maps_def m' manifest_level_add)
  qed
  ultimately show ?thesis using False rest by simp
qed

end
