(* ===== verification/Lsm_Ops.thy ===== *)
theory Lsm_Ops
  imports Lsm_View
begin

text \<open>
  The operations of the LSM tree as updates of the map it stands for: compaction, puts and deletes, and the
  contract that the versioned store above relies on.
\<close>

section \<open>Compaction\<close>

lemma distinct_all_tables: "wf_manifest m \<Longrightarrow> distinct (all_tables m)"
  by (simp add: wf_manifest_def distinct_map)

lemma due_level_in: "due_level c m levels = Some (Some l) \<Longrightarrow> l \<in> set levels"
  by (induction levels) (auto simp: Let_def split: if_splits)

lemma needs_compaction_deep:
  "needs_compaction c m = Some (Some l) \<Longrightarrow> level_count m 0 < cc_l0_compaction_trigger c \<Longrightarrow> 0 < l"
  using due_level_in [of c m "[1..<num_levels m - 1]" l] by (simp add: needs_compaction_def split: if_splits)

lemma lsm_view_all_tables:
  assumes "wf_lsm w t"
  shows "lsm_view w t k = visible (case map_of (mt_data (lt_active t)) k of
      None \<Rightarrow> table_view (table_map (le_sst w) (lt_files t)) (all_tables (lt_manifest t)) k | Some v \<Rightarrow> Some v)"
proof -
  have im: "lt_immutables t = []" and c: "set (map fst (lt_cache t)) = set (all_tables (lt_manifest t))" "distinct (map fst (lt_cache t))"
    and m: "wf_manifest (lt_manifest t)"
    using assms by (simp_all add: wf_lsm_def wf_cache_def wf_tables_def)
  have "table_view C (map fst (lt_cache t)) = table_view C (all_tables (lt_manifest t))" for C
    by (rule table_view_perm) (use c wf_inj_tables [OF m] distinct_all_tables [OF m] in simp_all)
  then show ?thesis by (simp add: lsm_view_tables [OF im] split: option.split)
qed

lemma maybe_compact_ok:
  assumes env: "sst_env_ok (le_sst w)" and wf: "wf_lsm w t" and room: "lsm_room w t 0 0"
    and mc: "maybe_compact w t = Some (Inr u, t')"
  shows "wf_lsm w t' \<and> lsm_stored f w t' \<le> lsm_stored f w t \<and> lt_active t' = lt_active t \<and> lt_config t' = lt_config t \<and>
     held w t' k \<subseteq> held w t k \<and> level_count (lt_manifest t') 0 \<le> level_count (lt_manifest t) 0 \<and>
     (level_count (lt_manifest t) 0 < lc_l0_compaction_trigger (lt_config t) \<or> one_value (l0_maps w t) k \<longrightarrow>
        lsm_view w t' k = lsm_view w t k)"
proof (cases "needs_compaction (compaction_of (lt_config t)) (lt_manifest t) = Some None")
  case True
  then have "t' = t" using mc by (simp add: maybe_compact_def)
  then show ?thesis using wf by simp
next
  case False
  let ?w = "le_sst w" and ?m = "lt_manifest t" and ?fs = "lt_files t"
  obtain level res m1 fs1 fs2 cache where
    need: "needs_compaction (compaction_of (lt_config t)) ?m = Some (Some level)" and
    cp: "compact ?w (le_tables w) (compaction_of (lt_config t)) ?m ?fs level = Some (Inr res, m1, fs1)" and
    sv: "save_manifest w m1 fs1 = (Inr (), fs2)" and
    ld: "load_cache ?w (ti_read (le_tables w)) fs2 (all_tables m1) [] = Some (Inr u, cache)" and
    t': "t' = t\<lparr>lt_manifest := m1, lt_files := fs2, lt_cache := cache\<rparr>"
    using mc False by (auto simp: maybe_compact_def split: option.splits sum.splits prod.splits)
  have wft: "wf_tables ?w ?fs ?m" using wf by (simp add: wf_lsm_def)
  have small: "stored entry_unit ?w ?fs ?m < 2 ^ 32" "stored entry_bytes ?w ?fs ?m < 2 ^ 60"
    using room by (simp_all add: lsm_room_def lsm_stored_def)
  have fr: "fs2 (sst_file_name i) = fs1 (sst_file_name i)" for i by (rule save_manifest_frame [OF sv])
  note kept = wf_tables_frame [OF fr compact_wf(1) [OF env wft cp small]]
  have good: "\<forall>e \<in> set (all_tables m1). good_table ?w fs2 e" and wfm1: "wf_manifest m1"
    using kept(1) by (simp_all add: wf_tables_def)
  have "map fst cache = all_tables m1" "\<forall>(e, r) \<in> set cache. opens ?w fs2 e r"
    using load_cache_ok [OF ld good] by auto
  then have wf': "wf_lsm w t'"
    using wf kept(1) distinct_all_tables [OF wfm1] by (simp add: wf_lsm_def wf_cache_def t')
  have tab: "table_view (table_map ?w fs2) (all_tables m1) = table_view (table_map ?w fs1) (all_tables m1)"
    by (rule table_view_cong) (simp add: kept(2))
  have "lsm_stored f w t' \<le> lsm_stored f w t"
    using compact_wf(2) [OF env wft cp small, of f] by (simp add: lsm_stored_def t' kept(3))
  moreover have "held w t' k \<subseteq> held w t k"
  proof
    fix v assume "v \<in> held w t' k"
    then have "map_of (mt_data (lt_active t)) k = Some v \<or> (\<exists>e \<in> set (all_tables m1). table_map ?w fs2 e k = Some v)"
      unfolding held_tables [OF wf'] by (simp add: t')
    then show "v \<in> held w t k"
      using compact_values [OF env wft cp small, of _ k v] kept(2) unfolding held_tables [OF wf] by auto
  qed
  moreover have "lsm_view w t' k = lsm_view w t k"
    if "level_count ?m 0 < lc_l0_compaction_trigger (lt_config t) \<or> one_value (l0_maps w t) k"
  proof -
    have "0 < level \<or> tables_agree ?w ?fs (manifest_level ?m 0) k"
      using that need needs_compaction_deep [of "compaction_of (lt_config t)" ?m level]
      by (auto simp: compaction_of_def tables_agree_one_value l0_maps_def)
    then have "visible (table_view (table_map ?w fs1) (all_tables m1) k) = visible (table_view (table_map ?w ?fs) (all_tables ?m) k)"
      by (rule compact_wf(3) [OF env wft cp small deep_level_agrees [OF wft]])
    then show ?thesis
      unfolding lsm_view_all_tables [OF wf'] lsm_view_all_tables [OF wf] by (simp add: t' tab split: option.split)
  qed
  ultimately show ?thesis using wf' compact_level0(2) [OF env wft cp small] by (simp add: t')
qed

section \<open>Writing\<close>

lemma weight_insert: "weight f (bt_insert k v es) \<le> weight f es + f (k, v)"
  by (induction k v es rule: bt_insert.induct) (auto simp: weight_def)

lemma set_bt_insert_subset: "set (bt_insert k v es) \<subseteq> insert (k, v) (set es)"
  by (induction k v es rule: bt_insert.induct) auto

text \<open>Whether a flush of the tree, if one is due, keeps what a key reads as: no compaction of level 0
  follows, or the tables of level 0 and the active memtable agree on the key.\<close>

definition flush_safe :: "lsm_env \<Rightarrow> lsm_tree \<Rightarrow> bytes \<Rightarrow> bool" where
  "flush_safe w t k \<longleftrightarrow> \<not> memtable_is_full (lt_active t) \<or>
     Suc (level_count (lt_manifest t) 0) < lc_l0_compaction_trigger (lt_config t) \<or>
     one_value (l0_maps w t @ [map_of (mt_data (lt_active t))]) k"

lemma flush_if_full_ok:
  assumes env: "sst_env_ok (le_sst w)" and wf: "wf_lsm w t" and room: "lsm_room w t 0 0"
    and fl: "flush_if_full w t = Some (Inr u, t')"
  shows "wf_lsm w t' \<and> lsm_stored f w t' \<le> lsm_stored f w t \<and> lt_config t' = lt_config t \<and>
     held w t' k \<subseteq> held w t k \<and> level_count (lt_manifest t') 0 \<le> Suc (level_count (lt_manifest t) 0) \<and>
     (flush_safe w t k \<longrightarrow> lsm_view w t' k = lsm_view w t k)"
proof (cases "memtable_is_full (lt_active t)")
  case False
  then show ?thesis using fl wf by (simp add: flush_if_full_def)
next
  case True
  then obtain u1 t1 where f1: "flush_memtable w t = Some (Inr u1, t1)" and mc: "maybe_compact w t1 = Some (Inr u, t')"
    using fl by (auto simp: flush_if_full_def split: option.splits sum.splits)
  note s1 = flush_ok [OF env wf room f1]
  have room1: "lsm_room w t1 0 0" using s1 room by (simp add: lsm_room_def)
  have wf1: "wf_lsm w t1" using s1 by simp
  note s2 = maybe_compact_ok [OF env wf1 room1 mc]
  have len: "length (l0_maps w x) = level_count (lt_manifest x) 0" for x by (simp add: l0_maps_def)
  have l0: "l0_maps w t1 = l0_maps w t @ [map_of (mt_data (lt_active t))]" if "mt_data (lt_active t) \<noteq> []" using s1 that by simp
  have count: "level_count (lt_manifest t1) 0 \<le> Suc (level_count (lt_manifest t) 0)"
    using s1 l0 len [of t] len [of t1] by (cases "mt_data (lt_active t) = []") (simp, metis length_append_singleton le_refl)
  have "level_count (lt_manifest t1) 0 < lc_l0_compaction_trigger (lt_config t1) \<or> one_value (l0_maps w t1) k"
    if safe: "flush_safe w t k"
  proof (cases "mt_data (lt_active t) = []")
    case e: True
    then have "t1 = t" using s1 by simp
    then show ?thesis using safe True by (auto simp: flush_safe_def one_value_def)
  next
    case ne: False
    have "lt_config t1 = lt_config t" using s1 by simp
    then show ?thesis using safe True l0 [OF ne] count by (auto simp: flush_safe_def)
  qed
  moreover have "lsm_stored f w t1 = lsm_stored f w t" "lt_config t1 = lt_config t" "held w t1 k \<subseteq> held w t k" "lsm_view w t1 = lsm_view w t"
    using s1 [of f k] by simp_all
  ultimately show ?thesis using s2 [of f k] count by auto
qed

text \<open>The tree after the memtable entry of a write, before a flush that may follow.\<close>

definition buffered :: "lsm_tree \<Rightarrow> bytes \<Rightarrow> entry_value \<Rightarrow> lsm_tree" where
  "buffered t k v = t\<lparr>lt_active :=
     (case v of None \<Rightarrow> memtable_delete (lt_active t) k | Some x \<Rightarrow> the (memtable_put (lt_active t) k x))\<rparr>"

lemma buffered_simps [simp]:
  "lt_files (buffered t k v) = lt_files t" "lt_immutables (buffered t k v) = lt_immutables t"
  "lt_manifest (buffered t k v) = lt_manifest t" "lt_cache (buffered t k v) = lt_cache t" "lt_config (buffered t k v) = lt_config t"
  by (simp_all add: buffered_def)

lemma buffered_log: "buffered (t\<lparr>lt_wal := x\<rparr>) k v = (buffered t k v)\<lparr>lt_wal := x\<rparr>"
  by (cases t; cases v) (simp_all add: buffered_def)

text \<open>The state of the log is not part of what the tree stands for.\<close>

lemma log_irrelevant [simp]:
  "wf_lsm w (t\<lparr>lt_wal := x\<rparr>) = wf_lsm w t" "lsm_view w (t\<lparr>lt_wal := x\<rparr>) = lsm_view w t"
  "lsm_stored f w (t\<lparr>lt_wal := x\<rparr>) = lsm_stored f w t" "held w (t\<lparr>lt_wal := x\<rparr>) = held w t"
  "flush_safe w (t\<lparr>lt_wal := x\<rparr>) = flush_safe w t" "lsm_room w (t\<lparr>lt_wal := x\<rparr>) = lsm_room w t"
  by (simp_all add: wf_lsm_def wf_cache_def lsm_view_def layers_def lsm_stored_def held_def flush_safe_def l0_maps_def
      lsm_room_def fun_eq_iff)

lemma buffered_memtable:
  assumes "wf_lsm w t"
  shows "wf_memtable (lt_active (buffered t k v))" "mt_data (lt_active (buffered t k v)) = bt_insert k v (mt_data (lt_active t))"
proof -
  have wfa: "wf_memtable (lt_active t)" using assms by (simp add: wf_lsm_def)
  have "wf_memtable (lt_active (buffered t k v)) \<and> mt_data (lt_active (buffered t k v)) = bt_insert k v (mt_data (lt_active t))"
  proof (cases v)
    case None
    then show ?thesis using wf_memtable_delete [OF wfa] by (simp add: buffered_def)
  next
    case (Some x)
    then show ?thesis using wf_memtable_put [OF wfa, of k x] by (auto simp: buffered_def)
  qed
  then show "wf_memtable (lt_active (buffered t k v))"
    "mt_data (lt_active (buffered t k v)) = bt_insert k v (mt_data (lt_active t))" by simp_all
qed

lemma buffered_ok:
  assumes wf: "wf_lsm w t" and st: "storable (k, v)"
  shows "wf_lsm w (buffered t k v)" and "lsm_view w (buffered t k v) = (lsm_view w t)(k := v)"
    and "lsm_stored f w (buffered t k v) \<le> lsm_stored f w t + f (k, v)"
    and "held w (buffered t k v) k' \<subseteq> held w t k' \<union> (if k' = k then {v} else {})"
proof -
  have sm: "sorted_map (mt_data (lt_active t))" using wf by (simp add: wf_lsm_def wf_memtable_def)
  note upd = map_of_bt_insert [OF sm, of k v] and mt = buffered_memtable [OF wf, of k v]
  have "\<forall>x \<in> set (mt_data (lt_active (buffered t k v))). storable x"
    using wf st set_bt_insert_subset [of k v] unfolding mt(2) wf_lsm_def by blast
  then show wf1: "wf_lsm w (buffered t k v)" using wf mt(1) by (simp add: wf_lsm_def wf_cache_def)
  show "lsm_view w (buffered t k v) = (lsm_view w t)(k := v)"
    unfolding lsm_view_all_tables [OF wf1] lsm_view_all_tables [OF wf] fun_eq_iff
    by (simp add: mt(2) upd visible_def split: option.split)
  show "lsm_stored f w (buffered t k v) \<le> lsm_stored f w t + f (k, v)"
    using weight_insert [of f k v] by (simp add: lsm_stored_def mt(2))
  show "held w (buffered t k v) k' \<subseteq> held w t k' \<union> (if k' = k then {v} else {})"
    using held_tables [OF wf1] held_tables [OF wf] by (auto simp: mt(2) upd)
qed

lemma lsm_put_steps:
  assumes "wf_lsm w t" and "lsm_put w t k x = Some (Inr u, t')"
  shows "\<exists>wal. flush_if_full w (buffered (t\<lparr>lt_wal := wal\<rparr>) k (Some x)) = Some (Inr u, t')"
  using assms(2) by (auto simp: lsm_put_def log_op_def buffered_def split: sum.splits prod.splits option.splits)

lemma lsm_delete_steps:
  "lsm_delete w t k = Some (Inr u, t') \<Longrightarrow> \<exists>wal. flush_if_full w (buffered (t\<lparr>lt_wal := wal\<rparr>) k None) = Some (Inr u, t')"
  by (auto simp: lsm_delete_def log_op_def buffered_def split: sum.splits prod.splits option.splits)

lemma write_ok:
  assumes env: "sst_env_ok (le_sst w)" and wf: "wf_lsm w t" and st: "storable (k, v)"
    and room: "lsm_room w t 1 (entry_bytes (k, v))"
    and fl: "\<exists>wal. flush_if_full w (buffered (t\<lparr>lt_wal := wal\<rparr>) k v) = Some (Inr u, t')"
  shows "wf_lsm w t'" and "lsm_stored f w t' \<le> lsm_stored f w t + f (k, v)" and "lt_config t' = lt_config t"
    and "held w t' k' \<subseteq> held w t k' \<union> (if k' = k then {v} else {})"
    and "flush_safe w (buffered t k v) k' \<Longrightarrow> lsm_view w t' k' = ((lsm_view w t)(k := v)) k'"
    and "level_count (lt_manifest t') 0 \<le> Suc (level_count (lt_manifest t) 0)"
proof -
  note b = buffered_ok [OF wf st]
  have "lsm_room w (buffered t k v) 0 0"
    using room b(3) [of entry_unit] b(3) [of entry_bytes] by (simp add: lsm_room_def entry_unit_def)
  moreover obtain wal where "flush_if_full w ((buffered t k v)\<lparr>lt_wal := wal\<rparr>) = Some (Inr u, t')"
    using fl by (auto simp: buffered_log)
  ultimately have "wf_lsm w t' \<and> lsm_stored f w t' \<le> lsm_stored f w (buffered t k v) \<and> lt_config t' = lt_config t \<and>
     held w t' k' \<subseteq> held w (buffered t k v) k' \<and> level_count (lt_manifest t') 0 \<le> Suc (level_count (lt_manifest t) 0) \<and>
     (flush_safe w (buffered t k v) k' \<longrightarrow> lsm_view w t' k' = lsm_view w (buffered t k v) k')"
    using flush_if_full_ok [OF env, of "(buffered t k v)\<lparr>lt_wal := wal\<rparr>" u t' f k'] b(1) by simp
  then show "wf_lsm w t'" "lsm_stored f w t' \<le> lsm_stored f w t + f (k, v)" "lt_config t' = lt_config t"
    "held w t' k' \<subseteq> held w t k' \<union> (if k' = k then {v} else {})"
    "flush_safe w (buffered t k v) k' \<Longrightarrow> lsm_view w t' k' = ((lsm_view w t)(k := v)) k'"
    "level_count (lt_manifest t') 0 \<le> Suc (level_count (lt_manifest t) 0)"
    using b(2) b(3) [of f] subset_trans [OF _ b(4) [of k']] by simp_all
qed

section \<open>Properties of reads and writes\<close>

text \<open>An empty tree over a file system without faults.\<close>

definition demo_lsm_env :: lsm_env where
  "demo_lsm_env = \<lparr>le_sst = demo_sst, le_crc = (\<lambda>_. 0), le_enc = (\<lambda>_. None), le_dec = (\<lambda>_. None), le_tables = demo_table_io,
     le_save = (\<lambda>_. IoOk), le_rename = (\<lambda>_. True), le_wal_write = True, le_wal_sync = True, le_wal_unlink = True,
     le_wal_open = True, le_mkdir = True, le_read_manifest = True\<rparr>"

definition empty_tree :: "lsm_config \<Rightarrow> lsm_tree" where
  "empty_tree c = \<lparr>lt_files = Map.empty, lt_active = memtable_new (lc_memtable_size_limit c), lt_immutables = [],
     lt_manifest = manifest_new NUM_LEVELS, lt_wal = wal_open [], lt_wal_linked = True, lt_cache = [], lt_config = c\<rparr>"

lemma wf_empty_tree: "wf_lsm w (empty_tree c)"
  by (simp add: wf_lsm_def empty_tree_def wf_cache_def wf_tables_def ranges_disjoint_def) (simp add: memtable_new_def)

lemma empty_tree_stored [simp]: "lsm_stored f w (empty_tree c) = 0"
  by (simp add: lsm_stored_def stored_def empty_tree_def memtable_new_def weight_def)

lemma empty_tree_flush_safe:
  "length k + value_len v < lc_memtable_size_limit c \<Longrightarrow> flush_safe w (buffered (empty_tree c) k v) k'"
  by (cases v) (simp_all add: flush_safe_def buffered_def empty_tree_def memtable_is_full_def memtable_put_def memtable_delete_def
      memtable_new_def recalculate_size_def value_len_def)

lemmas demo_write_simps = lsm_put_def lsm_delete_def log_op_def wal_append_def wal_sync_def flush_if_full_def memtable_is_full_def
  memtable_put_def memtable_delete_def recalculate_size_def memtable_new_def demo_lsm_env_def empty_tree_def lsm_config_default_def
  value_len_def

text \<open>C20: a successful put stores the value. Afterwards the tree is well formed, a lookup of the key returns the
  value, and every other key reads as before. Where the write fills the memtable it is flushed, and a
  compaction may follow: then this is shown for keys of which level 0 and the memtable hold one value, or
  when level 0 stays below its limit.\<close>

theorem lsm_put_get:
  assumes "sst_env_ok (le_sst w)" and "wf_lsm w t" and "storable (k, Some x)" and "lsm_room w t 1 (length k + length x)"
    and "lsm_put w t k x = Some (Inr u, t')"
  shows "wf_lsm w t' \<and> (\<forall>k'. flush_safe w (buffered t k (Some x)) k' \<longrightarrow>
     lsm_get w t' k' = (if k' = k then Some (Inr (Some x)) else lsm_get w t k'))"
proof -
  have room: "lsm_room w t 1 (entry_bytes (k, Some x))" using assms(4) by (simp add: entry_bytes_def value_len_def)
  note ok = write_ok [OF assms(1-3) room lsm_put_steps [OF assms(2,5)]]
  show ?thesis using ok(1,5) assms(2) by (simp add: lsm_get_view wf_lsm_def)
qed

theorem lsm_put_get_witness:
  "\<exists>t'. lsm_put demo_lsm_env (empty_tree lsm_config_default) [2] [8, 9] = Some (Inr (), t') \<and> wf_lsm demo_lsm_env t' \<and>
     lsm_get demo_lsm_env t' [2] = Some (Inr (Some [8, 9]))"
proof -
  let ?t = "empty_tree lsm_config_default"
  obtain t' where put: "lsm_put demo_lsm_env ?t [2] [8, 9] = Some (Inr (), t')" by (simp add: demo_write_simps)
  have "flush_safe demo_lsm_env (buffered ?t [2] (Some [8, 9])) [2]"
    by (rule empty_tree_flush_safe) (simp add: value_len_def lsm_config_default_def)
  moreover have "lsm_room demo_lsm_env ?t 1 (length [2 :: 8 word] + length [8 :: 8 word, 9])" by (simp add: lsm_room_def)
  ultimately show ?thesis
    using lsm_put_get [OF _ wf_empty_tree _ _ put] put
    by (simp add: demo_lsm_env_def [THEN arg_cong, of le_sst] storable_def value_len_def TOMBSTONE_MARKER_def)
qed

text \<open>C21: a successful delete hides the key: a lookup of it finds nothing, and every other key reads as before,
  in the sense of the property of puts.\<close>

theorem lsm_delete_get:
  assumes "sst_env_ok (le_sst w)" and "wf_lsm w t" and "storable (k, None)" and "lsm_room w t 1 (length k)"
    and "lsm_delete w t k = Some (Inr u, t')"
  shows "wf_lsm w t' \<and> (\<forall>k'. flush_safe w (buffered t k None) k' \<longrightarrow>
     lsm_get w t' k' = (if k' = k then Some (Inr None) else lsm_get w t k'))"
proof -
  have room: "lsm_room w t 1 (entry_bytes (k, None))" using assms(4) by (simp add: entry_bytes_def value_len_def)
  note ok = write_ok [OF assms(1-3) room lsm_delete_steps [OF assms(5)]]
  show ?thesis using ok(1,5) assms(2) by (simp add: lsm_get_view wf_lsm_def)
qed

theorem lsm_delete_get_witness:
  "\<exists>t'. lsm_delete demo_lsm_env (empty_tree lsm_config_default) [2] = Some (Inr (), t') \<and> wf_lsm demo_lsm_env t' \<and>
     lsm_get demo_lsm_env t' [2] = Some (Inr None)"
proof -
  let ?t = "empty_tree lsm_config_default"
  obtain t' where del: "lsm_delete demo_lsm_env ?t [2] = Some (Inr (), t')" by (simp add: demo_write_simps)
  have "flush_safe demo_lsm_env (buffered ?t [2] None) [2]"
    by (rule empty_tree_flush_safe) (simp add: value_len_def lsm_config_default_def)
  moreover have "lsm_room demo_lsm_env ?t 1 (length [2 :: 8 word])" by (simp add: lsm_room_def)
  ultimately show ?thesis
    using lsm_delete_get [OF _ wf_empty_tree _ _ del] del
    by (simp add: demo_lsm_env_def [THEN arg_cong, of le_sst] storable_def value_len_def TOMBSTONE_MARKER_def)
qed



end
