(* ===== verification/Lsm_Durable.thy ===== *)
theory Lsm_Durable
  imports Lsm_Ops "HOL-Library.Countable"
begin

text \<open>
  Crashes and restarts of the LSM tree: what the directory holds after every acknowledged write is enough to
  rebuild the map, whether the write was only logged or was flushed and compacted.
\<close>

section \<open>What is on disk\<close>

text \<open>What is relied on of the JSON encoding of the manifest: a written text is read back as the manifest.\<close>

definition codec_ok :: "lsm_env \<Rightarrow> bool" where
  "codec_ok w \<longleftrightarrow> (\<forall>m data. le_enc w m = Some data \<longrightarrow> utf8_valid data \<and> le_dec w data = Some m)"

abbreviation op_record :: "wal_op \<Rightarrow> wal_record" where
  "op_record op \<equiv> \<lparr>wr_data = wal_op_encode op\<rparr>"

definition log_matches :: "lsm_env \<Rightarrow> lsm_tree \<Rightarrow> wal_op list \<Rightarrow> bool" where
  "log_matches w t ops \<longleftrightarrow>
     lt_wal_linked t \<and> wal_holds (le_crc w) (lt_wal t) (map op_record ops) [] \<and> (\<forall>op \<in> set ops. valid_op op) \<and>
     mt_run (memtable_new (lc_memtable_size_limit (lt_config t))) (map to_mt_op ops) = Some (lt_active t)"

definition recoverable :: "lsm_env \<Rightarrow> lsm_tree \<Rightarrow> bool" where
  "recoverable w t \<longleftrightarrow>
     manifest_load (le_dec w) True (lt_files t) MANIFEST_FILE NUM_LEVELS = Inr (lt_manifest t) \<and> (\<exists>ops. log_matches w t ops)"

text \<open>Opening meets no fault.\<close>

definition readable :: "lsm_env \<Rightarrow> bool" where
  "readable w \<longleftrightarrow> le_mkdir w \<and> le_read_manifest w \<and> le_wal_open w \<and> (\<forall>n. ti_read (le_tables w) n)"

section \<open>Reopening\<close>

lemma load_cache_succeeds:
  "\<forall>e \<in> set es. good_table w fs e \<and> rd (te_file_name e) \<Longrightarrow> \<exists>cache. load_cache w rd fs es acc = Some (Inr (), cache)"
proof (induction es arbitrary: acc)
  case (Cons e es)
  obtain r where r: "opens w fs e r" using Cons.prems by (auto simp: good_table_def)
  then have "fs (te_file_name e) \<noteq> None" by (auto simp: opens_def)
  then show ?case using Cons.IH [of "acc @ [(e, r)]"] Cons.prems opens_open_table [OF r, of rd] by auto
qed simp

lemma mt_run_append: "mt_run m (xs @ ys) = Option.bind (mt_run m xs) (\<lambda>m'. mt_run m' ys)"
  by (induction xs arbitrary: m) (auto split: bind_splits)

fun op_key :: "wal_op \<Rightarrow> bytes" where
  "op_key (WalPut k v) = k"
| "op_key (WalDelete k) = k"

fun op_value :: "wal_op \<Rightarrow> entry_value" where
  "op_value (WalPut k v) = Some v"
| "op_value (WalDelete k) = None"

abbreviation op_entry :: "wal_op \<Rightarrow> block_entry" where
  "op_entry op \<equiv> (op_key op, op_value op)"

lemma valid_op_storable: "valid_op op \<Longrightarrow> storable (op_entry op)"
  by (cases op) (simp_all add: valid_op_def storable_def value_len_def MAX_RECORD_def TOMBSTONE_MARKER_def)

lemma mt_apply_buffered:
  assumes "wf_lsm w t"
  shows "mt_apply (lt_active t) (to_mt_op op) = Some (lt_active (buffered t (op_key op) (op_value op)))"
proof (cases op)
  case (WalPut k v)
  have "wf_memtable (lt_active t)" using assms by (simp add: wf_lsm_def)
  then obtain m where "memtable_put (lt_active t) k v = Some m" using wf_memtable_put by blast
  then show ?thesis by (simp add: WalPut buffered_def)
qed (simp add: buffered_def)

text \<open>Reopening the directory of a tree whose log file holds the operations of its memtable and possibly a
  part of one more record.\<close>

lemma reopen:
  assumes wf: "wf_lsm w t" and rec: "manifest_load (le_dec w) True (lt_files t) MANIFEST_FILE NUM_LEVELS = Inr (lt_manifest t)"
    and log: "log_matches w t ops" and rd: "readable w" and op: "valid_op op"
  shows "\<exists>t'. lsm_open w (lt_config t) (lt_files t) (Some (ww_disk (lt_wal t) @ take n (wal_encode (le_crc w) (op_record op)))) = Some (Inr t') \<and>
     wf_lsm w t' \<and> (lsm_view w t' = lsm_view w t \<or> lsm_view w t' = (lsm_view w t)(op_key op := op_value op))"
proof -
  let ?file = "ww_disk (lt_wal t) @ take n (wal_encode (le_crc w) (op_record op))" and ?m = "lt_manifest t"
  let ?lim = "lc_memtable_size_limit (lt_config t)"
  have "wal_holds (le_crc w) ((lt_wal t)\<lparr>ww_pending := wal_encode (le_crc w) (op_record op),
      ww_bytes_written := length (ww_disk (lt_wal t)) + length (wal_encode (le_crc w) (op_record op))\<rparr>) (map op_record ops) (map op_record [op])"
    using log by (simp add: log_matches_def wal_holds_def)
  from lsm_wal.recover_after_crash [OF this, of n] log op obtain j rs where j: "j \<le> 1"
    and rs: "read_all (le_crc w) ?file = Inr rs" "decode_records wal_op_decode rs = Some (Inr (ops @ take j [op]))"
    by (auto simp: log_matches_def)
  let ?t1 = "if j = 0 then t else buffered t (op_key op) (op_value op)"
  have "mt_run (memtable_new ?lim) (map to_mt_op (ops @ take j [op])) = Some (lt_active ?t1)"
    using log j mt_apply_buffered [OF wf, of op] by (cases j) (simp_all add: mt_run_append log_matches_def)
  then have rep: "replay_wal (le_crc w) ?lim (Some ?file) = Some (Inr (lt_active ?t1))"
    using rs by (simp add: replay_wal_def)
  have good: "\<forall>e \<in> set (all_tables ?m). good_table (le_sst w) (lt_files t) e" and wfm: "wf_manifest ?m"
    using wf by (simp_all add: wf_lsm_def wf_tables_def)
  obtain cache where ld: "load_cache (le_sst w) (ti_read (le_tables w)) (lt_files t) (all_tables ?m) [] = Some (Inr (), cache)"
    using load_cache_succeeds [of "all_tables ?m" "le_sst w" "lt_files t" "ti_read (le_tables w)" "[]"] good rd by (auto simp: readable_def)
  define t' where "t' = \<lparr>lt_files = lt_files t, lt_active = lt_active ?t1, lt_immutables = [], lt_manifest = ?m,
    lt_wal = wal_open ?file, lt_wal_linked = True, lt_cache = cache, lt_config = lt_config t\<rparr>"
  have "lsm_open w (lt_config t) (lt_files t) (Some ?file) = Some (Inr t')"
    using rd rec rep ld by (simp add: lsm_open_def readable_def t'_def)
  moreover have wf1: "wf_lsm w ?t1" using wf buffered_ok(1) [OF wf valid_op_storable [OF op]] by simp
  have "map fst cache = all_tables ?m" "\<forall>(e, r) \<in> set cache. opens (le_sst w) (lt_files t) e r"
    using load_cache_ok [OF ld good] by auto
  then have wf': "wf_lsm w t'" using wf1 wf distinct_all_tables [OF wfm] by (simp add: wf_lsm_def wf_cache_def t'_def split: if_splits)
  moreover have "lsm_view w t' = lsm_view w ?t1"
    unfolding fun_eq_iff lsm_view_all_tables [OF wf'] lsm_view_all_tables [OF wf1]
    by (simp add: t'_def split: option.split)
  ultimately show ?thesis using buffered_ok(2) [OF wf valid_op_storable [OF op]] by (cases "j = 0") auto
qed

section \<open>Writes keep the directory recoverable\<close>

lemma saved_manifest:
  assumes "codec_ok w" and "save_manifest w m fs = (Inr u, fs')"
  shows "manifest_load (le_dec w) True fs' MANIFEST_FILE NUM_LEVELS = Inr m"
proof -
  obtain data where "le_enc w m = Some data" "fs' MANIFEST_FILE = Some data" using save_manifest_ok [OF assms(2)] by auto
  then show ?thesis using assms(1) by (simp add: manifest_load_def codec_ok_def)
qed

lemma log_matches_empty:
  "lt_wal_linked t \<Longrightarrow> lt_wal t = wal_open [] \<Longrightarrow> lt_active t = memtable_new (lc_memtable_size_limit (lt_config t)) \<Longrightarrow>
     log_matches w t []"
  by (simp add: log_matches_def wal_holds_def wal_open_def)

lemma flush_recoverable:
  assumes "codec_ok w" and "le_wal_unlink w" and "recoverable w t" and "flush_memtable w t = Some (Inr u, t')"
  shows "recoverable w t'"
proof (cases "mt_data (lt_active t) = []")
  case True
  then have "t' = t" using assms(4) by (simp add: flush_memtable_def memtable_is_empty_def)
  then show ?thesis using assms(3) by simp
next
  case False
  then obtain fs1 where sv: "save_manifest w (lt_manifest t') fs1 = (Inr (), lt_files t')"
    and t': "lt_wal_linked t'" "lt_wal t' = wal_open []" "lt_active t' = memtable_new (lc_memtable_size_limit (lt_config t'))"
    using flush_steps [OF assms(4) False] assms(2) by auto
  show ?thesis unfolding recoverable_def using saved_manifest [OF assms(1) sv] log_matches_empty [OF t'] by blast
qed

lemma compact_recoverable:
  assumes "codec_ok w" and "recoverable w t" and "maybe_compact w t = Some (Inr u, t')"
  shows "recoverable w t'"
proof -
  have "t' = t \<or> (\<exists>m fs fs' cache. save_manifest w m fs = (Inr (), fs') \<and> t' = t\<lparr>lt_manifest := m, lt_files := fs', lt_cache := cache\<rparr>)"
    using assms(3) by (auto simp: maybe_compact_def split: option.splits sum.splits prod.splits)
  then show ?thesis
    using assms(2) saved_manifest [OF assms(1)] by (auto simp: recoverable_def log_matches_def)
qed

fun lsm_apply :: "lsm_env \<Rightarrow> lsm_tree \<Rightarrow> wal_op \<Rightarrow> (unit result \<times> lsm_tree) option" where
  "lsm_apply w t (WalPut k v) = lsm_put w t k v"
| "lsm_apply w t (WalDelete k) = lsm_delete w t k"

lemma lsm_apply_steps:
  "wf_lsm w t \<Longrightarrow> lsm_apply w t op = Some (Inr u, t') \<Longrightarrow>
     \<exists>wal. flush_if_full w (buffered (t\<lparr>lt_wal := wal\<rparr>) (op_key op) (op_value op)) = Some (Inr u, t')"
  using lsm_put_steps lsm_delete_steps by (cases op) auto

lemma log_op_ok:
  assumes "log_op w t op = (Inr u, t1)" and "wal_holds (le_crc w) (lt_wal t) rs []"
  shows "\<exists>wal. t1 = t\<lparr>lt_wal := wal\<rparr> \<and> wal_holds (le_crc w) wal (rs @ [op_record op]) []"
proof -
  obtain w1 w2 where "wal_append (le_crc w) (le_wal_write w) (lt_wal t) (wal_op_encode op) = (Inr (), w1)"
    "wal_sync (le_wal_sync w) w1 = (Inr u, w2)" "t1 = t\<lparr>lt_wal := w2\<rparr>"
    using assms(1) by (auto simp: log_op_def split: sum.splits prod.splits)
  then show ?thesis
    using wal_holds_append [OF assms(2), of "le_wal_write w" "wal_op_encode op"] wal_holds_sync [of "le_crc w" w1 rs "[op_record op]" "le_wal_sync w"]
    by (auto simp: wal_append_def wal_sync_def split: if_splits)
qed

lemma apply_recoverable:
  assumes cd: "codec_ok w" "le_wal_unlink w" and wf: "wf_lsm w t" and rec: "recoverable w t" and op: "valid_op op"
    and ap: "lsm_apply w t op = Some (Inr u, t')"
  shows "recoverable w t'"
proof -
  obtain ops where log: "log_matches w t ops" using rec by (auto simp: recoverable_def)
  obtain u1 t1 where lg: "log_op w t op = (Inr u1, t1)"
    and fl: "flush_if_full w (buffered t1 (op_key op) (op_value op)) = Some (Inr u, t')"
    using ap by (cases op) (auto simp: lsm_put_def lsm_delete_def buffered_def split: sum.splits prod.splits option.splits)
  obtain wal where t1: "t1 = t\<lparr>lt_wal := wal\<rparr>" and wal: "wal_holds (le_crc w) wal (map op_record (ops @ [op])) []"
    using log_op_ok [OF lg] log by (auto simp: log_matches_def)
  have "log_matches w (buffered t1 (op_key op) (op_value op)) (ops @ [op])"
    using wal log op mt_apply_buffered [OF wf, of op] by (simp add: log_matches_def t1 buffered_log mt_run_append) (simp add: buffered_def)
  then have b: "recoverable w (buffered t1 (op_key op) (op_value op))" using rec by (auto simp: recoverable_def t1)
  show ?thesis
  proof (cases "memtable_is_full (lt_active (buffered t1 (op_key op) (op_value op)))")
    case True
    then obtain u2 t2 where "flush_memtable w (buffered t1 (op_key op) (op_value op)) = Some (Inr u2, t2)" "maybe_compact w t2 = Some (Inr u, t')"
      using fl by (auto simp: flush_if_full_def split: option.splits sum.splits)
    then show ?thesis using flush_recoverable [OF cd b] compact_recoverable [OF cd(1)] by blast
  qed (use fl b in \<open>simp add: flush_if_full_def\<close>)
qed

section \<open>Runs of writes\<close>

text \<open>Writes one after the other, up to the first that fails.\<close>

fun lsm_run :: "lsm_env \<Rightarrow> lsm_tree \<Rightarrow> wal_op list \<Rightarrow> (unit result \<times> lsm_tree) option" where
  "lsm_run w t [] = Some (Inr (), t)"
| "lsm_run w t (op # ops) =
     (case lsm_apply w t op of
        None \<Rightarrow> None
      | Some (Inl e, t1) \<Rightarrow> Some (Inl e, t1)
      | Some (Inr _, t1) \<Rightarrow> lsm_run w t1 ops)"

text \<open>The map after the writes.\<close>

definition after_ops :: "wal_op list \<Rightarrow> (bytes \<rightharpoonup> bytes) \<Rightarrow> bytes \<rightharpoonup> bytes" where
  "after_ops ops f = fold (\<lambda>op f. f(op_key op := op_value op)) ops f"

lemma after_ops_cong: "f k = g k \<Longrightarrow> after_ops ops f k = after_ops ops g k"
  unfolding after_ops_def
proof (induction ops arbitrary: f g)
  case (Cons op ops)
  have "(f(op_key op := op_value op)) k = (g(op_key op := op_value op)) k" using Cons.prems by (cases "k = op_key op") simp_all
  then show ?case unfolding fold_simps by (rule Cons.IH)
qed simp

definition op_bytes :: "wal_op list \<Rightarrow> nat" where
  "op_bytes ops = sum_list (map (\<lambda>op. entry_bytes (op_entry op)) ops)"

text \<open>No compaction of level 0 mixes two values of the key.\<close>

definition run_safe :: "lsm_env \<Rightarrow> lsm_tree \<Rightarrow> wal_op list \<Rightarrow> bytes \<Rightarrow> bool" where
  "run_safe w t ops k \<longleftrightarrow> level_count (lt_manifest t) 0 + length ops < lc_l0_compaction_trigger (lt_config t) \<or>
     (\<exists>v. held w t k \<subseteq> {v} \<and> (\<forall>op \<in> set ops. op_key op = k \<longrightarrow> op_value op = v))"

lemma one_value_held:
  assumes "wf_lsm w t" and "held w t k \<subseteq> {v}"
  shows "one_value (l0_maps w t @ [map_of (mt_data (lt_active t))]) k"
proof -
  have only: "x = v" if f: "f \<in> set (l0_maps w t @ [map_of (mt_data (lt_active t))])" and x: "f k = Some x" for f x
  proof -
    have "x \<in> held w t k"
      using f x unfolding held_tables [OF assms(1)] l0_maps_def by (auto simp: set_all_tables)
    then show ?thesis using assms(2) by auto
  qed
  show ?thesis unfolding one_value_def using only by (metis option.exhaust_sel)
qed

lemma run_safe_step:
  assumes wf: "wf_lsm w t" and op: "storable (op_entry op)" and safe: "run_safe w t (op # ops) k"
  shows "flush_safe w (buffered t (op_key op) (op_value op)) k"
proof (cases "level_count (lt_manifest t) 0 + length (op # ops) < lc_l0_compaction_trigger (lt_config t)")
  case True
  then show ?thesis by (simp add: flush_safe_def)
next
  case False
  then obtain v where v: "held w t k \<subseteq> {v}" "op_key op = k \<Longrightarrow> op_value op = v" using safe by (auto simp: run_safe_def)
  have "held w (buffered t (op_key op) (op_value op)) k \<subseteq> {v}" using buffered_ok(4) [OF wf op, of k] v by (auto split: if_splits)
  then show ?thesis using one_value_held [OF buffered_ok(1) [OF wf op]] by (simp add: flush_safe_def)
qed

lemma lsm_run_ok:
  assumes "sst_env_ok (le_sst w)" and "codec_ok w" and "le_wal_unlink w"
  shows "wf_lsm w t \<Longrightarrow> recoverable w t \<Longrightarrow> \<forall>op \<in> set ops. valid_op op \<Longrightarrow> lsm_room w t (length ops) (op_bytes ops) \<Longrightarrow>
     run_safe w t ops k \<Longrightarrow> lsm_run w t ops = Some (Inr u, t') \<Longrightarrow>
     wf_lsm w t' \<and> recoverable w t' \<and> lt_config t' = lt_config t \<and> lsm_view w t' k = after_ops ops (lsm_view w t) k"
proof (induction ops arbitrary: t)
  case Nil
  then show ?case by (simp add: after_ops_def)
next
  case (Cons op ops)
  obtain u1 t1 where ap: "lsm_apply w t op = Some (Inr u1, t1)" and run: "lsm_run w t1 ops = Some (Inr u, t')"
    using Cons.prems(6) by (auto split: option.splits sum.splits)
  have st: "storable (op_entry op)" using Cons.prems(3) by (simp add: valid_op_storable)
  have room: "lsm_room w t 1 (entry_bytes (op_entry op))" using Cons.prems(4) by (simp add: lsm_room_def op_bytes_def)
  note step = write_ok [OF assms(1) Cons.prems(1) st room lsm_apply_steps [OF Cons.prems(1) ap]]
  have "lsm_room w t1 (length ops) (op_bytes ops)"
    using step(2) [of entry_unit] step(2) [of entry_bytes] Cons.prems(4) by (simp add: lsm_room_def op_bytes_def entry_unit_def)
  moreover have "recoverable w t1"
    by (rule apply_recoverable [OF assms(2,3) Cons.prems(1,2) _ ap]) (use Cons.prems(3) in simp)
  moreover have "run_safe w t1 ops k"
  proof (cases "level_count (lt_manifest t) 0 + length (op # ops) < lc_l0_compaction_trigger (lt_config t)")
    case True
    then show ?thesis using step(3,6) by (simp add: run_safe_def)
  next
    case False
    then obtain v where v: "held w t k \<subseteq> {v}" "\<forall>op' \<in> set (op # ops). op_key op' = k \<longrightarrow> op_value op' = v"
      using Cons.prems(5) by (auto simp: run_safe_def)
    have "held w t1 k \<subseteq> {v}" using step(4) [of k] v by (cases "k = op_key op") auto
    then show ?thesis using v(2) by (auto simp: run_safe_def)
  qed
  ultimately have IH: "wf_lsm w t' \<and> recoverable w t' \<and> lt_config t' = lt_config t1 \<and> lsm_view w t' k = after_ops ops (lsm_view w t1) k"
    using Cons.IH [OF step(1)] Cons.prems(3) run by simp
  have "lsm_view w t1 k = ((lsm_view w t)(op_key op := op_value op)) k"
    by (rule step(5)) (rule run_safe_step [OF Cons.prems(1) st Cons.prems(5)])
  then have "after_ops ops (lsm_view w t1) k = after_ops (op # ops) (lsm_view w t) k"
    unfolding after_ops_def fold_simps by (rule after_ops_cong [unfolded after_ops_def])
  then show ?case using IH step(3) by simp
qed

section \<open>Writes succeed on a working file system\<close>

definition faultless :: "lsm_env \<Rightarrow> bool" where
  "faultless w \<longleftrightarrow> readable w \<and> le_wal_write w \<and> le_wal_sync w \<and>
     (\<forall>m. le_enc w m \<noteq> None \<and> le_save w m = IoOk \<and> le_rename w m) \<and> (\<forall>n. ti_write (le_tables w) n = IoOk)"

text \<open>The size targets of all levels fit into 64 bits.\<close>

definition config_ok :: "lsm_config \<Rightarrow> bool" where
  "config_ok c \<longleftrightarrow> (\<forall>l < NUM_LEVELS. lc_level_size_ratio c ^ l < 2 ^ 64 \<and> lc_l0_compaction_trigger c * lc_level_size_ratio c ^ l < 2 ^ 64)"

lemma due_level_total: "config_ok c \<Longrightarrow> \<forall>l \<in> set levels. l < NUM_LEVELS \<Longrightarrow> due_level (compaction_of c) m levels \<noteq> None"
  by (induction levels) (auto simp: config_ok_def compaction_of_def Let_def not_le)

lemma needs_compaction_total:
  assumes "config_ok c" and "num_levels m = NUM_LEVELS"
  shows "\<exists>r. needs_compaction (compaction_of c) m = Some r \<and> (\<forall>l. r = Some l \<longrightarrow> Suc (Suc l) \<le> num_levels m)"
proof (cases "level_count m 0 \<ge> lc_l0_compaction_trigger c")
  case True
  then show ?thesis using assms(2) by (simp add: needs_compaction_def compaction_of_def NUM_LEVELS_def)
next
  case False
  then have nc: "needs_compaction (compaction_of c) m = due_level (compaction_of c) m [1..<num_levels m - 1]"
    using assms(2) by (simp add: needs_compaction_def compaction_of_def NUM_LEVELS_def)
  have "due_level (compaction_of c) m [1..<num_levels m - 1] \<noteq> None"
    by (rule due_level_total [OF assms(1)]) (use assms(2) in auto)
  moreover have "Suc (Suc l) \<le> num_levels m" if "due_level (compaction_of c) m [1..<num_levels m - 1] = Some (Some l)" for l
    using due_level_in [OF that] by auto
  ultimately show ?thesis unfolding nc by auto
qed

lemma install_num_levels:
  "install_merge w io c m fs target old es = (Inr res, m', fs') \<Longrightarrow> Suc target \<le> num_levels m \<Longrightarrow> num_levels m' = num_levels m"
  by (auto simp: install_merge_def Let_def next_sst_filename_def split: if_splits prod.splits sum.splits)

lemma compact_num_levels:
  "compact w io c m fs level = Some (Inr res, m', fs') \<Longrightarrow> Suc (Suc level) \<le> num_levels m \<Longrightarrow> num_levels m' = num_levels m"
  using install_num_levels [of w io c m fs "Suc level"]
  by (auto simp: compact_def Let_def split: if_splits option.splits sum.splits)

lemma save_manifest_succeeds: "faultless w \<Longrightarrow> \<exists>fs'. save_manifest w m fs = (Inr (), fs')"
  by (auto simp: faultless_def save_manifest_def manifest_save_def write_to_def rename_to_def split: option.split)

lemma maybe_compact_succeeds:
  assumes env: "sst_env_ok (le_sst w)" and wf: "wf_lsm w t" and room: "lsm_room w t 0 0" and fl: "faultless w"
    and c: "config_ok (lt_config t)" and n: "num_levels (lt_manifest t) = NUM_LEVELS"
  shows "\<exists>t'. maybe_compact w t = Some (Inr (), t') \<and> num_levels (lt_manifest t') = NUM_LEVELS"
proof -
  obtain r where r: "needs_compaction (compaction_of (lt_config t)) (lt_manifest t) = Some r"
    "\<And>l. r = Some l \<Longrightarrow> Suc (Suc l) \<le> num_levels (lt_manifest t)"
    using needs_compaction_total [OF c n] by blast
  show ?thesis
  proof (cases r)
    case None
    then show ?thesis using r n by (simp add: maybe_compact_def)
  next
    case (Some level)
    have wft: "wf_tables (le_sst w) (lt_files t) (lt_manifest t)" using wf by (simp add: wf_lsm_def)
    then obtain res m1 fs1 where cp: "compact (le_sst w) (le_tables w) (compaction_of (lt_config t)) (lt_manifest t) (lt_files t) level = Some (Inr res, m1, fs1)"
      using compact_succeeds [of "lt_manifest t" "le_sst w" "lt_files t" "le_tables w" "compaction_of (lt_config t)" level] fl
      by (auto simp: wf_tables_def faultless_def readable_def)
    obtain fs2 where sv: "save_manifest w m1 fs1 = (Inr (), fs2)" using save_manifest_succeeds [OF fl] by blast
    have small: "stored entry_unit (le_sst w) (lt_files t) (lt_manifest t) < 2 ^ 32" "stored entry_bytes (le_sst w) (lt_files t) (lt_manifest t) < 2 ^ 60"
      using room by (simp_all add: lsm_room_def lsm_stored_def)
    have fr: "fs2 (sst_file_name i) = fs1 (sst_file_name i)" for i by (rule save_manifest_frame [OF sv])
    have "wf_tables (le_sst w) fs2 m1" by (rule wf_tables_frame(1) [OF fr compact_wf(1) [OF env wft cp small]])
    then obtain cache where "load_cache (le_sst w) (ti_read (le_tables w)) fs2 (all_tables m1) [] = Some (Inr (), cache)"
      using load_cache_succeeds [of "all_tables m1" "le_sst w" fs2 "ti_read (le_tables w)" "[]"] fl
      by (auto simp: wf_tables_def faultless_def readable_def)
    then show ?thesis
      using r(1) Some cp sv compact_num_levels [OF cp r(2) [OF Some]] n by (simp add: maybe_compact_def)
  qed
qed

lemma flush_succeeds:
  assumes env: "sst_env_ok (le_sst w)" and wf: "wf_lsm w t" and room: "lsm_room w t 0 0" and fl: "faultless w"
    and n: "num_levels (lt_manifest t) = NUM_LEVELS"
  shows "\<exists>t'. flush_memtable w t = Some (Inr (), t') \<and> num_levels (lt_manifest t') = NUM_LEVELS"
proof (cases "mt_data (lt_active t) = []")
  case True
  then show ?thesis using n by (simp add: flush_memtable_def memtable_is_empty_def)
next
  case False
  let ?es = "mt_data (lt_active t)" and ?i = "mf_next_sst_id (lt_manifest t)"
  obtain data info where wr: "write_sstable (le_sst w) (lc_block_size (lt_config t)) ?es = (data, info)"
    by (cases "write_sstable (le_sst w) (lc_block_size (lt_config t)) ?es")
  define e where "e = \<lparr>te_id = ?i, te_level = 0, te_file_name = sst_file_name ?i, te_min_key = fst (hd ?es),
    te_max_key = fst (last ?es), te_entry_count = si_entry_count info, te_file_size = si_file_size info\<rparr>"
  define m2 where "m2 = add_sstable ((lt_manifest t)\<lparr>mf_next_sst_id := Suc ?i\<rparr>) e"
  obtain fs2 where sv: "save_manifest w m2 ((lt_files t)(sst_file_name ?i \<mapsto> data)) = (Inr (), fs2)"
    using save_manifest_succeeds [OF fl] by blast
  have "fs2 (te_file_name e) = Some (fst (write_sstable (le_sst w) (lc_block_size (lt_config t)) ?es))"
    using save_manifest_frame [OF sv, of ?i] by (simp add: e_def wr)
  moreover have "length ?es < 2 ^ 32" "data_size ?es < 2 ^ 60"
    using room by (simp_all add: lsm_room_def lsm_stored_def weight_unit weight_bytes)
  moreover have "sorted_map ?es" "\<forall>x \<in> set ?es. storable x" using wf by (simp_all add: wf_lsm_def wf_memtable_def)
  ultimately have "good_table (le_sst w) fs2 e" using written_table(1) [OF env _ False] by (simp add: e_def)
  then obtain r where "opens (le_sst w) fs2 e r" by (auto simp: good_table_def)
  then have "open_table (le_sst w) (ti_read (le_tables w)) fs2 (sst_file_name ?i) = Some (Inr r)"
    using opens_open_table [of "le_sst w" fs2 e r] fl by (simp add: faultless_def readable_def e_def)
  moreover have "num_levels m2 = NUM_LEVELS" using n by (simp add: m2_def e_def NUM_LEVELS_def)
  ultimately show ?thesis
    using False wr sv fl
    by (simp add: flush_memtable_def memtable_is_empty_def memtable_iter_def next_sst_filename_def Let_def write_to_def
        faultless_def readable_def reset_wal_def e_def [symmetric] m2_def [symmetric])
qed

lemma lsm_apply_succeeds:
  assumes env: "sst_env_ok (le_sst w)" and wf: "wf_lsm w t" and op: "valid_op op"
    and room: "lsm_room w t 1 (entry_bytes (op_entry op))" and fl: "faultless w"
    and c: "config_ok (lt_config t)" and n: "num_levels (lt_manifest t) = NUM_LEVELS"
  shows "\<exists>t'. lsm_apply w t op = Some (Inr (), t') \<and> num_levels (lt_manifest t') = NUM_LEVELS"
proof -
  let ?b = "\<lambda>wal. buffered (t\<lparr>lt_wal := wal\<rparr>) (op_key op) (op_value op)"
  have wf1: "wf_lsm w (t\<lparr>lt_wal := wal\<rparr>)" for wal using wf by simp
  have st: "storable (op_entry op)" by (rule valid_op_storable [OF op])
  obtain wal where lg: "log_op w t op = (Inr (), t\<lparr>lt_wal := wal\<rparr>)"
    using fl by (auto simp: log_op_def wal_append_def wal_sync_def faultless_def)
  have ap: "lsm_apply w t op = flush_if_full w (?b wal)"
    using lg mt_apply_buffered [OF wf1 [of wal], of op] by (cases op) (auto simp: lsm_put_def lsm_delete_def buffered_def split: option.split)
  note b = buffered_ok [OF wf1 [of wal] st]
  have room1: "lsm_room w (?b wal) 0 0"
    using room b(3) [of entry_unit] b(3) [of entry_bytes] by (simp add: lsm_room_def entry_unit_def)
  show ?thesis
  proof (cases "memtable_is_full (lt_active (?b wal))")
    case True
    obtain t1 where t1: "flush_memtable w (?b wal) = Some (Inr (), t1)" "num_levels (lt_manifest t1) = NUM_LEVELS"
      using flush_succeeds [OF env b(1) room1 fl] n by auto
    note ok = flush_ok [OF env b(1) room1 t1(1)]
    have "wf_lsm w t1" "lsm_room w t1 0 0" "lt_config t1 = lt_config t" using ok room1 by (simp_all add: lsm_room_def)
    then show ?thesis
      using maybe_compact_succeeds [OF env _ _ fl _ t1(2)] c t1(1) True by (auto simp: ap flush_if_full_def)
  qed (use n in \<open>simp add: ap flush_if_full_def\<close>)
qed

lemma lsm_run_succeeds:
  assumes "sst_env_ok (le_sst w)" and "faultless w"
  shows "wf_lsm w t \<Longrightarrow> \<forall>op \<in> set ops. valid_op op \<Longrightarrow> lsm_room w t (length ops) (op_bytes ops) \<Longrightarrow>
     config_ok (lt_config t) \<Longrightarrow> num_levels (lt_manifest t) = NUM_LEVELS \<Longrightarrow> \<exists>t'. lsm_run w t ops = Some (Inr (), t')"
proof (induction ops arbitrary: t)
  case (Cons op ops)
  have op: "valid_op op" using Cons.prems(2) by simp
  have room: "lsm_room w t 1 (entry_bytes (op_entry op))" using Cons.prems(3) by (simp add: lsm_room_def op_bytes_def)
  obtain t1 where ap: "lsm_apply w t op = Some (Inr (), t1)" and n: "num_levels (lt_manifest t1) = NUM_LEVELS"
    using lsm_apply_succeeds [OF assms(1) Cons.prems(1) op room assms(2) Cons.prems(4,5)] by blast
  note step = write_ok [OF assms(1) Cons.prems(1) valid_op_storable [OF op] room lsm_apply_steps [OF Cons.prems(1) ap]]
  have "lsm_room w t1 (length ops) (op_bytes ops)"
    using step(2) [of entry_unit] step(2) [of entry_bytes] Cons.prems(3) by (simp add: lsm_room_def op_bytes_def entry_unit_def)
  then show ?case using Cons.IH [OF step(1)] Cons.prems(2,4) step(3) n ap by simp
qed simp

section \<open>Properties of runs and restarts\<close>

lemma open_empty: "readable w \<Longrightarrow> lsm_open w c Map.empty None = Some (Inr (empty_tree c))"
  by (simp add: readable_def lsm_open_def manifest_load_def replay_wal_def empty_tree_def)

lemma recoverable_empty: "recoverable w (empty_tree c)"
  using log_matches_empty [of "empty_tree c" w]
  by (auto simp: recoverable_def manifest_load_def empty_tree_def)

lemma empty_tree_simps [simp]:
  "lt_config (empty_tree c) = c" "lt_manifest (empty_tree c) = manifest_new NUM_LEVELS" "held w (empty_tree c) k = {}"
  "lsm_view w (empty_tree c) = Map.empty"
  by (simp_all add: held_def layers_def lsm_view_def fun_eq_iff visible_def) (simp_all add: empty_tree_def memtable_new_def)


text \<open>A concrete encoding of manifests, and a tree whose memtable is flushed by every write.\<close>

definition entry_code :: "sst_entry \<Rightarrow> nat" where
  "entry_code e = list_encode [te_id e, te_level e, list_encode (map of_char (te_file_name e)), list_encode (map unat (te_min_key e)),
     list_encode (map unat (te_max_key e)), te_entry_count e, te_file_size e]"

definition entry_uncode :: "nat \<Rightarrow> sst_entry" where
  "entry_uncode n = (let xs = list_decode n in
     \<lparr>te_id = xs ! 0, te_level = xs ! 1, te_file_name = map char_of (list_decode (xs ! 2)), te_min_key = map of_nat (list_decode (xs ! 3)),
      te_max_key = map of_nat (list_decode (xs ! 4)), te_entry_count = xs ! 5, te_file_size = xs ! 6\<rparr>)"

definition demo_enc :: "manifest \<Rightarrow> bytes option" where
  "demo_enc m = Some (replicate (prod_encode (list_encode (map (list_encode \<circ> map entry_code) (mf_levels m)), mf_next_sst_id m)) 97)"

definition demo_dec :: "bytes \<Rightarrow> manifest option" where
  "demo_dec data = (case prod_decode (length data) of (ls, i) \<Rightarrow>
     Some \<lparr>mf_levels = map (map entry_uncode \<circ> list_decode) (list_decode ls), mf_next_sst_id = i\<rparr>)"

definition demo_store :: lsm_env where
  "demo_store = demo_lsm_env\<lparr>le_enc := demo_enc, le_dec := demo_dec\<rparr>"

definition demo_store_config :: lsm_config where
  "demo_store_config = lsm_config_default\<lparr>lc_memtable_size_limit := 1\<rparr>"

lemma entry_uncode_code: "entry_uncode (entry_code e) = e"
  by (simp add: entry_uncode_def entry_code_def Let_def numeral_2_eq_2 numeral_3_eq_3 comp_def)

lemma demo_codec: "codec_ok demo_store"
  unfolding codec_ok_def
  by (auto simp: demo_store_def demo_enc_def demo_dec_def comp_def entry_uncode_code utf8_valid_ascii list_all_iff)

lemma demo_faultless: "faultless demo_store"
  by (simp add: faultless_def readable_def demo_store_def demo_lsm_env_def demo_enc_def demo_table_io_def)

lemma demo_config: "config_ok demo_store_config"
proof -
  have "(10 :: nat) ^ l < 2 ^ 64 \<and> (4 :: nat) * 10 ^ l < 2 ^ 64" if "l < 7" for l
  proof -
    have "(10 :: nat) ^ l \<le> 10 ^ 6" using that by (intro power_increasing) auto
    then show ?thesis by simp
  qed
  then show ?thesis by (simp add: config_ok_def demo_store_config_def lsm_config_default_def NUM_LEVELS_def)
qed


text \<open>C24: without faults every write succeeds. On a file system that works and with level targets that fit
  into 64 bits, every sequence of puts and deletes on a fresh tree is carried out to its end: no step panics,
  none returns an error, and every flush and compaction on the way terminates.\<close>

theorem lsm_run_total:
  assumes "sst_env_ok (le_sst w)" and "faultless w" and "config_ok c"
    and "\<forall>op \<in> set ops. valid_op op" and "length ops < 2 ^ 32" and "op_bytes ops < 2 ^ 60"
  shows "\<exists>t0 t. lsm_open w c Map.empty None = Some (Inr t0) \<and> lsm_run w t0 ops = Some (Inr (), t)"
proof -
  have "lsm_room w (empty_tree c) (length ops) (op_bytes ops)" using assms(5,6) by (simp add: lsm_room_def)
  then show ?thesis
    using lsm_run_succeeds [OF assms(1,2) wf_empty_tree assms(4), of c] assms(2,3) open_empty [of w c]
    by (auto simp: faultless_def)
qed

theorem lsm_run_total_witness:
  "\<exists>t0 t. lsm_open demo_store demo_store_config Map.empty None = Some (Inr t0) \<and>
     lsm_run demo_store t0 [WalPut [2] [8], WalDelete [3]] = Some (Inr (), t)"
  by (rule lsm_run_total [OF _ demo_faultless demo_config])
    (simp_all add: demo_store_def demo_lsm_env_def valid_op_def MAX_RECORD_def op_bytes_def entry_bytes_def value_len_def)

end
