(* ===== verification/Engine.thy ===== *)
theory Engine
  imports Lsm_Durable
begin

text \<open>
  The storage engine interface (\<open>raft-storage/src/engine.rs\<close>) that the multi-version store is written
  against, as a record of operations on a state, and its contract. The LSM tree provides it: it is an
  engine on which a key that was never used before can be written without restriction.
\<close>

section \<open>The trait\<close>

record 's engine =
  en_get :: "'s \<Rightarrow> bytes \<Rightarrow> bytes option result option"
  en_put :: "'s \<Rightarrow> bytes \<Rightarrow> bytes \<Rightarrow> (unit result \<times> 's) option"
  en_delete :: "'s \<Rightarrow> bytes \<Rightarrow> (unit result \<times> 's) option"
  en_scan :: "'s \<Rightarrow> bytes \<Rightarrow> bytes \<Rightarrow> (bytes \<times> bytes) list result option"
  en_flush :: "'s \<Rightarrow> (unit result \<times> 's) option"

definition lsm_engine :: "lsm_env \<Rightarrow> lsm_tree engine" where
  "lsm_engine w = \<lparr>en_get = lsm_get w, en_put = lsm_put w, en_delete = lsm_delete w, en_scan = lsm_scan w, en_flush = lsm_flush w\<rparr>"

section \<open>The contract\<close>

text \<open>An engine stands for a map. \<open>fits\<close> bounds what can be stored, and \<open>safe\<close> tells when a write
  keeps the other keys.\<close>

locale storage_engine =
  fixes eng :: "'s engine" and inv :: "'s \<Rightarrow> bool" and view :: "'s \<Rightarrow> bytes \<rightharpoonup> bytes"
    and fits :: "'s \<Rightarrow> bytes \<Rightarrow> bytes option \<Rightarrow> bool" and safe :: "'s \<Rightarrow> bytes \<Rightarrow> bytes option \<Rightarrow> bool"
  assumes get_view: "inv s \<Longrightarrow> en_get eng s k = Some (Inr (view s k))"
    and scan_view: "inv s \<Longrightarrow> a \<le> b \<Longrightarrow>
      \<exists>es. en_scan eng s a b = Some (Inr es) \<and> sorted_map es \<and> map_of es = within a b (view s)"
    and put_view: "inv s \<Longrightarrow> fits s k (Some v) \<Longrightarrow> safe s k (Some v) \<Longrightarrow> en_put eng s k v = Some (Inr u, s') \<Longrightarrow>
      inv s' \<and> view s' = (view s)(k \<mapsto> v)"
    and delete_view: "inv s \<Longrightarrow> fits s k None \<Longrightarrow> safe s k None \<Longrightarrow> en_delete eng s k = Some (Inr u, s') \<Longrightarrow>
      inv s' \<and> view s' = (view s)(k := None)"

locale write_once_engine = storage_engine +
  fixes once :: "'s \<Rightarrow> bool" and used :: "'s \<Rightarrow> bytes set"
  assumes fresh_safe: "inv s \<Longrightarrow> once s \<Longrightarrow> k \<notin> used s \<Longrightarrow> fits s k (Some v) \<Longrightarrow> safe s k (Some v)"
    and put_once: "inv s \<Longrightarrow> once s \<Longrightarrow> k \<notin> used s \<Longrightarrow> fits s k (Some v) \<Longrightarrow> en_put eng s k v = Some (Inr u, s') \<Longrightarrow>
      once s' \<and> used s' \<subseteq> insert k (used s)"
    and view_used: "inv s \<Longrightarrow> view s k \<noteq> None \<Longrightarrow> k \<in> used s"
begin

lemma put_fresh:
  assumes "inv s" and "once s" and "k \<notin> used s" and "fits s k (Some v)" and "en_put eng s k v = Some (Inr u, s')"
  shows "inv s'" and "once s'" and "used s' \<subseteq> insert k (used s)" and "view s' = (view s)(k \<mapsto> v)"
  using put_view [OF assms(1,4) fresh_safe [OF assms(1-4)] assms(5)] put_once [OF assms] by simp_all

end

section \<open>The LSM tree keeps the contract\<close>

definition lsm_inv :: "lsm_env \<Rightarrow> lsm_tree \<Rightarrow> bool" where
  "lsm_inv w t \<longleftrightarrow> sst_env_ok (le_sst w) \<and> wf_lsm w t"

definition lsm_fits :: "lsm_env \<Rightarrow> lsm_tree \<Rightarrow> bytes \<Rightarrow> bytes option \<Rightarrow> bool" where
  "lsm_fits w t k v \<longleftrightarrow> storable (k, v) \<and> lsm_room w t 1 (entry_bytes (k, v))"

definition lsm_safe :: "lsm_env \<Rightarrow> lsm_tree \<Rightarrow> bytes \<Rightarrow> bytes option \<Rightarrow> bool" where
  "lsm_safe w t k v \<longleftrightarrow> (\<forall>k'. flush_safe w (buffered t k v) k')"

text \<open>Every key has been given one value at most.\<close>

definition lsm_once :: "lsm_env \<Rightarrow> lsm_tree \<Rightarrow> bool" where
  "lsm_once w t \<longleftrightarrow> (\<forall>k. \<exists>v. held w t k \<subseteq> {v})"

definition lsm_used :: "lsm_env \<Rightarrow> lsm_tree \<Rightarrow> bytes set" where
  "lsm_used w t = {k. held w t k \<noteq> {}}"

lemma lsm_fresh_safe:
  assumes "lsm_inv w t" and "storable (k, Some v)" and "lsm_once w t" and "k \<notin> lsm_used w t"
  shows "lsm_safe w t k (Some v)"
  unfolding lsm_safe_def
proof
  fix k'
  have wf: "wf_lsm w t" using assms(1) by (simp add: lsm_inv_def)
  note b = buffered_ok [OF wf assms(2)]
  obtain x where "held w t k' \<subseteq> {x}" using assms(3) by (auto simp: lsm_once_def)
  then have "held w (buffered t k (Some v)) k' \<subseteq> {if k' = k then Some v else x}"
    using b(4) [of k'] assms(4) by (auto simp: lsm_used_def split: if_splits)
  then show "flush_safe w (buffered t k (Some v)) k'"
    using one_value_held [OF b(1)] by (simp add: flush_safe_def)
qed

lemma lsm_put_ok:
  assumes "lsm_inv w t" and "lsm_fits w t k (Some v)" and "lsm_put w t k v = Some (Inr u, t')"
  shows "lsm_inv w t'" and "held w t' k' \<subseteq> held w t k' \<union> (if k' = k then {Some v} else {})"
    and "lsm_safe w t k (Some v) \<Longrightarrow> lsm_view w t' = (lsm_view w t)(k \<mapsto> v)"
proof -
  have pre: "sst_env_ok (le_sst w)" "wf_lsm w t" "storable (k, Some v)" "lsm_room w t 1 (entry_bytes (k, Some v))"
    using assms(1,2) by (simp_all add: lsm_inv_def lsm_fits_def)
  note ok = write_ok [OF pre lsm_put_steps [OF pre(2) assms(3)]]
  show "lsm_inv w t'" "held w t' k' \<subseteq> held w t k' \<union> (if k' = k then {Some v} else {})"
    using ok(1) pre(1) ok(4) by (simp_all only: lsm_inv_def)
  show "lsm_safe w t k (Some v) \<Longrightarrow> lsm_view w t' = (lsm_view w t)(k \<mapsto> v)"
    unfolding lsm_safe_def fun_eq_iff using ok(5) by blast
qed

lemma lsm_delete_ok:
  assumes "lsm_inv w t" and "lsm_fits w t k None" and "lsm_safe w t k None" and "lsm_delete w t k = Some (Inr u, t')"
  shows "lsm_inv w t' \<and> lsm_view w t' = (lsm_view w t)(k := None)"
proof -
  have pre: "sst_env_ok (le_sst w)" "wf_lsm w t" "storable (k, None)" "lsm_room w t 1 (entry_bytes (k, None))"
    using assms(1,2) by (simp_all add: lsm_inv_def lsm_fits_def)
  note ok = write_ok [OF pre lsm_delete_steps [OF assms(4)]]
  have "lsm_view w t' = (lsm_view w t)(k := None)"
    unfolding fun_eq_iff using ok(5) assms(3) unfolding lsm_safe_def by blast
  then show ?thesis using ok(1) pre(1) by (simp add: lsm_inv_def)
qed

interpretation lsm_store: write_once_engine "lsm_engine w" "lsm_inv w" "lsm_view w" "lsm_fits w" "lsm_safe w" "lsm_once w" "lsm_used w" for w
proof
  fix s :: lsm_tree and k a b v u s'
  show "lsm_inv w s \<Longrightarrow> en_get (lsm_engine w) s k = Some (Inr (lsm_view w s k))"
    by (simp add: lsm_engine_def lsm_inv_def wf_lsm_def lsm_get_view)
  show "lsm_inv w s \<Longrightarrow> a \<le> b \<Longrightarrow> \<exists>es. en_scan (lsm_engine w) s a b = Some (Inr es) \<and> sorted_map es \<and> map_of es = within a b (lsm_view w s)"
    using lsm_scan_view [of w s a b] by (simp add: lsm_engine_def lsm_inv_def)
  show "lsm_inv w s \<Longrightarrow> lsm_fits w s k (Some v) \<Longrightarrow> lsm_safe w s k (Some v) \<Longrightarrow> en_put (lsm_engine w) s k v = Some (Inr u, s') \<Longrightarrow>
      lsm_inv w s' \<and> lsm_view w s' = (lsm_view w s)(k \<mapsto> v)"
    using lsm_put_ok(1,3) [of w s k v u s'] by (simp add: lsm_engine_def)
  show "lsm_inv w s \<Longrightarrow> lsm_fits w s k None \<Longrightarrow> lsm_safe w s k None \<Longrightarrow> en_delete (lsm_engine w) s k = Some (Inr u, s') \<Longrightarrow>
      lsm_inv w s' \<and> lsm_view w s' = (lsm_view w s)(k := None)"
    using lsm_delete_ok [of w s k u s'] by (simp add: lsm_engine_def)
  show "lsm_inv w s \<Longrightarrow> lsm_once w s \<Longrightarrow> k \<notin> lsm_used w s \<Longrightarrow> lsm_fits w s k (Some v) \<Longrightarrow> lsm_safe w s k (Some v)"
    using lsm_fresh_safe [of w s k v] by (simp add: lsm_fits_def)
  show "lsm_inv w s \<Longrightarrow> lsm_view w s k \<noteq> None \<Longrightarrow> k \<in> lsm_used w s"
    using view_held [of w s k] by (auto simp: lsm_used_def)
  assume s: "lsm_inv w s" "lsm_once w s" "k \<notin> lsm_used w s" "lsm_fits w s k (Some v)" "en_put (lsm_engine w) s k v = Some (Inr u, s')"
  have put: "lsm_put w s k v = Some (Inr u, s')" using s(5) by (simp add: lsm_engine_def)
  note h = lsm_put_ok(2) [OF s(1,4) put]
  have "\<exists>x. held w s' k' \<subseteq> {x}" for k'
  proof (cases "k' = k")
    case True
    have "held w s k = {}" using s(3) by (simp add: lsm_used_def)
    then show ?thesis using h [of k] True by (intro exI [of _ "Some v"]) simp
  next
    case False
    obtain x where "held w s k' \<subseteq> {x}" using s(2) by (auto simp: lsm_once_def)
    then show ?thesis using h [of k'] False by (intro exI [of _ x]) auto
  qed
  moreover have "lsm_used w s' \<subseteq> insert k (lsm_used w s)"
  proof
    fix x assume "x \<in> lsm_used w s'"
    then show "x \<in> insert k (lsm_used w s)" using h [of x] by (auto simp: lsm_used_def split: if_splits)
  qed
  ultimately show "lsm_once w s' \<and> lsm_used w s' \<subseteq> insert k (lsm_used w s)" unfolding lsm_once_def by (intro conjI allI)
qed

end
