(* ===== verification/Version.thy ===== *)
theory Version
  imports Raft_Prelude "HOL-Library.Sublist"
begin

text \<open>
  Versioned keys and values of the multi-version store (\<open>raft-mvcc/src/version.rs\<close>). Revisions and lease
  numbers are 64-bit words; \<open>i64\<close> values are read with \<open>sint\<close> where the code compares or adds them.
  A decoder that indexes out of range panics: \<open>None\<close>.
\<close>

unbundle bit_operations_syntax

section \<open>Encodings\<close>

definition REVISION_SUFFIX_LEN :: nat where
  "REVISION_SUFFIX_LEN = 8"

definition encode_key :: "bytes \<Rightarrow> 64 word \<Rightarrow> bytes" where
  "encode_key user_key revision = user_key @ be_bytes 8 (unat (NOT revision))"

definition decode_key :: "bytes \<Rightarrow> (bytes \<times> 64 word) option" where
  "decode_key encoded =
     (if length encoded < REVISION_SUFFIX_LEN then None
      else let split = length encoded - REVISION_SUFFIX_LEN
           in Some (take split encoded, NOT (of_nat (be_value (drop split encoded)))))"

definition encode_key_prefix_start :: "bytes \<Rightarrow> bytes" where
  "encode_key_prefix_start user_key = encode_key user_key (- 1)"

text \<open>The loop of \<open>increment_bytes\<close> over the reversed bytes; \<open>None\<close> when all bytes were \<open>0xFF\<close>.\<close>

fun increment_rev :: "bytes \<Rightarrow> bytes option" where
  "increment_rev [] = None"
| "increment_rev (b # bs) = (if b < 0xFF then Some ((b + 1) # bs) else map_option (\<lambda>r. 0 # r) (increment_rev bs))"

definition increment_bytes :: "bytes \<Rightarrow> bytes" where
  "increment_bytes bs =
     (case increment_rev (rev bs) of Some r \<Rightarrow> rev r | None \<Rightarrow> 1 # replicate (length bs) 0)"

definition encode_key_prefix_end :: "bytes \<Rightarrow> bytes" where
  "encode_key_prefix_end user_key = increment_bytes user_key @ replicate REVISION_SUFFIX_LEN 0"

record versioned_value =
  vv_value :: "bytes option"
  vv_create_revision :: "64 word"
  vv_mod_revision :: "64 word"
  vv_lease_id :: "64 word"
  vv_ttl_seconds :: "64 word"

abbreviation u64_bytes :: "64 word \<Rightarrow> bytes" where
  "u64_bytes x \<equiv> le_bytes 8 (unat x)"

definition vv_encode :: "versioned_value \<Rightarrow> bytes" where
  "vv_encode vv =
     (case vv_value vv of
        Some v \<Rightarrow> [1] @ le_bytes 4 (as_u32 (length v)) @ v
      | None \<Rightarrow> [2]) @
     u64_bytes (vv_create_revision vv) @ u64_bytes (vv_mod_revision vv) @ u64_bytes (vv_lease_id vv) @
     u64_bytes (vv_ttl_seconds vv)"

definition read_u64 :: "bytes \<Rightarrow> nat \<Rightarrow> 64 word option" where
  "read_u64 data offset = map_option (\<lambda>bs. of_nat (le_value bs)) (subslice data offset (offset + 8))"

definition vv_decode :: "bytes \<Rightarrow> versioned_value option" where
  "vv_decode data =
     Option.bind (vec_get data 0) (\<lambda>tag.
     Option.bind
       (if tag = 1
        then Option.bind (subslice data 1 5) (\<lambda>l. let len = le_value l in
             Option.bind (subslice data 5 (5 + len)) (\<lambda>v. Some (Some v, 5 + len)))
        else Some (None, 1))
       (\<lambda>(value, offset).
     Option.bind (read_u64 data offset) (\<lambda>create_revision.
     Option.bind (read_u64 data (offset + 8)) (\<lambda>mod_revision.
     Option.bind (read_u64 data (offset + 16)) (\<lambda>lease_id.
     Option.bind (read_u64 data (offset + 24)) (\<lambda>ttl_seconds.
       Some \<lparr>vv_value = value, vv_create_revision = create_revision, vv_mod_revision = mod_revision,
         vv_lease_id = lease_id, vv_ttl_seconds = ttl_seconds\<rparr>))))))"

section \<open>Round trips\<close>

lemma u64_round_trip [simp]: "of_nat (le_value (u64_bytes (x :: 64 word))) = x"
proof -
  have "unat x < 256 ^ 8" using unsigned_less [of x] by simp
  then show ?thesis by (simp add: le_value_small)
qed

lemma decode_encode_key [simp]: "decode_key (encode_key k r) = Some (k, r)"
proof -
  have "unat (NOT r) < 256 ^ 8" using unsigned_less [of "NOT r"] by simp
  then show ?thesis by (simp add: decode_key_def encode_key_def REVISION_SUFFIX_LEN_def be_value_small)
qed

lemma encode_key_inject [simp]: "encode_key k r = encode_key k' r' \<longleftrightarrow> k = k' \<and> r = r'"
  using decode_encode_key [of k r] decode_encode_key [of k' r'] by (metis option.inject prod.inject)

lemma encode_decode_key: "decode_key x = Some (k, r) \<Longrightarrow> encode_key k r = x"
proof -
  assume "decode_key x = Some (k, r)"
  then have len: "8 \<le> length x" and k: "k = take (length x - 8) x" and r: "r = NOT (of_nat (be_value (drop (length x - 8) x)))"
    by (auto simp: decode_key_def REVISION_SUFFIX_LEN_def Let_def split: if_splits)
  let ?s = "drop (length x - 8) x"
  have l8: "length ?s = 8" using len by simp
  have "be_value ?s < 256 ^ length ?s" using le_value_bound [of "rev ?s"] by (simp add: be_value_def)
  then have "be_value ?s < 2 ^ 64" using l8 by simp
  then have "unat (of_nat (be_value ?s) :: 64 word) = be_value ?s" by (simp add: unat_of_nat)
  then have "unat (NOT r) = be_value ?s" by (simp add: r)
  moreover have "be_bytes 8 (be_value ?s) = ?s"
    using le_bytes_le_value [of 8 "rev ?s"] l8 by (simp add: be_bytes_def be_value_def)
  ultimately show ?thesis by (simp add: encode_key_def k)
qed

text \<open>What the four-byte length field can hold.\<close>

definition vv_storable :: "versioned_value \<Rightarrow> bool" where
  "vv_storable vv \<longleftrightarrow> (case vv_value vv of Some v \<Rightarrow> length v < 2 ^ 32 | None \<Rightarrow> True)"

lemma read_u64_at: "offset = length xs \<Longrightarrow> read_u64 (xs @ u64_bytes x @ ys) offset = Some x"
  by (simp add: read_u64_def subslice_append_mid)

lemma vv_decode_encode:
  assumes "vv_storable vv"
  shows "vv_decode (vv_encode vv) = Some vv"
proof -
  define hd where "hd = (case vv_value vv of Some v \<Rightarrow> [1] @ le_bytes 4 (as_u32 (length v)) @ v | None \<Rightarrow> [2 :: byte])"
  let ?c = "u64_bytes (vv_create_revision vv)" and ?m = "u64_bytes (vv_mod_revision vv)" and ?l = "u64_bytes (vv_lease_id vv)"
    and ?t = "u64_bytes (vv_ttl_seconds vv)"
  have enc: "vv_encode vv = hd @ ?c @ ?m @ ?l @ ?t" by (simp add: vv_encode_def hd_def)
  have "read_u64 (vv_encode vv) (length hd) = Some (vv_create_revision vv)"
    "read_u64 (vv_encode vv) (length hd + 8) = Some (vv_mod_revision vv)"
    "read_u64 (vv_encode vv) (length hd + 16) = Some (vv_lease_id vv)"
    "read_u64 (vv_encode vv) (length hd + 24) = Some (vv_ttl_seconds vv)"
    using read_u64_at [of _ hd] read_u64_at [of _ "hd @ ?c"] read_u64_at [of _ "hd @ ?c @ ?m"] read_u64_at [of _ "hd @ ?c @ ?m @ ?l" _ "[]"]
    by (simp_all add: enc)
  note reads = this
  show ?thesis
  proof (cases "vv_value vv")
    case None
    then have "hd = [2]" by (simp add: hd_def)
    then show ?thesis using reads None by (simp add: vv_decode_def enc vec_get_def)
  next
    case (Some v)
    have len: "length v < 2 ^ 32" using assms Some by (simp add: vv_storable_def)
    then have h: "hd = [1] @ le_bytes 4 (length v) @ v" using Some by (simp add: hd_def)
    have s1: "subslice (vv_encode vv) 1 5 = Some (le_bytes 4 (length v))"
      using subslice_append_mid [of 1 "[1]" 5 "le_bytes 4 (length v)"] by (simp add: enc h)
    have s2: "subslice (vv_encode vv) 5 (5 + length v) = Some v"
      using subslice_append_mid [of 5 "[1] @ le_bytes 4 (length v)" "5 + length v" v] by (simp add: enc h)
    have "vec_get (vv_encode vv) 0 = Some 1" by (simp add: enc h vec_get_def)
    moreover have "length hd = 5 + length v" by (simp add: h)
    ultimately show ?thesis
      using reads s1 s2 len Some by (simp add: vv_decode_def le_value_small Let_def)
  qed
qed

section \<open>Order\<close>

lemma less_same_prefix [simp]: "xs @ ys < xs @ (zs :: bytes) \<longleftrightarrow> ys < zs"
  by (induction xs) simp_all

lemma less_snoc: "length xs = length ys \<Longrightarrow> xs @ [a] < ys @ [b :: byte] \<longleftrightarrow> xs < ys \<or> xs = ys \<and> a < b"
  by (induction xs ys rule: list_induct2) auto

lemma be_bytes_Suc: "be_bytes (Suc k) n = be_bytes k (n div 256) @ [of_nat n]"
  by (simp add: be_bytes_def)

lemma be_bytes_less: "m < 256 ^ k \<Longrightarrow> n < 256 ^ k \<Longrightarrow> be_bytes k m < be_bytes k n \<longleftrightarrow> m < n"
proof (induction k arbitrary: m n)
  case (Suc k)
  have b: "m div 256 < 256 ^ k" "n div 256 < 256 ^ k" using Suc.prems by (simp_all add: less_mult_imp_div_less mult.commute)
  have eq: "be_bytes k (m div 256) = be_bytes k (n div 256) \<longleftrightarrow> m div 256 = n div 256"
    using b be_value_small by metis
  have w: "(of_nat m :: byte) < of_nat n \<longleftrightarrow> m mod 256 < n mod 256" by (simp add: word_less_nat_alt unat_of_nat)
  have "m < n \<longleftrightarrow> m div 256 < n div 256 \<or> m div 256 = n div 256 \<and> m mod 256 < n mod 256"
    using div_mult_mod_eq [of m 256] div_mult_mod_eq [of n 256] mod_less_divisor [of 256 m] mod_less_divisor [of 256 n] by linarith
  then show ?case unfolding be_bytes_Suc using Suc.IH [OF b] by (simp add: less_snoc eq w)
qed (simp add: be_bytes_def)

text \<open>Newer versions of a key sort before older ones.\<close>

lemma encode_key_less: "encode_key k r < encode_key k r' \<longleftrightarrow> r' < r"
proof -
  have c: "unat (NOT x) = 2 ^ 64 - 1 - unat x" for x :: "64 word"
  proof -
    have "NOT x = - 1 - x" by (simp add: not_eq_complement)
    moreover have "unat (- 1 - x) = unat (- 1 :: 64 word) - unat x" by (rule unat_sub) simp
    ultimately show ?thesis by (simp add: unsigned_minus_1_eq_mask mask_eq_exp_minus_1)
  qed
  have b: "unat x < 2 ^ 64" for x :: "64 word" using unsigned_less [of x] by simp
  have "encode_key k r < encode_key k r' \<longleftrightarrow> unat (NOT r) < unat (NOT r')"
    using b [of "NOT r"] b [of "NOT r'"] by (simp add: encode_key_def be_bytes_less)
  also have "\<dots> \<longleftrightarrow> r' < r" unfolding c using b [of r] b [of r'] by (auto simp: word_less_nat_alt)
  finally show ?thesis .
qed

lemma be_bytes_zero: "be_bytes k 0 = replicate k 0"
proof -
  have "le_bytes k 0 = replicate k 0" by (induction k) simp_all
  then show ?thesis by (simp add: be_bytes_def)
qed

lemma prefix_start_zeros: "encode_key_prefix_start k = k @ replicate 8 0"
  by (simp add: encode_key_prefix_start_def encode_key_def be_bytes_zero)

text \<open>Keys that have a successor of the same length.\<close>

definition has_room :: "bytes \<Rightarrow> bool" where
  "has_room k \<longleftrightarrow> (\<exists>b \<in> set k. b \<noteq> 0xFF)"

lemma byte_max [simp]: "\<not> (0xFF :: byte) < b"
proof -
  have "(0xFF :: byte) = - 1" by simp
  then show ?thesis by (metis word_n1_ge not_le)
qed

lemma byte_not_max: "(b :: byte) \<noteq> 0xFF \<longleftrightarrow> b < 0xFF"
  using byte_max [of b] by (metis linorder_less_linear)

lemma byte_succ: "(b :: byte) < 0xFF \<Longrightarrow> unat (b + 1) = Suc (unat b)"
  by (simp add: unat_word_ariths word_less_nat_alt)

lemma increment_rev_split:
  "\<exists>b \<in> set ks. b \<noteq> 0xFF \<Longrightarrow> \<exists>p b j. ks = replicate j 0xFF @ b # p \<and> b < 0xFF \<and> increment_rev ks = Some (replicate j 0 @ (b + 1) # p)"
proof (induction ks)
  case (Cons a ks)
  show ?case
  proof (cases "a < 0xFF")
    case True
    then show ?thesis by (intro exI [of _ ks] exI [of _ a] exI [of _ 0]) simp
  next
    case False
    then have a: "a = 0xFF" using byte_not_max by blast
    then have "\<exists>b \<in> set ks. b \<noteq> 0xFF" using Cons.prems by auto
    then obtain p b j where "ks = replicate j 0xFF @ b # p" "b < 0xFF" "increment_rev ks = Some (replicate j 0 @ (b + 1) # p)"
      using Cons.IH by blast
    then show ?thesis using False a by (intro exI [of _ p] exI [of _ b] exI [of _ "Suc j"]) simp
  qed
qed simp

lemma increment_split:
  assumes "has_room k"
  obtains p b j where "k = p @ b # replicate j 0xFF" "b < 0xFF" "increment_bytes k = p @ (b + 1) # replicate j 0"
proof -
  have "\<exists>b \<in> set (rev k). b \<noteq> 0xFF" using assms by (simp add: has_room_def)
  then obtain p b j where "rev k = replicate j 0xFF @ b # p" "b < 0xFF" "increment_rev (rev k) = Some (replicate j 0 @ (b + 1) # p)"
    using increment_rev_split by blast
  then have "k = rev p @ b # replicate j 0xFF" "b < 0xFF" "increment_bytes k = rev p @ (b + 1) # replicate j 0"
    by (auto simp: increment_bytes_def rev_swap)
  then show thesis by (rule that)
qed

lemma zeros_le: "\<exists>b \<in> set xs. b \<noteq> (0 :: byte) \<Longrightarrow> replicate n 0 \<le> xs"
proof (induction n arbitrary: xs)
  case (Suc n)
  then obtain x ys where "xs = x # ys" by (cases xs) auto
  then show ?case using Suc by (cases "x = 0") (auto simp: word_gt_0)
qed simp

lemma revision_suffix_nonzero:
  assumes "r \<noteq> - 1"
  shows "\<exists>b \<in> set (be_bytes 8 (unat (NOT (r :: 64 word)))). b \<noteq> 0"
proof (rule ccontr)
  assume "\<not> ?thesis"
  then have "be_bytes 8 (unat (NOT r)) = replicate 8 0" by (auto intro: replicate_eqI)
  then have "encode_key [] r = encode_key [] (- 1)" by (simp add: encode_key_def be_bytes_zero)
  then show False using assms by simp
qed

text \<open>The range that is scanned for a key holds all its versions, and nothing of a key that is neither a
  prefix nor an extension of it.\<close>

lemma own_versions_in_range:
  assumes "has_room k" and "r \<noteq> - 1"
  shows "encode_key_prefix_start k \<le> encode_key k r" and "encode_key k r < encode_key_prefix_end k"
proof -
  show "encode_key_prefix_start k \<le> encode_key k r"
    using zeros_le [OF revision_suffix_nonzero [OF assms(2)], of 8]
    by (metis encode_key_def le_less less_same_prefix prefix_start_zeros)
  obtain p b j where k: "k = p @ b # replicate j 0xFF" "b < 0xFF" "increment_bytes k = p @ (b + 1) # replicate j 0"
    using increment_split [OF assms(1)] .
  have "b < b + 1" using byte_succ [OF k(2)] by (simp add: word_less_nat_alt)
  then show "encode_key k r < encode_key_prefix_end k"
    by (simp add: encode_key_def encode_key_prefix_end_def k(3)) (simp add: k(1))
qed

lemma other_versions_outside:
  assumes "has_room k" and "r \<noteq> - 1" and "u \<parallel> k"
  shows "encode_key u r < encode_key_prefix_start k \<or> encode_key_prefix_end k \<le> encode_key u r"
proof -
  obtain q c us d ks where u: "u = q @ c # us" and kq: "k = q @ d # ks" and cd: "c \<noteq> d"
    using parallel_decomp [OF assms(3)] by blast
  obtain p b j where k: "k = p @ b # replicate j 0xFF" "b < 0xFF" "increment_bytes k = p @ (b + 1) # replicate j 0"
    using increment_split [OF assms(1)] .
  show ?thesis
  proof (cases "c < d")
    case True
    then show ?thesis by (simp add: encode_key_def u prefix_start_zeros kq)
  next
    case False
    then have dc: "d < c" using cd by simp
    let ?x = "q @ c # (us @ be_bytes 8 (unat (NOT r)))"
    have "encode_key_prefix_end k \<le> ?x"
    proof -
      consider p' where "p = q @ d # p'" | "q = p" "d = b" | q' where "q = p @ b # q'" "q' @ d # ks = replicate j 0xFF"
        using kq k(1) by (auto simp: append_eq_append_conv2 Cons_eq_append_conv append_eq_Cons_conv)
      then show ?thesis
      proof cases
        case 1
        then show ?thesis using dc by (simp add: encode_key_prefix_end_def k(3) less_imp_le)
      next
        case 2
        have "b + 1 \<le> c" using dc 2(2) byte_succ [OF k(2)] by (simp add: word_less_nat_alt word_le_nat_alt)
        moreover have "replicate (j + 8) 0 \<le> us @ be_bytes 8 (unat (NOT r))"
          by (rule zeros_le) (use revision_suffix_nonzero [OF assms(2)] in auto)
        ultimately show ?thesis using 2(1)
          by (auto simp: encode_key_prefix_end_def k(3) REVISION_SUFFIX_LEN_def replicate_add le_less)
      next
        case 3
        then have "d \<in> set (replicate j 0xFF)" by (metis in_set_conv_decomp)
        then show ?thesis using dc by simp
      qed
    qed
    then show ?thesis by (simp add: encode_key_def u)
  qed
qed

section \<open>Properties of the encodings\<close>

text \<open>C25: versioned keys can be read back, and the versions of a key sort newest first: decoding an internal
  key gives the user key and the revision it was made of, and of two versions of a key the one with the
  greater revision has the smaller internal key. For a key that has a byte other than \<open>0xFF\<close> the
  internal keys of all its versions, save revision \<open>u64::MAX\<close>, lie in the range that is scanned for it.\<close>

theorem versioned_key_order:
  "decode_key (encode_key k r) = Some (k, r) \<and> (encode_key k r < encode_key k r' \<longleftrightarrow> r' < r) \<and>
   (has_room k \<and> r \<noteq> - 1 \<longrightarrow> encode_key_prefix_start k \<le> encode_key k r \<and> encode_key k r < encode_key_prefix_end k)"
  using own_versions_in_range by (simp add: encode_key_less)

theorem versioned_key_order_witness:
  "encode_key_prefix_start [102, 111] \<le> encode_key [102, 111] 5 \<and> encode_key [102, 111] 5 < encode_key_prefix_end [102, 111]"
  using versioned_key_order [of "[102, 111]" 5 5] by (simp add: has_room_def)

text \<open>C26: a versioned value is read back as it was written, with its two revisions, lease and time to live,
  whether it is a value of less than \<open>2 ^ 32\<close> bytes or a delete marker.\<close>

theorem versioned_value_round_trip:
  assumes "vv_storable vv"
  shows "vv_decode (vv_encode vv) = Some vv"
  using assms by (rule vv_decode_encode)

theorem versioned_value_round_trip_witness:
  "let vv = \<lparr>vv_value = Some [104, 105], vv_create_revision = 1, vv_mod_revision = 5, vv_lease_id = 42, vv_ttl_seconds = - 1\<rparr>
   in vv_decode (vv_encode vv) = Some vv"
  unfolding Let_def by (rule versioned_value_round_trip) (simp add: vv_storable_def)

end
