(* ===== verification/Mvcc.thy ===== *)
theory Mvcc
  imports Engine Version
begin

text \<open>
  The multi-version store (\<open>raft-mvcc/src/mvcc.rs\<close>) over a storage engine. The engine is a parameter of
  every operation, as it is a trait object in the code. Writes hold the store's lock, so each operation
  runs alone. \<open>None\<close> is a panic; the addition in \<open>next_revision\<close> is checked.
\<close>

section \<open>The store\<close>

record key_value =
  kv_key :: bytes
  kv_value :: bytes
  kv_create_revision :: "64 word"
  kv_mod_revision :: "64 word"
  kv_lease_id :: "64 word"

record 's mvcc_store =
  ms_engine :: 's
  ms_revision :: "64 word"

definition mvcc_new :: "'s \<Rightarrow> 's mvcc_store" where
  "mvcc_new engine = \<lparr>ms_engine = engine, ms_revision = 0\<rparr>"

definition set_revision :: "'s mvcc_store \<Rightarrow> 64 word \<Rightarrow> 's mvcc_store" where
  "set_revision s revision = s\<lparr>ms_revision := revision\<rparr>"

definition next_revision :: "'s mvcc_store \<Rightarrow> (64 word \<times> 's mvcc_store) option" where
  "next_revision s =
     (if ms_revision s = - 1 then None else Some (ms_revision s + 1, s\<lparr>ms_revision := ms_revision s + 1\<rparr>))"

text \<open>The loop of \<open>get_at_revision\<close> over the scanned entries.\<close>

fun first_version :: "64 word \<Rightarrow> (bytes \<times> bytes) list \<Rightarrow> versioned_value option option" where
  "first_version revision [] = Some None"
| "first_version revision ((internal_key, raw_value) # entries) =
     (case decode_key internal_key of
        None \<Rightarrow> None
      | Some (_, rv) \<Rightarrow>
          if rv > revision then first_version revision entries
          else map_option Some (vv_decode raw_value))"

definition to_key_value :: "bytes \<Rightarrow> versioned_value \<Rightarrow> key_value option" where
  "to_key_value key vv = map_option (\<lambda>value. \<lparr>kv_key = key, kv_value = value, kv_create_revision = vv_create_revision vv,
     kv_mod_revision = vv_mod_revision vv, kv_lease_id = vv_lease_id vv\<rparr>) (vv_value vv)"

definition get_at_revision ::
  "'s engine \<Rightarrow> 's mvcc_store \<Rightarrow> bytes \<Rightarrow> 64 word \<Rightarrow> key_value option result option" where
  "get_at_revision eng s key revision =
     (case en_scan eng (ms_engine s) (encode_key_prefix_start key) (encode_key_prefix_end key) of
        None \<Rightarrow> None
      | Some (Inl e) \<Rightarrow> Some (Inl e)
      | Some (Inr entries) \<Rightarrow>
          (case first_version revision entries of
             None \<Rightarrow> None
           | Some None \<Rightarrow> Some (Inr None)
           | Some (Some vv) \<Rightarrow> Some (Inr (to_key_value key vv))))"

definition mvcc_get :: "'s engine \<Rightarrow> 's mvcc_store \<Rightarrow> bytes \<Rightarrow> key_value option result option" where
  "mvcc_get eng s key = get_at_revision eng s key (- 1)"

definition get_latest_version_info ::
  "'s engine \<Rightarrow> 's mvcc_store \<Rightarrow> bytes \<Rightarrow> (64 word \<times> versioned_value) option result option" where
  "get_latest_version_info eng s key =
     (case en_scan eng (ms_engine s) (encode_key_prefix_start key) (encode_key_prefix_end key) of
        None \<Rightarrow> None
      | Some (Inl e) \<Rightarrow> Some (Inl e)
      | Some (Inr []) \<Rightarrow> Some (Inr None)
      | Some (Inr ((internal_key, raw_value) # _)) \<Rightarrow>
          (case decode_key internal_key of
             None \<Rightarrow> None
           | Some (_, rv) \<Rightarrow>
               (case vv_decode raw_value of None \<Rightarrow> None | Some vv \<Rightarrow> Some (Inr (Some (rv, vv))))))"

definition put_versioned ::
  "'s engine \<Rightarrow> 's mvcc_store \<Rightarrow> bytes \<Rightarrow> versioned_value \<Rightarrow> 64 word \<Rightarrow> (unit result \<times> 's mvcc_store) option" where
  "put_versioned eng s key vv revision =
     map_option (\<lambda>(r, e). (r, s\<lparr>ms_engine := e\<rparr>)) (en_put eng (ms_engine s) (encode_key key revision) (vv_encode vv))"

definition put_with_options ::
  "'s engine \<Rightarrow> 's mvcc_store \<Rightarrow> bytes \<Rightarrow> bytes \<Rightarrow> 64 word \<Rightarrow> 64 word \<Rightarrow> (64 word result \<times> 's mvcc_store) option" where
  "put_with_options eng s key value lease_id ttl_seconds =
     (case next_revision s of
        None \<Rightarrow> None
      | Some (revision, s1) \<Rightarrow>
          (case get_latest_version_info eng s1 key of
             None \<Rightarrow> None
           | Some (Inl e) \<Rightarrow> Some (Inl e, s1)
           | Some (Inr info) \<Rightarrow>
               (let create_revision =
                      (case info of
                         Some (_, vv) \<Rightarrow> if vv_value vv \<noteq> None then vv_create_revision vv else revision
                       | None \<Rightarrow> revision);
                    vv = \<lparr>vv_value = Some value, vv_create_revision = create_revision, vv_mod_revision = revision,
                          vv_lease_id = lease_id, vv_ttl_seconds = ttl_seconds\<rparr>
                in case put_versioned eng s1 key vv revision of
                     None \<Rightarrow> None
                   | Some (Inl e, s2) \<Rightarrow> Some (Inl e, s2)
                   | Some (Inr _, s2) \<Rightarrow> Some (Inr revision, s2))))"

definition mvcc_put :: "'s engine \<Rightarrow> 's mvcc_store \<Rightarrow> bytes \<Rightarrow> bytes \<Rightarrow> (64 word result \<times> 's mvcc_store) option" where
  "mvcc_put eng s key value = put_with_options eng s key value 0 0"

definition delete_marker :: "64 word \<Rightarrow> versioned_value" where
  "delete_marker revision = \<lparr>vv_value = None, vv_create_revision = 0, vv_mod_revision = revision,
     vv_lease_id = 0, vv_ttl_seconds = 0\<rparr>"

definition mvcc_delete ::
  "'s engine \<Rightarrow> 's mvcc_store \<Rightarrow> bytes \<Rightarrow> ((64 word \<times> bool) result \<times> 's mvcc_store) option" where
  "mvcc_delete eng s key =
     (case get_latest_version_info eng s key of
        None \<Rightarrow> None
      | Some (Inl e) \<Rightarrow> Some (Inl e, s)
      | Some (Inr info) \<Rightarrow>
          (let existed = (case info of Some (_, vv) \<Rightarrow> vv_value vv \<noteq> None | None \<Rightarrow> False)
           in case next_revision s of
                None \<Rightarrow> None
              | Some (revision, s1) \<Rightarrow>
                  (case put_versioned eng s1 key (delete_marker revision) revision of
                     None \<Rightarrow> None
                   | Some (Inl e, s2) \<Rightarrow> Some (Inl e, s2)
                   | Some (Inr _, s2) \<Rightarrow> Some (Inr (revision, existed), s2))))"

text \<open>The loop of \<open>scan_at_revision\<close>, with the last user key for which a version was found.\<close>

fun scan_versions ::
  "bytes \<Rightarrow> bytes \<Rightarrow> 64 word \<Rightarrow> bytes option \<Rightarrow> (bytes \<times> bytes) list \<Rightarrow> key_value list option" where
  "scan_versions start_key end_key revision last_user_key [] = Some []"
| "scan_versions start_key end_key revision last_user_key ((internal_key, raw_value) # entries) =
     (case decode_key internal_key of
        None \<Rightarrow> None
      | Some (user_key, rv) \<Rightarrow>
          if last_user_key = Some user_key \<or> rv > revision
          then scan_versions start_key end_key revision last_user_key entries
          else
            (case vv_decode raw_value of
               None \<Rightarrow> None
             | Some vv \<Rightarrow>
                 map_option (\<lambda>results.
                     (case to_key_value user_key vv of
                        Some kv \<Rightarrow> if start_key \<le> user_key \<and> user_key < end_key then kv # results else results
                      | None \<Rightarrow> results))
                   (scan_versions start_key end_key revision (Some user_key) entries)))"

definition scan_at_revision ::
  "'s engine \<Rightarrow> 's mvcc_store \<Rightarrow> bytes \<Rightarrow> bytes \<Rightarrow> 64 word \<Rightarrow> key_value list result option" where
  "scan_at_revision eng s start_key end_key revision =
     (case en_scan eng (ms_engine s) (encode_key_prefix_start start_key) (encode_key_prefix_end end_key) of
        None \<Rightarrow> None
      | Some (Inl e) \<Rightarrow> Some (Inl e)
      | Some (Inr entries) \<Rightarrow> map_option Inr (scan_versions start_key end_key revision None entries))"

definition mvcc_scan :: "'s engine \<Rightarrow> 's mvcc_store \<Rightarrow> bytes \<Rightarrow> bytes \<Rightarrow> key_value list result option" where
  "mvcc_scan eng s start_key end_key = scan_at_revision eng s start_key end_key (- 1)"

section \<open>Histories\<close>

text \<open>The versions of every key, by revision.\<close>

type_synonym history = "bytes \<Rightarrow> 64 word \<rightharpoonup> versioned_value"

text \<open>The map of internal keys that holds a history.\<close>

definition stored_as :: "history \<Rightarrow> bytes \<rightharpoonup> bytes" where
  "stored_as h x = (case decode_key x of None \<Rightarrow> None | Some (k, r) \<Rightarrow> map_option vv_encode (h k r))"

definition history_ok :: "64 word \<Rightarrow> history \<Rightarrow> bool" where
  "history_ok revision h \<longleftrightarrow> (\<forall>k r vv. h k r = Some vv \<longrightarrow> r \<le> revision \<and> r \<noteq> - 1 \<and> vv_storable vv \<and> vv_mod_revision vv = r)"

text \<open>The newest version of a key at or before a revision.\<close>

definition newest :: "(64 word \<rightharpoonup> versioned_value) \<Rightarrow> 64 word \<Rightarrow> versioned_value option" where
  "newest vs revision = (let rs = {r \<in> dom vs. r \<le> revision} in if rs = {} then None else vs (Max rs))"

text \<open>No other key of the history is a prefix or an extension of the key.\<close>

definition apart :: "history \<Rightarrow> bytes \<Rightarrow> bool" where
  "apart h k \<longleftrightarrow> has_room k \<and> (\<forall>u r. h u r \<noteq> None \<longrightarrow> u = k \<or> u \<parallel> k)"

lemma stored_as_key [simp]: "stored_as h (encode_key k r) = map_option vv_encode (h k r)"
  by (simp add: stored_as_def)

lemma stored_as_update: "(stored_as h)(encode_key k r \<mapsto> vv_encode vv) = stored_as (h(k := (h k)(r \<mapsto> vv)))"
proof
  fix x
  show "((stored_as h)(encode_key k r \<mapsto> vv_encode vv)) x = stored_as (h(k := (h k)(r \<mapsto> vv))) x"
    using encode_decode_key [of x] by (cases "decode_key x") (auto simp: stored_as_def)
qed

lemma newest_list:
  "sorted_wrt (\<lambda>a b. b < a) (map fst vs) \<Longrightarrow> newest (map_of vs) revision = map_option snd (find (\<lambda>(r, _). r \<le> revision) vs)"
proof (induction vs)
  case (Cons x vs)
  obtain r vv where x: "x = (r, vv)" by (cases x)
  have below: "r' < r" if "map_of vs r' = Some v" for r' v using Cons.prems map_of_SomeD [OF that] by (force simp: x)
  show ?case
  proof (cases "r \<le> revision")
    case True
    have "Max {r' \<in> dom (map_of (x # vs)). r' \<le> revision} = r"
      using True less_imp_le [OF below] by (intro Max_eqI) (auto simp: x finite_dom_map_of)
    moreover have "newest (map_of (x # vs)) revision = map_of (x # vs) (Max {r' \<in> dom (map_of (x # vs)). r' \<le> revision})"
      unfolding newest_def Let_def by (rule if_not_P) (use True in \<open>auto simp: x\<close>)
    moreover have "map_of (x # vs) r = Some vv" "map_option snd (find (\<lambda>(r, _). r \<le> revision) (x # vs)) = Some vv"
      using True by (simp_all add: x)
    ultimately show ?thesis by (simp only:)
  next
    case False
    have "map_of vs r = None" using below [of r] by (cases "map_of vs r") auto
    then have "{r' \<in> dom (map_of (x # vs)). r' \<le> revision} = {r' \<in> dom (map_of vs). r' \<le> revision}"
      using False by (auto simp: x)
    moreover have "Max {r' \<in> dom (map_of vs). r' \<le> revision} \<noteq> r" if "{r' \<in> dom (map_of vs). r' \<le> revision} \<noteq> {}"
    proof -
      have "finite {r' \<in> dom (map_of vs). r' \<le> revision}" by (simp add: finite_dom_map_of)
      from Max_in [OF this that] show ?thesis using False by auto
    qed
    ultimately have "newest (map_of (x # vs)) revision = newest (map_of vs) revision" by (auto simp: newest_def Let_def x)
    moreover have "find (\<lambda>(r, _). r \<le> revision) (x # vs) = find (\<lambda>(r, _). r \<le> revision) vs" using False by (simp add: x)
    moreover have "sorted_wrt (\<lambda>a b. b < a) (map fst vs)" using Cons.prems by simp
    ultimately show ?thesis using Cons.IH by (simp only:)
  qed
qed (simp add: newest_def)

text \<open>The entries that a scan for a key returns are its versions, newest first.\<close>

lemma scanned_versions:
  assumes es: "sorted_map es" "map_of es = within (encode_key_prefix_start k) (encode_key_prefix_end k) (stored_as h)"
    and h: "history_ok revision h" "apart h k"
  obtains vs where "es = map (\<lambda>(r, vv). (encode_key k r, vv_encode vv)) vs" and "sorted_wrt (\<lambda>a b. b < a) (map fst vs)"
    and "map_of vs = h k" and "\<forall>(r, vv) \<in> set vs. vv_storable vv"
proof -
  have entry: "\<exists>r vv. x = encode_key k r \<and> y = vv_encode vv \<and> h k r = Some vv" if xy: "(x, y) \<in> set es" for x y
  proof -
    have m: "map_of es x = Some y" using xy sorted_map_distinct [OF es(1)] by simp
    then have st: "stored_as h x = Some y" and rng: "encode_key_prefix_start k \<le> x" "x < encode_key_prefix_end k"
      unfolding es(2) by (auto simp: within_def split: if_splits)
    obtain u r vv where x: "x = encode_key u r" and vv: "h u r = Some vv" "y = vv_encode vv"
      using st encode_decode_key [of x] by (auto simp: stored_as_def split: option.splits)
    have "r \<noteq> - 1" using h(1) vv(1) unfolding history_ok_def by blast
    moreover have "u = k \<or> u \<parallel> k" "has_room k" using h(2) vv(1) unfolding apart_def by blast+
    ultimately have "u = k" using other_versions_outside [of k r u] rng by (auto simp: x)
    then show ?thesis using x vv by blast
  qed
  define vs where "vs = map (\<lambda>(x, y). (snd (the (decode_key x)), the (vv_decode y))) es"
  have dec: "snd (the (decode_key x)) = r \<and> the (vv_decode y) = vv" if "x = encode_key k r" "y = vv_encode vv" "h k r = Some vv" for x y r vv
    using that h(1) by (simp add: history_ok_def vv_decode_encode)
  have same: "es = map (\<lambda>(r, vv). (encode_key k r, vv_encode vv)) vs"
    unfolding vs_def map_map by (rule map_idI [symmetric]) (use entry dec in force)
  have "sorted_wrt (<) (map (encode_key k) (map fst vs))"
    using es(1) unfolding sorted_map_def by (subst (asm) same) (simp add: comp_def case_prod_beta')
  then have srt: "sorted_wrt (\<lambda>a b. b < a) (map fst vs)" by (simp only: sorted_wrt_map encode_key_less)
  have hk: "map_of vs r = h k r" for r
  proof (cases "h k r")
    case None
    have "r \<notin> fst ` set vs"
    proof
      assume "r \<in> fst ` set vs"
      then obtain vv where "(r, vv) \<in> set vs" by force
      then have "(encode_key k r, vv_encode vv) \<in> set (map (\<lambda>(r, vv). (encode_key k r, vv_encode vv)) vs)" by force
      then have "(encode_key k r, vv_encode vv) \<in> set es" using same by simp
      then show False using entry None by fastforce
    qed
    then show ?thesis using None by (simp add: map_of_eq_None_iff)
  next
    case (Some vv)
    have "has_room k" "r \<noteq> - 1" using h Some by (auto simp: apart_def history_ok_def)
    then have "map_of es (encode_key k r) = Some (vv_encode vv)"
      using own_versions_in_range [of k r] Some by (simp add: es(2) within_def)
    then have "(encode_key k r, vv_encode vv) \<in> set es" by (rule map_of_SomeD)
    then have "(r, vv) \<in> set vs" unfolding vs_def using dec [OF refl refl Some] by force
    moreover have "distinct (map fst vs)"
      using strict_sorted_iff [of "rev (map fst vs)"] srt by (simp add: sorted_wrt_rev)
    ultimately show ?thesis using Some by simp
  qed
  have "vv_storable vv" if "(r, vv) \<in> set vs" for r vv
  proof -
    obtain x y where "(x, y) \<in> set es" "r = snd (the (decode_key x))" "vv = the (vv_decode y)" using \<open>(r, vv) \<in> set vs\<close> by (auto simp: vs_def)
    then show ?thesis using entry [of x y] dec h(1) unfolding history_ok_def by metis
  qed
  then have "\<forall>(r, vv) \<in> set vs. vv_storable vv" by blast
  moreover have "map_of vs = h k" by (rule ext) (rule hk)
  ultimately show thesis using that [OF same srt] by blast
qed

end
