(* ===== verification/Mvcc_View.thy ===== *)
theory Mvcc_View
  imports Mvcc
begin

text \<open>
  The multi-version store as a history of versions: over an engine that keeps its contract, reads return the
  newest version at or before a revision, and writes add one version. The properties are stated for the
  store over the LSM tree.
\<close>

section \<open>Reading\<close>

lemma first_version_map:
  "\<forall>(r, vv) \<in> set vs. vv_storable vv \<Longrightarrow>
     first_version revision (map (\<lambda>(r, vv). (encode_key k r, vv_encode vv)) vs) =
       Some (map_option snd (find (\<lambda>(r, _). r \<le> revision) vs))"
  by (induction vs) (auto simp: vv_decode_encode not_less)

lemma newest_top: "newest vs (- 1) = (if dom vs = {} then None else vs (Max (dom vs)))"
  by (simp add: newest_def)

lemma newest_stored: "newest vs r = Some vv \<Longrightarrow> \<exists>r' \<le> r. vs r' = Some vv"
proof -
  assume "newest vs r = Some vv"
  then have ne: "{r' \<in> dom vs. r' \<le> r} \<noteq> {}" and vv: "vs (Max {r' \<in> dom vs. r' \<le> r}) = Some vv"
    by (auto simp: newest_def Let_def split: if_splits)
  then show ?thesis using Max_in [OF finite ne] by blast
qed

text \<open>A new version on top.\<close>

lemma newest_update:
  assumes "\<forall>r' \<in> dom vs. r' < r"
  shows "newest (vs(r \<mapsto> vv)) q = (if r \<le> q then Some vv else newest vs q)"
proof (cases "r \<le> q")
  case True
  have "Max {r' \<in> dom (vs(r \<mapsto> vv)). r' \<le> q} = r"
    using True assms by (intro Max_eqI) (auto intro: less_imp_le)
  moreover have "{r' \<in> dom (vs(r \<mapsto> vv)). r' \<le> q} \<noteq> {}" using True by auto
  ultimately have "newest (vs(r \<mapsto> vv)) q = (vs(r \<mapsto> vv)) r" unfolding newest_def Let_def by (simp only: if_False simp_thms)
  then show ?thesis using True by simp
next
  case False
  have "{r' \<in> dom (vs(r \<mapsto> vv)). r' \<le> q} = {r' \<in> dom vs. r' \<le> q}" using False by auto
  moreover have "Max {r' \<in> dom vs. r' \<le> q} \<noteq> r" if "{r' \<in> dom vs. r' \<le> q} \<noteq> {}"
    using Max_in [OF finite that] False by auto
  ultimately show ?thesis using False unfolding newest_def Let_def by auto
qed

text \<open>The store holds the history, and only internal keys up to the current revision were ever used.\<close>

definition mvcc_ok ::
  "('s \<Rightarrow> bool) \<Rightarrow> ('s \<Rightarrow> bytes \<rightharpoonup> bytes) \<Rightarrow> ('s \<Rightarrow> bool) \<Rightarrow> ('s \<Rightarrow> bytes set) \<Rightarrow> 's mvcc_store \<Rightarrow> history \<Rightarrow> bool" where
  "mvcc_ok sound view once used s h \<longleftrightarrow>
     sound (ms_engine s) \<and> once (ms_engine s) \<and> view (ms_engine s) = stored_as h \<and> history_ok (ms_revision s) h \<and>
     (\<forall>x \<in> used (ms_engine s). \<exists>k r. x = encode_key k r \<and> r \<le> ms_revision s)"

context storage_engine
begin

lemma scan_for_key:
  assumes "inv (ms_engine s)" and "view (ms_engine s) = stored_as h" and "history_ok revision h" and "apart h k"
  obtains vs where "en_scan eng (ms_engine s) (encode_key_prefix_start k) (encode_key_prefix_end k) =
      Some (Inr (map (\<lambda>(r, vv). (encode_key k r, vv_encode vv)) vs))"
    and "sorted_wrt (\<lambda>a b. b < a) (map fst vs)" and "map_of vs = h k" and "\<forall>(r, vv) \<in> set vs. vv_storable vv"
proof -
  have "has_room k" using assms(4) by (simp add: apart_def)
  then have "encode_key_prefix_start k \<le> encode_key_prefix_end k"
    using own_versions_in_range [of k 0] by simp
  from scan_view [OF assms(1) this] obtain es where
    es: "en_scan eng (ms_engine s) (encode_key_prefix_start k) (encode_key_prefix_end k) = Some (Inr es)" "sorted_map es"
      "map_of es = within (encode_key_prefix_start k) (encode_key_prefix_end k) (stored_as h)"
    unfolding assms(2) by blast
  from scanned_versions [OF es(2,3) assms(3,4)] show thesis using that es(1) by metis
qed

lemma get_newest:
  assumes "inv (ms_engine s)" and "view (ms_engine s) = stored_as h" and "history_ok revision h" and "apart h k"
  shows "get_at_revision eng s k r = Some (Inr (Option.bind (newest (h k) r) (to_key_value k)))"
proof -
  obtain vs where vs: "en_scan eng (ms_engine s) (encode_key_prefix_start k) (encode_key_prefix_end k) =
      Some (Inr (map (\<lambda>(r, vv). (encode_key k r, vv_encode vv)) vs))"
    "sorted_wrt (\<lambda>a b. b < a) (map fst vs)" "map_of vs = h k" "\<forall>(r, vv) \<in> set vs. vv_storable vv"
    using scan_for_key [OF assms] .
  have "newest (h k) r = map_option snd (find (\<lambda>(r', _). r' \<le> r) vs)" using newest_list [OF vs(2)] vs(3) by simp
  then show ?thesis using vs(1) first_version_map [OF vs(4)]
    by (cases "find (\<lambda>(r', _). r' \<le> r) vs") (simp_all add: get_at_revision_def)
qed

lemma latest_info:
  assumes "inv (ms_engine s)" and "view (ms_engine s) = stored_as h" and "history_ok revision h" and "apart h k"
  shows "get_latest_version_info eng s k = Some (Inr (map_option (\<lambda>vv. (vv_mod_revision vv, vv)) (newest (h k) (- 1))))"
proof -
  obtain vs where vs: "en_scan eng (ms_engine s) (encode_key_prefix_start k) (encode_key_prefix_end k) =
      Some (Inr (map (\<lambda>(r, vv). (encode_key k r, vv_encode vv)) vs))"
    "sorted_wrt (\<lambda>a b. b < a) (map fst vs)" "map_of vs = h k" "\<forall>(r, vv) \<in> set vs. vv_storable vv"
    using scan_for_key [OF assms] .
  have nw: "newest (h k) (- 1) = map_option snd (find (\<lambda>(r', _). r' \<le> - 1) vs)" using newest_list [OF vs(2)] vs(3) by simp
  show ?thesis
  proof (cases vs)
    case Nil
    then show ?thesis using vs(1) nw by (simp add: get_latest_version_info_def)
  next
    case (Cons x ys)
    obtain r vv where x: "x = (r, vv)" by (cases x)
    have "h k r = map_of vs r" using vs(3) by simp
    then have "h k r = Some vv" by (simp add: Cons x)
    then have "vv_mod_revision vv = r" using assms(3) unfolding history_ok_def by blast
    moreover have "vv_decode (vv_encode vv) = Some vv" using vs(4) by (intro vv_decode_encode) (simp add: Cons x)
    ultimately show ?thesis using vs(1) nw by (simp add: get_latest_version_info_def Cons x)
  qed
qed

end

section \<open>Writing\<close>

lemma history_ok_update:
  assumes "history_ok q h" and "q \<le> r" and "r \<noteq> - 1" and "vv_storable vv" and "vv_mod_revision vv = r"
  shows "history_ok r (h(k := (h k)(r \<mapsto> vv)))"
  unfolding history_ok_def
proof (intro allI impI)
  fix k' r' x assume x: "(h(k := (h k)(r \<mapsto> vv))) k' r' = Some x"
  show "r' \<le> r \<and> r' \<noteq> - 1 \<and> vv_storable x \<and> vv_mod_revision x = r'"
  proof (cases "k' = k \<and> r' = r")
    case True
    then show ?thesis using x assms(3-5) by auto
  next
    case False
    then have "h k' r' = Some x" using x by (auto split: if_splits)
    then have "r' \<le> q \<and> r' \<noteq> - 1 \<and> vv_storable x \<and> vv_mod_revision x = r'" using assms(1) unfolding history_ok_def by blast
    then show ?thesis using assms(2) order_trans by blast
  qed
qed

context write_once_engine
begin

lemma put_version:
  assumes ok: "mvcc_ok inv view once used s h" and r: "ms_revision s \<le> r" "r \<noteq> - 1" and fresh: "encode_key k r \<notin> used (ms_engine s)"
    and vv: "vv_storable vv" "vv_mod_revision vv = r"
    and fits: "fits (ms_engine s) (encode_key k r) (Some (vv_encode vv))"
    and put: "put_versioned eng s k vv r = Some (Inr u, s')"
  shows "mvcc_ok inv view once used (s'\<lparr>ms_revision := r\<rparr>) (h(k := (h k)(r \<mapsto> vv)))" and "ms_revision s' = ms_revision s"
proof -
  obtain e' where e': "en_put eng (ms_engine s) (encode_key k r) (vv_encode vv) = Some (Inr u, e')" and s': "s' = s\<lparr>ms_engine := e'\<rparr>"
    using put by (auto simp: put_versioned_def)
  note new = put_fresh [OF _ _ fresh fits e']
  have "inv e'" "once e'" "used e' \<subseteq> insert (encode_key k r) (used (ms_engine s))" "view e' = (stored_as h)(encode_key k r \<mapsto> vv_encode vv)"
    using new ok by (simp_all add: mvcc_ok_def)
  moreover have "history_ok r (h(k := (h k)(r \<mapsto> vv)))"
    using ok by (intro history_ok_update [OF _ r vv]) (simp add: mvcc_ok_def)
  moreover have "\<forall>x \<in> used e'. \<exists>k r'. x = encode_key k r' \<and> r' \<le> r"
  proof
    fix x assume "x \<in> used e'"
    then consider "x = encode_key k r" | "x \<in> used (ms_engine s)" using calculation(3) by blast
    then show "\<exists>k r'. x = encode_key k r' \<and> r' \<le> r"
    proof cases
      case 2
      then obtain k' r' where "x = encode_key k' r'" "r' \<le> ms_revision s" using ok by (auto simp: mvcc_ok_def)
      then show ?thesis using r(1) order_trans by blast
    qed blast
  qed
  ultimately show "mvcc_ok inv view once used (s'\<lparr>ms_revision := r\<rparr>) (h(k := (h k)(r \<mapsto> vv)))"
    by (simp add: mvcc_ok_def s' stored_as_update)
  show "ms_revision s' = ms_revision s" by (simp add: s')
qed

lemma newer_fresh: "mvcc_ok inv view once used s h \<Longrightarrow> ms_revision s < r \<Longrightarrow> encode_key k r \<notin> used (ms_engine s)"
  by (force simp: mvcc_ok_def)

end

text \<open>The version that a put writes.\<close>

definition put_value :: "history \<Rightarrow> 64 word \<Rightarrow> bytes \<Rightarrow> bytes \<Rightarrow> 64 word \<Rightarrow> 64 word \<Rightarrow> versioned_value" where
  "put_value h r k v lease ttl =
     \<lparr>vv_value = Some v,
      vv_create_revision = (case newest (h k) (- 1) of Some vv \<Rightarrow> if vv_value vv \<noteq> None then vv_create_revision vv else r | None \<Rightarrow> r),
      vv_mod_revision = r, vv_lease_id = lease, vv_ttl_seconds = ttl\<rparr>"

lemma word_succ_greater: "(x :: 64 word) \<noteq> - 1 \<Longrightarrow> x < x + 1"
  using unatSuc [of x] by (simp add: word_less_nat_alt add.commute eq_neg_iff_add_eq_0)

context write_once_engine
begin

lemma put_history:
  assumes ok: "mvcc_ok inv view once used s h" and k: "apart h k" and v: "length v < 2 ^ 32"
    and r: "r = ms_revision s + 1" "ms_revision s + 1 \<noteq> - 1"
    and fits: "fits (ms_engine s) (encode_key k r) (Some (vv_encode (put_value h r k v lease ttl)))"
    and put: "put_with_options eng s k v lease ttl = Some (Inr q, s')"
  shows "q = r" and "ms_revision s' = r" and "mvcc_ok inv view once used s' (h(k := (h k)(r \<mapsto> put_value h r k v lease ttl)))"
proof -
  have pre: "inv (ms_engine s)" "view (ms_engine s) = stored_as h" "history_ok (ms_revision s) h"
    using ok by (simp_all add: mvcc_ok_def)
  have nm: "ms_revision s \<noteq> - 1" using put by (auto simp: put_with_options_def next_revision_def)
  let ?s1 = "s\<lparr>ms_revision := r\<rparr>" and ?vv = "put_value h r k v lease ttl"
  have info: "get_latest_version_info eng ?s1 k = Some (Inr (map_option (\<lambda>vv. (vv_mod_revision vv, vv)) (newest (h k) (- 1))))"
    by (rule latest_info [OF _ _ pre(3) k]) (simp_all add: pre)
  obtain u where pv: "put_versioned eng ?s1 k ?vv r = Some (Inr u, s')" and q: "q = r"
    using put nm info r(1)
    by (cases "newest (h k) (- 1)") (auto simp: put_with_options_def next_revision_def Let_def put_value_def split: option.splits sum.splits if_splits)
  obtain e' where e': "en_put eng (ms_engine s) (encode_key k r) (vv_encode ?vv) = Some (Inr u, e')" and s': "s' = s\<lparr>ms_revision := r, ms_engine := e'\<rparr>"
    using pv by (auto simp: put_versioned_def)
  have lt: "ms_revision s < r" using word_succ_greater [OF nm] r(1) by simp
  have "put_versioned eng s k ?vv r = Some (Inr u, s\<lparr>ms_engine := e'\<rparr>)" using e' by (simp add: put_versioned_def)
  from put_version(1) [OF ok less_imp_le [OF lt] _ newer_fresh [OF ok lt] _ _ fits this]
  show "mvcc_ok inv view once used s' (h(k := (h k)(r \<mapsto> ?vv)))"
    using r v by (simp add: put_value_def vv_storable_def s' mvcc_ok_def)
  show "q = r" "ms_revision s' = r" using q by (simp_all add: s')
qed

lemma delete_history:
  assumes ok: "mvcc_ok inv view once used s h" and k: "apart h k"
    and r: "r = ms_revision s + 1" "ms_revision s + 1 \<noteq> - 1"
    and fits: "fits (ms_engine s) (encode_key k r) (Some (vv_encode (delete_marker r)))"
    and del: "mvcc_delete eng s k = Some (Inr (q, existed), s')"
  shows "q = r" and "ms_revision s' = r" and "mvcc_ok inv view once used s' (h(k := (h k)(r \<mapsto> delete_marker r)))"
    and "existed \<longleftrightarrow> Option.bind (newest (h k) (- 1)) vv_value \<noteq> None"
proof -
  have pre: "inv (ms_engine s)" "view (ms_engine s) = stored_as h" "history_ok (ms_revision s) h"
    using ok by (simp_all add: mvcc_ok_def)
  have info: "get_latest_version_info eng s k = Some (Inr (map_option (\<lambda>vv. (vv_mod_revision vv, vv)) (newest (h k) (- 1))))"
    by (rule latest_info [OF pre k])
  then have nm: "ms_revision s \<noteq> - 1" using del by (auto simp: mvcc_delete_def next_revision_def)
  let ?s1 = "s\<lparr>ms_revision := r\<rparr>"
  obtain u where pv: "put_versioned eng ?s1 k (delete_marker r) r = Some (Inr u, s')" and q: "q = r"
    and ex: "existed \<longleftrightarrow> Option.bind (newest (h k) (- 1)) vv_value \<noteq> None"
    using del nm info r(1)
    by (cases "newest (h k) (- 1)") (auto simp: mvcc_delete_def next_revision_def Let_def split: option.splits sum.splits)
  obtain e' where e': "en_put eng (ms_engine s) (encode_key k r) (vv_encode (delete_marker r)) = Some (Inr u, e')" and s': "s' = s\<lparr>ms_revision := r, ms_engine := e'\<rparr>"
    using pv by (auto simp: put_versioned_def)
  have lt: "ms_revision s < r" using word_succ_greater [OF nm] r(1) by simp
  have "put_versioned eng s k (delete_marker r) r = Some (Inr u, s\<lparr>ms_engine := e'\<rparr>)" using e' by (simp add: put_versioned_def)
  from put_version(1) [OF ok less_imp_le [OF lt] _ newer_fresh [OF ok lt] _ _ fits this]
  show "mvcc_ok inv view once used s' (h(k := (h k)(r \<mapsto> delete_marker r)))"
    using r by (simp add: delete_marker_def vv_storable_def s' mvcc_ok_def)
  show "q = r" "ms_revision s' = r" "existed \<longleftrightarrow> Option.bind (newest (h k) (- 1)) vv_value \<noteq> None" using q ex by (simp_all add: s')
qed

lemma reads_after_write:
  assumes ok: "mvcc_ok inv view once used s h" and ok': "mvcc_ok inv view once used s' (h(k := (h k)(r \<mapsto> vv)))"
    and r: "ms_revision s < r" and k': "apart h k'" "k' = k \<or> k \<parallel> k'"
  shows "get_at_revision eng s' k' q = (if k' = k \<and> r \<le> q then Some (Inr (to_key_value k vv)) else get_at_revision eng s k' q)"
proof -
  have pre: "inv (ms_engine s)" "view (ms_engine s) = stored_as h" "history_ok (ms_revision s) h"
    and pre': "inv (ms_engine s')" "view (ms_engine s') = stored_as (h(k := (h k)(r \<mapsto> vv)))" "history_ok (ms_revision s') (h(k := (h k)(r \<mapsto> vv)))"
    using ok ok' by (simp_all add: mvcc_ok_def)
  have "apart (h(k := (h k)(r \<mapsto> vv))) k'" using k' by (auto simp: apart_def)
  moreover have "\<forall>r' \<in> dom (h k). r' < r" using pre(3) r unfolding history_ok_def by (meson domD le_less_trans)
  ultimately show ?thesis
    using get_newest [OF pre k'(1), of q] get_newest [OF pre', of k' q] newest_update [of "h k" r vv q] by simp
qed

lemma put_total:
  assumes ok: "mvcc_ok inv view once used s h" and k: "apart h k" and r: "r = ms_revision s + 1" "ms_revision s \<noteq> - 1"
    and put: "en_put eng (ms_engine s) (encode_key k r) (vv_encode (put_value h r k v lease ttl)) = Some (Inr u, e')"
  shows "put_with_options eng s k v lease ttl = Some (Inr r, s\<lparr>ms_revision := r, ms_engine := e'\<rparr>)"
proof -
  have pre: "inv (ms_engine s)" "view (ms_engine s) = stored_as h" "history_ok (ms_revision s) h"
    using ok by (simp_all add: mvcc_ok_def)
  have "get_latest_version_info eng (s\<lparr>ms_revision := r\<rparr>) k = Some (Inr (map_option (\<lambda>vv. (vv_mod_revision vv, vv)) (newest (h k) (- 1))))"
    by (rule latest_info [OF _ _ pre(3) k]) (simp_all add: pre)
  then show ?thesis
    using put r by (cases "newest (h k) (- 1)") (simp_all add: put_with_options_def next_revision_def put_versioned_def put_value_def Let_def)
qed

lemma delete_total:
  assumes ok: "mvcc_ok inv view once used s h" and k: "apart h k" and r: "r = ms_revision s + 1" "ms_revision s \<noteq> - 1"
    and put: "en_put eng (ms_engine s) (encode_key k r) (vv_encode (delete_marker r)) = Some (Inr u, e')"
  shows "mvcc_delete eng s k = Some (Inr (r, Option.bind (newest (h k) (- 1)) vv_value \<noteq> None), s\<lparr>ms_revision := r, ms_engine := e'\<rparr>)"
proof -
  have "get_latest_version_info eng s k = Some (Inr (map_option (\<lambda>vv. (vv_mod_revision vv, vv)) (newest (h k) (- 1))))"
    using ok by (intro latest_info [where revision = "ms_revision s", OF _ _ _ k]) (simp_all add: mvcc_ok_def)
  then show ?thesis
    using put r by (cases "newest (h k) (- 1)") (simp_all add: mvcc_delete_def next_revision_def put_versioned_def Let_def)
qed

end

section \<open>Properties over the LSM tree\<close>

definition lsm_mvcc_ok :: "lsm_env \<Rightarrow> lsm_tree mvcc_store \<Rightarrow> history \<Rightarrow> bool" where
  "lsm_mvcc_ok w s h \<longleftrightarrow> mvcc_ok (lsm_inv w) (lsm_view w) (lsm_once w) (lsm_used w) s h"

lemma lsm_mvcc_new: "sst_env_ok (le_sst w) \<Longrightarrow> lsm_mvcc_ok w (mvcc_new (empty_tree c)) (\<lambda>_ _. None)"
  by (simp add: lsm_mvcc_ok_def mvcc_ok_def mvcc_new_def lsm_inv_def wf_empty_tree lsm_once_def lsm_used_def history_ok_def
      stored_as_def fun_eq_iff split: option.split)

text \<open>A fresh store over the tree of the demonstration environment.\<close>

abbreviation demo_mvcc :: "lsm_tree mvcc_store" where
  "demo_mvcc \<equiv> mvcc_new (empty_tree lsm_config_default)"

lemma demo_mvcc_put:
  "length k + length v < 1000 \<Longrightarrow> \<exists>t'. en_put (lsm_engine demo_store) (empty_tree lsm_config_default) k v = Some (Inr (), t')"
  by (simp add: lsm_engine_def demo_write_simps demo_store_def)

lemma demo_mvcc_fits: "length k + value_len v < 1000 \<Longrightarrow> lsm_fits demo_store (empty_tree lsm_config_default) k v"
  by (simp add: lsm_fits_def storable_def TOMBSTONE_MARKER_def lsm_room_def entry_bytes_def)

lemma demo_mvcc_ok: "lsm_mvcc_ok demo_store demo_mvcc (\<lambda>_ _. None)"
  by (rule lsm_mvcc_new) (simp add: demo_store_def demo_lsm_env_def)

lemma length_encodings [simp]:
  "length (encode_key k r) = length k + 8"
  "length (vv_encode vv) = (case vv_value vv of Some v \<Rightarrow> length v + 37 | None \<Rightarrow> 33)"
  by (simp_all add: encode_key_def vv_encode_def split: option.split)

lemma demo_apart: "apart (\<lambda>_ _. None) [107]"
  by (simp add: apart_def has_room_def)

text \<open>C27: a put adds a version. If it succeeds it takes the next revision; reads of the key at that revision
  or later return the value with its lease and modification revision, and with the creation revision of the
  live version it replaces; reads of the key at earlier revisions, and all reads of other keys, return what
  they returned before, so that snapshot reads are stable. The key and the keys read must not be a prefix of
  another key of the store, and not consist of bytes \<open>0xFF\<close> only.\<close>

theorem mvcc_put_get:
  assumes "lsm_mvcc_ok w s h" and "apart h k" and "length v < 2 ^ 32" and "ms_revision s + 1 \<noteq> - 1"
    and "lsm_fits w (ms_engine s) (encode_key k (ms_revision s + 1)) (Some (vv_encode (put_value h (ms_revision s + 1) k v lease ttl)))"
    and "put_with_options (lsm_engine w) s k v lease ttl = Some (Inr r, s')"
  shows "r = ms_revision s + 1 \<and> ms_revision s' = r \<and> lsm_mvcc_ok w s' (h(k := (h k)(r \<mapsto> put_value h r k v lease ttl))) \<and>
    (\<forall>k' q. apart h k' \<and> (k' = k \<or> k \<parallel> k') \<longrightarrow>
       get_at_revision (lsm_engine w) s' k' q =
         (if k' = k \<and> r \<le> q then Some (Inr (to_key_value k (put_value h r k v lease ttl)))
          else get_at_revision (lsm_engine w) s k' q))"
proof -
  note ok = assms(1) [unfolded lsm_mvcc_ok_def]
  note new = lsm_store.put_history [OF ok assms(2,3) refl assms(4,5,6)]
  have "ms_revision s \<noteq> - 1" using assms(6) by (auto simp: put_with_options_def next_revision_def)
  then have "ms_revision s < ms_revision s + 1" by (rule word_succ_greater)
  from lsm_store.reads_after_write [OF ok new(3) this] show ?thesis
    using new by (auto simp: lsm_mvcc_ok_def)
qed

theorem mvcc_put_get_witness:
  "\<exists>s'. put_with_options (lsm_engine demo_store) demo_mvcc [107] [118] 7 0 = Some (Inr 1, s') \<and>
     mvcc_get (lsm_engine demo_store) s' [107] =
       Some (Inr (Some \<lparr>kv_key = [107], kv_value = [118], kv_create_revision = 1, kv_mod_revision = 1, kv_lease_id = 7\<rparr>)) \<and>
     get_at_revision (lsm_engine demo_store) s' [107] 0 = get_at_revision (lsm_engine demo_store) demo_mvcc [107] 0"
proof -
  let ?h = "\<lambda>_ _. None" and ?r = "ms_revision demo_mvcc + 1"
  let ?vv = "put_value ?h ?r [107] [118] 7 0"
  have r: "?r = 1" by (simp add: mvcc_new_def)
  have val: "vv_value ?vv = Some [118]" by (simp add: put_value_def)
  obtain t' where "en_put (lsm_engine demo_store) (empty_tree lsm_config_default) (encode_key [107] ?r) (vv_encode ?vv) = Some (Inr (), t')"
    using demo_mvcc_put [of "encode_key [107] ?r" "vv_encode ?vv"] val by auto
  then obtain s' where put: "put_with_options (lsm_engine demo_store) demo_mvcc [107] [118] 7 0 = Some (Inr ?r, s')"
    using lsm_store.put_total [OF demo_mvcc_ok [unfolded lsm_mvcc_ok_def] demo_apart refl, of "[118]" 7 0] by (simp add: mvcc_new_def)
  have fits: "lsm_fits demo_store (ms_engine demo_mvcc) (encode_key [107] ?r) (Some (vv_encode ?vv))"
    using demo_mvcc_fits [of "encode_key [107] ?r" "Some (vv_encode ?vv)"] val by (simp add: mvcc_new_def value_len_def)
  from mvcc_put_get [OF demo_mvcc_ok demo_apart _ _ fits put] put show ?thesis
    using demo_apart unfolding r mvcc_get_def by (simp add: to_key_value_def put_value_def newest_def)
qed

text \<open>C28: a delete adds a delete marker. If it succeeds it takes the next revision and reports truly whether the
  key was there; reads of the key at that revision or later find nothing, and all other reads return what
  they returned before, under the same condition on keys.\<close>

theorem mvcc_delete_get:
  assumes "lsm_mvcc_ok w s h" and "apart h k" and "ms_revision s + 1 \<noteq> - 1"
    and "lsm_fits w (ms_engine s) (encode_key k (ms_revision s + 1)) (Some (vv_encode (delete_marker (ms_revision s + 1))))"
    and "mvcc_delete (lsm_engine w) s k = Some (Inr (r, existed), s')"
  shows "r = ms_revision s + 1 \<and> ms_revision s' = r \<and> lsm_mvcc_ok w s' (h(k := (h k)(r \<mapsto> delete_marker r))) \<and>
    (existed \<longleftrightarrow> mvcc_get (lsm_engine w) s k \<noteq> Some (Inr None)) \<and>
    (\<forall>k' q. apart h k' \<and> (k' = k \<or> k \<parallel> k') \<longrightarrow>
       get_at_revision (lsm_engine w) s' k' q =
         (if k' = k \<and> r \<le> q then Some (Inr None) else get_at_revision (lsm_engine w) s k' q))"
proof -
  note ok = assms(1) [unfolded lsm_mvcc_ok_def]
  note new = lsm_store.delete_history [OF ok assms(2) refl assms(3,4,5)]
  have get: "mvcc_get (lsm_engine w) s k = Some (Inr (Option.bind (newest (h k) (- 1)) (to_key_value k)))"
    using ok unfolding mvcc_get_def by (intro lsm_store.get_newest [where revision = "ms_revision s", OF _ _ _ assms(2)]) (simp_all add: mvcc_ok_def)
  have "ms_revision s \<noteq> - 1" using assms(5) by (auto simp: mvcc_delete_def next_revision_def split: option.splits sum.splits)
  then have "ms_revision s < ms_revision s + 1" by (rule word_succ_greater)
  from lsm_store.reads_after_write [OF ok new(3) [unfolded new(1)] this] have reads: "apart h k' \<Longrightarrow> k' = k \<or> k \<parallel> k' \<Longrightarrow>
       get_at_revision (lsm_engine w) s' k' q =
         (if k' = k \<and> r \<le> q then Some (Inr None) else get_at_revision (lsm_engine w) s k' q)" for k' q
    using new(1) by (simp add: to_key_value_def delete_marker_def)
  moreover have "existed \<longleftrightarrow> mvcc_get (lsm_engine w) s k \<noteq> Some (Inr None)"
    using new(4) by (cases "newest (h k) (- 1)") (simp_all add: get to_key_value_def)
  ultimately show ?thesis using new by (auto simp: lsm_mvcc_ok_def)
qed

theorem mvcc_delete_get_witness:
  "\<exists>s'. mvcc_delete (lsm_engine demo_store) demo_mvcc [107] = Some (Inr (1, False), s') \<and>
     mvcc_get (lsm_engine demo_store) s' [107] = Some (Inr None)"
proof -
  let ?r = "ms_revision demo_mvcc + 1"
  have r: "?r = 1" by (simp add: mvcc_new_def)
  have val: "vv_value (delete_marker ?r) = None" by (simp add: delete_marker_def)
  obtain t' where "en_put (lsm_engine demo_store) (empty_tree lsm_config_default) (encode_key [107] ?r) (vv_encode (delete_marker ?r)) = Some (Inr (), t')"
    using demo_mvcc_put [of "encode_key [107] ?r" "vv_encode (delete_marker ?r)"] val by auto
  then obtain s' where del: "mvcc_delete (lsm_engine demo_store) demo_mvcc [107] = Some (Inr (?r, False), s')"
    using lsm_store.delete_total [OF demo_mvcc_ok [unfolded lsm_mvcc_ok_def] demo_apart refl] by (simp add: mvcc_new_def newest_def)
  have fits: "lsm_fits demo_store (ms_engine demo_mvcc) (encode_key [107] ?r) (Some (vv_encode (delete_marker ?r)))"
    using demo_mvcc_fits [of "encode_key [107] ?r" "Some (vv_encode (delete_marker ?r))"] val by (simp add: mvcc_new_def value_len_def)
  from mvcc_delete_get [OF demo_mvcc_ok demo_apart _ fits del] del show ?thesis
    using demo_apart unfolding r mvcc_get_def by simp
qed

text \<open>The range scanned for a key holds the versions of its extensions.\<close>

lemma extension_in_range:
  assumes "has_room k" and "r \<noteq> - 1"
  shows "encode_key_prefix_start k \<le> encode_key (k @ t) r" and "encode_key (k @ t) r < encode_key_prefix_end k"
proof -
  have "replicate 8 0 \<le> t @ be_bytes 8 (unat (NOT r))"
    by (rule zeros_le) (use revision_suffix_nonzero [OF assms(2)] in auto)
  then show "encode_key_prefix_start k \<le> encode_key (k @ t) r"
    unfolding prefix_start_zeros encode_key_def append_assoc by (auto simp: le_less)
  obtain p b j where k: "k = p @ b # replicate j 0xFF" "b < 0xFF" "increment_bytes k = p @ (b + 1) # replicate j 0"
    using increment_split [OF assms(1)] .
  have "b < b + 1" using byte_succ [OF k(2)] by (simp add: word_less_nat_alt)
  then show "encode_key (k @ t) r < encode_key_prefix_end k"
    by (simp add: encode_key_def encode_key_prefix_end_def k(3)) (simp add: k(1))
qed

lemma extension_scan:
  assumes "has_room k" and "history_ok revision h" and only: "\<forall>u r. h u r \<noteq> None \<longrightarrow> u = k @ t"
  shows "within (encode_key_prefix_start k) (encode_key_prefix_end k) (stored_as h) =
    within (encode_key_prefix_start (k @ t)) (encode_key_prefix_end (k @ t)) (stored_as h)"
proof
  fix x
  have room: "has_room (k @ t)" using assms(1) by (auto simp: has_room_def)
  show "within (encode_key_prefix_start k) (encode_key_prefix_end k) (stored_as h) x =
    within (encode_key_prefix_start (k @ t)) (encode_key_prefix_end (k @ t)) (stored_as h) x"
  proof (cases "stored_as h x")
    case (Some y)
    then obtain u r vv where x: "x = encode_key u r" and vv: "h u r = Some vv"
      using encode_decode_key [of x] by (auto simp: stored_as_def split: option.splits)
    then have "u = k @ t" "r \<noteq> - 1" using only assms(2) unfolding history_ok_def by blast+
    then show ?thesis
      using extension_in_range [OF assms(1), of r t] own_versions_in_range [OF room, of r] by (simp add: within_def x)
  qed (simp add: within_def)
qed

text \<open>C29: a read of a key can return another key's value. In a store whose only key is a proper extension
  \<open>k @ t\<close> of \<open>k\<close>, where \<open>k\<close> itself was never written, a read of \<open>k\<close> returns at every revision the value
  of \<open>k @ t\<close>, under the name \<open>k\<close>. The range scanned for a key contains the versions of its
  extensions, and the loop over the entries does not compare the user key.\<close>

theorem mvcc_get_reads_longer_key:
  assumes "lsm_mvcc_ok w s h" and "has_room k" and "\<forall>u r. h u r \<noteq> None \<longrightarrow> u = k @ t"
  shows "get_at_revision (lsm_engine w) s k q = Some (Inr (Option.bind (newest (h (k @ t)) q) (to_key_value k)))"
proof -
  have pre: "lsm_inv w (ms_engine s)" "lsm_view w (ms_engine s) = stored_as h" "history_ok (ms_revision s) h"
    using assms(1) by (simp_all add: lsm_mvcc_ok_def mvcc_ok_def)
  have "encode_key_prefix_start k \<le> encode_key_prefix_end k" using own_versions_in_range [OF assms(2), of 0] by simp
  from lsm_store.scan_view [OF pre(1) this] obtain es where
    es: "en_scan (lsm_engine w) (ms_engine s) (encode_key_prefix_start k) (encode_key_prefix_end k) = Some (Inr es)" "sorted_map es"
      "map_of es = within (encode_key_prefix_start (k @ t)) (encode_key_prefix_end (k @ t)) (stored_as h)"
    unfolding pre(2) extension_scan [OF assms(2) pre(3) assms(3)] by blast
  have "apart h (k @ t)" using assms(2,3) by (auto simp: apart_def has_room_def)
  from scanned_versions [OF es(2,3) pre(3) this] obtain vs where vs: "es = map (\<lambda>(r, vv). (encode_key (k @ t) r, vv_encode vv)) vs"
    "sorted_wrt (\<lambda>a b. b < a) (map fst vs)" "map_of vs = h (k @ t)" "\<forall>(r, vv) \<in> set vs. vv_storable vv" .
  have "newest (h (k @ t)) q = map_option snd (find (\<lambda>(r', _). r' \<le> q) vs)" using newest_list [OF vs(2)] vs(3) by simp
  then show ?thesis using es(1) vs(1) first_version_map [OF vs(4)]
    by (cases "find (\<lambda>(r', _). r' \<le> q) vs") (simp_all add: get_at_revision_def)
qed

theorem mvcc_get_reads_longer_key_witness:
  "\<exists>s'. put_with_options (lsm_engine demo_store) demo_mvcc [97, 98] [118] 0 0 = Some (Inr 1, s') \<and>
     mvcc_get (lsm_engine demo_store) s' [97] =
       Some (Inr (Some \<lparr>kv_key = [97], kv_value = [118], kv_create_revision = 1, kv_mod_revision = 1, kv_lease_id = 0\<rparr>))"
proof -
  let ?h = "\<lambda>_ _. None" and ?r = "ms_revision demo_mvcc + 1" and ?k = "[97, 98] :: bytes"
  let ?vv = "put_value ?h ?r ?k [118] 0 0"
  have r: "?r = 1" by (simp add: mvcc_new_def)
  have val: "vv_value ?vv = Some [118]" by (simp add: put_value_def)
  have ap: "apart ?h ?k" by (simp add: apart_def has_room_def)
  note ok = demo_mvcc_ok [unfolded lsm_mvcc_ok_def]
  obtain t' where "en_put (lsm_engine demo_store) (empty_tree lsm_config_default) (encode_key ?k ?r) (vv_encode ?vv) = Some (Inr (), t')"
    using demo_mvcc_put [of "encode_key ?k ?r" "vv_encode ?vv"] val by auto
  then obtain s' where put: "put_with_options (lsm_engine demo_store) demo_mvcc ?k [118] 0 0 = Some (Inr ?r, s')"
    using lsm_store.put_total [OF ok ap refl, of "[118]" 0 0] by (simp add: mvcc_new_def)
  have fits: "lsm_fits demo_store (ms_engine demo_mvcc) (encode_key ?k ?r) (Some (vv_encode ?vv))"
    using demo_mvcc_fits [of "encode_key ?k ?r" "Some (vv_encode ?vv)"] val by (simp add: mvcc_new_def value_len_def)
  let ?h' = "?h(?k := (?h ?k)(?r \<mapsto> ?vv))"
  have "lsm_mvcc_ok demo_store s' ?h'"
    using lsm_store.put_history(3) [OF ok ap _ refl _ fits put] by (simp add: lsm_mvcc_ok_def mvcc_new_def)
  then have "get_at_revision (lsm_engine demo_store) s' [97] (- 1) = Some (Inr (Option.bind (newest (?h' ([97] @ [98])) (- 1)) (to_key_value [97])))"
    by (rule mvcc_get_reads_longer_key) (auto simp: has_room_def split: if_splits)
  moreover have "newest (?h' ?k) (- 1) = Some ?vv" using newest_update [of "?h ?k" ?r ?vv "- 1"] by simp
  ultimately show ?thesis using put unfolding mvcc_get_def r by (simp add: to_key_value_def put_value_def newest_def)
qed



end
