(* ===== verification/Mvcc_Scan.thy ===== *)
theory Mvcc_Scan
  imports Mvcc_View
begin

text \<open>
  Range scans of the multi-version store. In a store whose keys are not prefixes of one another the internal
  keys are ordered by user key and, within a key, by descending revision, and a scan lists the newest
  version of every key of the range.
\<close>

section \<open>The order of internal keys\<close>

definition prefix_free :: "history \<Rightarrow> bool" where
  "prefix_free h \<longleftrightarrow> (\<forall>u r u' r'. h u r \<noteq> None \<longrightarrow> h u' r' \<noteq> None \<longrightarrow> u = u' \<or> u \<parallel> u')"

lemma parallel_less: "u \<parallel> u' \<Longrightarrow> u @ xs < u' @ ys \<longleftrightarrow> u < (u' :: bytes)"
  using parallel_decomp [of u u'] by fastforce

lemma encode_key_less_parallel: "u \<parallel> u' \<Longrightarrow> encode_key u r < encode_key u' r' \<longleftrightarrow> u < u'"
  by (simp add: encode_key_def parallel_less)

lemma zeros_le_long: "n \<le> length xs \<Longrightarrow> replicate n 0 \<le> (xs :: bytes)"
proof (induction n arbitrary: xs)
  case (Suc n)
  then obtain x ys where "xs = x # ys" by (cases xs) auto
  then show ?case using Suc by (cases "x = 0") (auto simp: word_gt_0)
qed simp

lemma start_le:
  assumes "a \<le> u" and "8 \<le> length xs"
  shows "encode_key_prefix_start a \<le> u @ xs"
proof (cases "a \<parallel> u")
  case True
  then have "a < u" using assms(1) by (metis le_less parallel_def prefix_order.refl)
  then show ?thesis unfolding prefix_start_zeros using parallel_less [OF True, of "replicate 8 0" xs] by simp
next
  case False
  have "\<not> prefix u a \<or> u = a"
  proof (rule ccontr)
    assume "\<not> (\<not> prefix u a \<or> u = a)"
    then obtain t where "a = u @ t" "t \<noteq> []" by (auto simp: prefix_def)
    then have "u < a" by (metis less_same_prefix append_Nil2 Nil_less_Cons list.exhaust)
    then show False using assms(1) by simp
  qed
  then obtain t where "u = a @ t" using False by (auto simp: parallel_def prefix_def)
  moreover have "replicate 8 0 \<le> t @ xs" using assms(2) by (intro zeros_le_long) simp
  ultimately show ?thesis unfolding prefix_start_zeros by (auto simp: le_less)
qed

lemma key_less_prefix_end: "has_room b \<Longrightarrow> b @ xs < encode_key_prefix_end b"
proof -
  assume "has_room b"
  then obtain p e j where b: "b = p @ e # replicate j 0xFF" "e < 0xFF" "increment_bytes b = p @ (e + 1) # replicate j 0"
    using increment_split by blast
  have "e < e + 1" using byte_succ [OF b(2)] by (simp add: word_less_nat_alt)
  then show ?thesis by (simp add: encode_key_prefix_end_def b(3)) (simp add: b(1))
qed

lemma version_in_scan_range:
  assumes "a \<le> u" and "u < b" and "\<not> prefix u b" and "has_room b"
  shows "encode_key_prefix_start a \<le> encode_key u r" and "encode_key u r < encode_key_prefix_end b"
proof -
  show "encode_key_prefix_start a \<le> encode_key u r" unfolding encode_key_def by (rule start_le [OF assms(1)]) simp
  have "\<not> prefix b u"
  proof
    assume "prefix b u"
    then obtain t where "u = b @ t" by (auto simp: prefix_def)
    then have "b \<le> u" by (cases t) (auto simp: le_less intro: less_same_prefix [THEN iffD2, of "[]", simplified])
    then show False using assms(2) by simp
  qed
  then have "u \<parallel> b" using assms(3) by (simp add: parallel_def)
  then have "encode_key u r < b @ []" unfolding encode_key_def using parallel_less [of u b _ "[]"] assms(2) by simp
  then show "encode_key u r < encode_key_prefix_end b" using key_less_prefix_end [OF assms(4), of "[]"] by (rule less_trans)
qed

section \<open>The loop\<close>

type_synonym version_entry = "bytes \<times> 64 word \<times> versioned_value"

definition raw_entry :: "version_entry \<Rightarrow> bytes \<times> bytes" where
  "raw_entry x = (case x of (u, r, vv) \<Rightarrow> (encode_key u r, vv_encode vv))"

lemma raw_entry_simp [simp]: "raw_entry (u, r, vv) = (encode_key u r, vv_encode vv)"
  by (simp add: raw_entry_def)

definition before :: "version_entry \<Rightarrow> version_entry \<Rightarrow> bool" where
  "before x y \<longleftrightarrow> fst x < fst y \<or> fst x = fst y \<and> fst (snd y) < fst (snd x)"

definition versions_of :: "bytes \<Rightarrow> version_entry list \<Rightarrow> (64 word \<times> versioned_value) list" where
  "versions_of u ds = map snd (filter (\<lambda>x. fst x = u) ds)"

lemma versions_of_Cons: "versions_of u (x # ds) = (if fst x = u then snd x # versions_of u ds else versions_of u ds)"
  by (simp add: versions_of_def)

lemma versions_of_sorted: "sorted_wrt before ds \<Longrightarrow> sorted_wrt (\<lambda>a b. b < a) (map fst (versions_of u ds))"
  by (induction ds) (auto simp: versions_of_def before_def)

lemma versions_of_none: "\<forall>x \<in> set ds. u < fst x \<Longrightarrow> versions_of u ds = []"
  by (auto simp: versions_of_def filter_empty_conv)

lemma newest_Nil [simp]: "newest (map_of []) q = None" "newest Map.empty q = None"
  by (simp_all add: newest_def)

lemma newest_versions_Cons:
  assumes "sorted_wrt before ((u, r, vv) # ds)"
  shows "newest (map_of (versions_of u' ((u, r, vv) # ds))) q =
    (if u' = u \<and> r \<le> q then Some vv else newest (map_of (versions_of u' ds)) q)"
proof -
  have "sorted_wrt (\<lambda>a b. b < a) (map fst (versions_of u' ((u, r, vv) # ds)))" "sorted_wrt (\<lambda>a b. b < a) (map fst (versions_of u' ds))"
    using versions_of_sorted [OF assms, of u'] versions_of_sorted [of ds u'] assms by simp_all
  note n = newest_list [OF this(1), of q] newest_list [OF this(2), of q]
  show ?thesis unfolding n by (simp add: versions_of_Cons)
qed

lemma to_key_value_key: "to_key_value u vv = Some kv \<Longrightarrow> kv_key kv = u"
  by (auto simp: to_key_value_def)

lemma ex_split_key:
  "(\<exists>u v. (if u = u0 then v = v0 else P u v) \<and> A u \<and> B u \<and> Q u v) \<longleftrightarrow>
    (A u0 \<and> B u0 \<and> Q u0 v0) \<or> (\<exists>u v. Some u0 \<noteq> Some u \<and> P u v \<and> A u \<and> B u \<and> Q u v)"
  by auto

lemma scan_versions_newest:
  assumes "sorted_wrt before ds" and "\<forall>(u, r, vv) \<in> set ds. vv_storable vv" and "\<And>l. last_key = Some l \<Longrightarrow> \<forall>x \<in> set ds. l \<le> fst x"
  shows "\<exists>res. scan_versions a b q last_key (map raw_entry ds) = Some res \<and> sorted_wrt (<) (map kv_key res) \<and>
    (\<forall>kv. kv \<in> set res \<longleftrightarrow> (\<exists>u vv. last_key \<noteq> Some u \<and> newest (map_of (versions_of u ds)) q = Some vv \<and> a \<le> u \<and> u < b \<and>
       to_key_value u vv = Some kv))"
  using assms
proof (induction ds arbitrary: last_key)
  case Nil
  then show ?case by (simp add: versions_of_def)
next
  case (Cons x ds)
  obtain u0 r0 vv0 where x: "x = (u0, r0, vv0)" by (cases x)
  have srt: "sorted_wrt before ds" and st: "\<forall>(u, r, vv) \<in> set ds. vv_storable vv" "vv_storable vv0"
    using Cons.prems(1,2) by (simp_all add: x)
  have "\<forall>y \<in> set ds. before x y" using Cons.prems(1) by simp
  then have le: "\<forall>y \<in> set ds. u0 \<le> fst y" by (auto simp: x before_def)
  note nw = newest_versions_Cons [OF Cons.prems(1) [unfolded x]]
  show ?case
  proof (cases "last_key = Some u0 \<or> r0 > q")
    case True
    have "\<And>l. last_key = Some l \<Longrightarrow> \<forall>x \<in> set ds. l \<le> fst x" using Cons.prems(3) by simp
    from Cons.IH [OF srt st(1) this] obtain res where res: "scan_versions a b q last_key (map raw_entry ds) = Some res"
      "sorted_wrt (<) (map kv_key res)" "\<And>kv. kv \<in> set res \<longleftrightarrow> (\<exists>u vv. last_key \<noteq> Some u \<and>
         newest (map_of (versions_of u ds)) q = Some vv \<and> a \<le> u \<and> u < b \<and> to_key_value u vv = Some kv)"
      by blast
    have same: "newest (map_of (versions_of u (x # ds))) q = newest (map_of (versions_of u ds)) q" if "last_key \<noteq> Some u" for u
      using True nw [of u q] that by (auto simp: x)
    have "scan_versions a b q last_key (map raw_entry (x # ds)) = Some res" using True res(1) by (simp add: x)
    moreover have "kv \<in> set res \<longleftrightarrow> (\<exists>u vv. last_key \<noteq> Some u \<and> newest (map_of (versions_of u (x # ds))) q = Some vv \<and> a \<le> u \<and> u < b \<and>
       to_key_value u vv = Some kv)" for kv
      unfolding res(3) using same by metis
    ultimately show ?thesis using res(2) by blast
  next
    case False
    then have f: "last_key \<noteq> Some u0" "r0 \<le> q" by auto
    from Cons.IH [OF srt st(1), of "Some u0"] le obtain res where res: "scan_versions a b q (Some u0) (map raw_entry ds) = Some res"
      "sorted_wrt (<) (map kv_key res)" "\<And>kv. kv \<in> set res \<longleftrightarrow> (\<exists>u vv. Some u0 \<noteq> Some u \<and>
         newest (map_of (versions_of u ds)) q = Some vv \<and> a \<le> u \<and> u < b \<and> to_key_value u vv = Some kv)"
      by auto
    have later: "u0 < u" if "newest (map_of (versions_of u ds)) q = Some vv" "u \<noteq> u0" for u vv
    proof (rule ccontr)
      assume "\<not> u0 < u"
      then have "\<forall>y \<in> set ds. u < fst y" using le that(2) by force
      then show False using that(1) by (simp add: versions_of_none)
    qed
    have here: "last_key \<noteq> Some u \<and> newest (map_of (versions_of u (x # ds))) q = Some vv \<longleftrightarrow>
        (if u = u0 then vv = vv0 else newest (map_of (versions_of u ds)) q = Some vv)" for u vv
    proof (cases "u = u0")
      case True
      then show ?thesis using f nw [of u q] by (auto simp: x)
    next
      case ne: False
      have "last_key \<noteq> Some u" if "newest (map_of (versions_of u ds)) q = Some vv"
        using later [OF that ne] Cons.prems(3) [of u] by (auto simp: x)
      then show ?thesis using ne nw [of u q] by (auto simp: x)
    qed
    let ?kv0 = "case to_key_value u0 vv0 of Some kv \<Rightarrow> if a \<le> u0 \<and> u0 < b then [kv] else [] | None \<Rightarrow> []"
    have A: "scan_versions a b q last_key (map raw_entry (x # ds)) = Some (?kv0 @ res)"
      using f st(2) res(1) by (auto simp: x vv_decode_encode split: option.split)
    have "u0 < kv_key kv" if kv: "kv \<in> set res" for kv
    proof -
      from res(3) [THEN iffD1, OF kv] obtain u vv
        where "u0 \<noteq> u" "newest (map_of (versions_of u ds)) q = Some vv" "to_key_value u vv = Some kv"
        by (elim exE conjE) simp
      then show ?thesis using later [of u vv] to_key_value_key [of u vv kv] by simp
    qed
    then have B: "sorted_wrt (<) (map kv_key (?kv0 @ res))"
      using res(2) by (auto simp: sorted_wrt_append to_key_value_key split: option.split)
    have C: "kv \<in> set (?kv0 @ res) \<longleftrightarrow> (\<exists>u vv. last_key \<noteq> Some u \<and> newest (map_of (versions_of u (x # ds))) q = Some vv \<and>
        a \<le> u \<and> u < b \<and> to_key_value u vv = Some kv)" for kv
    proof -
      have "(\<exists>u vv. last_key \<noteq> Some u \<and> newest (map_of (versions_of u (x # ds))) q = Some vv \<and> a \<le> u \<and> u < b \<and> to_key_value u vv = Some kv) \<longleftrightarrow>
          (\<exists>u vv. (if u = u0 then vv = vv0 else newest (map_of (versions_of u ds)) q = Some vv) \<and> a \<le> u \<and> u < b \<and> to_key_value u vv = Some kv)"
        unfolding here [symmetric] by blast
      also have "\<dots> \<longleftrightarrow> (a \<le> u0 \<and> u0 < b \<and> to_key_value u0 vv0 = Some kv) \<or> kv \<in> set res"
        unfolding res(3) by (rule ex_split_key)
      also have "\<dots> \<longleftrightarrow> kv \<in> set (?kv0 @ res)" by (auto split: option.split)
      finally show ?thesis by (rule sym)
    qed
    have D: "\<forall>kv. kv \<in> set (?kv0 @ res) \<longleftrightarrow> (\<exists>u vv. last_key \<noteq> Some u \<and> newest (map_of (versions_of u (x # ds))) q = Some vv \<and>
        a \<le> u \<and> u < b \<and> to_key_value u vv = Some kv)" by (rule allI) (rule C)
    show ?thesis by (rule exI, rule conjI, rule A, rule conjI, rule B, rule D)
  qed
qed

section \<open>The entries of a scan\<close>

text \<open>What an engine returns for a range are the versions whose internal keys lie in it, by key and then newest
  first.\<close>

lemma before_iff:
  assumes "prefix_free h" and "h u r = Some vv" and "h u' r' = Some vv'" and "encode_key u r < encode_key u' r'"
  shows "before (u, r, vv) (u', r', vv')"
proof (cases "u = u'")
  case True
  then show ?thesis using assms(4) encode_key_less by (simp add: before_def)
next
  case False
  then have "u \<parallel> u'" using assms(1-3) unfolding prefix_free_def by (metis option.distinct(1))
  then show ?thesis using assms(4) by (simp add: before_def encode_key_less_parallel)
qed

lemma scanned_entries:
  assumes es: "sorted_map es" "map_of es = within lo hi (stored_as h)" and h: "history_ok revision h" "prefix_free h"
  obtains ds where "es = map raw_entry ds" and "sorted_wrt before ds"
    and "\<And>u r vv. (u, r, vv) \<in> set ds \<longleftrightarrow> h u r = Some vv \<and> lo \<le> encode_key u r \<and> encode_key u r < hi"
proof -
  have entry: "(x, y) \<in> set es \<longleftrightarrow> (\<exists>u r vv. x = encode_key u r \<and> y = vv_encode vv \<and> h u r = Some vv \<and> lo \<le> x \<and> x < hi)" for x y
  proof -
    have "(x, y) \<in> set es \<longleftrightarrow> stored_as h x = Some y \<and> lo \<le> x \<and> x < hi"
      using map_of_eq_Some_iff [OF sorted_map_distinct [OF es(1)], of x y] unfolding es(2) by (auto simp: within_def split: if_splits)
    moreover have "stored_as h x = Some y \<longleftrightarrow> (\<exists>u r vv. x = encode_key u r \<and> y = vv_encode vv \<and> h u r = Some vv)"
      using encode_decode_key [of x] by (auto simp: stored_as_def split: option.splits)
    ultimately show ?thesis by blast
  qed
  define dec where "dec = (\<lambda>(x, y). (fst (the (decode_key x)), snd (the (decode_key x)), the (vv_decode y)))"
  have inverse: "dec (encode_key u r, vv_encode vv) = (u, r, vv)" if "h u r = Some vv" for u r vv
    using that h(1) by (simp add: dec_def history_ok_def vv_decode_encode)
  let ?ds = "map dec es"
  have same: "es = map raw_entry ?ds"
    unfolding map_map by (rule map_idI [symmetric]) (use entry inverse in \<open>force\<close>)
  have mem: "(u, r, vv) \<in> set ?ds \<longleftrightarrow> h u r = Some vv \<and> lo \<le> encode_key u r \<and> encode_key u r < hi" for u r vv
  proof
    assume "(u, r, vv) \<in> set ?ds"
    then obtain x y where xy: "(x, y) \<in> set es" "(u, r, vv) = dec (x, y)" by auto
    from xy(1) [unfolded entry] obtain u' r' vv' where e: "x = encode_key u' r'" "y = vv_encode vv'" "h u' r' = Some vv'" "lo \<le> x" "x < hi"
      by (elim exE conjE)
    then show "h u r = Some vv \<and> lo \<le> encode_key u r \<and> encode_key u r < hi" using xy(2) inverse [OF e(3)] by simp
  next
    assume a: "h u r = Some vv \<and> lo \<le> encode_key u r \<and> encode_key u r < hi"
    then have "(encode_key u r, vv_encode vv) \<in> set es" unfolding entry by (intro exI [of _ u] exI [of _ r] exI [of _ vv]) simp
    then have "dec (encode_key u r, vv_encode vv) \<in> set ?ds" by simp
    then show "(u, r, vv) \<in> set ?ds" using inverse a by simp
  qed
  have "sorted_wrt (<) (map fst es)" using es(1) by (simp add: sorted_map_def)
  then have "sorted_wrt (\<lambda>x y. fst (raw_entry x) < fst (raw_entry y)) ?ds"
    by (subst (asm) same) (simp add: sorted_wrt_map)
  then have "sorted_wrt before ?ds"
  proof (rule sorted_wrt_mono_rel [rotated])
    fix x y assume xy: "x \<in> set ?ds" "y \<in> set ?ds" "fst (raw_entry x) < fst (raw_entry y)"
    obtain u r vv u' r' vv' where "x = (u, r, vv)" "y = (u', r', vv')" by (metis prod_cases3)
    then show "before x y" using xy mem [of u r vv] mem [of u' r' vv'] before_iff [OF h(2), of u r vv u' r' vv'] by simp
  qed
  from that [OF same this mem] show thesis .
qed

lemma versions_of_history:
  assumes "sorted_wrt before ds" and "\<And>r vv. (u, r, vv) \<in> set ds \<longleftrightarrow> h u r = Some vv"
  shows "map_of (versions_of u ds) = h u"
proof
  fix r
  have "distinct (map fst (versions_of u ds))"
    using strict_sorted_iff [of "rev (map fst (versions_of u ds))"] versions_of_sorted [OF assms(1), of u]
    by (simp add: sorted_wrt_rev)
  moreover have "(r, vv) \<in> set (versions_of u ds) \<longleftrightarrow> h u r = Some vv" for vv
    unfolding assms(2) [symmetric] by (force simp: versions_of_def)
  ultimately have "map_of (versions_of u ds) r = Some vv \<longleftrightarrow> h u r = Some vv" for vv by simp
  then show "map_of (versions_of u ds) r = h u r" by (metis not_Some_eq)
qed

section \<open>Scans of the store\<close>

context storage_engine
begin

lemma scan_range:
  assumes "inv (ms_engine s)" and "view (ms_engine s) = stored_as h" and h: "history_ok revision h" "prefix_free h"
    and b: "has_room b" "a \<le> b" "\<forall>u r. h u r \<noteq> None \<longrightarrow> \<not> strict_prefix u b"
  shows "\<exists>res. scan_at_revision eng s a b q = Some (Inr res) \<and> sorted_wrt (<) (map kv_key res) \<and>
    (\<forall>kv. kv \<in> set res \<longleftrightarrow> (\<exists>u vv. newest (h u) q = Some vv \<and> a \<le> u \<and> u < b \<and> to_key_value u vv = Some kv))"
proof -
  let ?lo = "encode_key_prefix_start a" and ?hi = "encode_key_prefix_end b"
  have "?lo \<le> b @ replicate 8 0" by (rule start_le [OF b(2)]) simp
  also have "\<dots> < ?hi" by (rule key_less_prefix_end [OF b(1)])
  finally have "?lo \<le> ?hi" by simp
  from scan_view [OF assms(1) this] obtain es where
    es: "en_scan eng (ms_engine s) ?lo ?hi = Some (Inr es)" "sorted_map es" "map_of es = within ?lo ?hi (stored_as h)"
    unfolding assms(2) by blast
  from scanned_entries [OF es(2,3) h] obtain ds where ds: "es = map raw_entry ds" "sorted_wrt before ds"
    "\<And>u r vv. (u, r, vv) \<in> set ds \<longleftrightarrow> h u r = Some vv \<and> ?lo \<le> encode_key u r \<and> encode_key u r < ?hi" by blast
  have st: "\<forall>(u, r, vv) \<in> set ds. vv_storable vv" using ds(3) h(1) unfolding history_ok_def by fast
  from scan_versions_newest [OF ds(2) st, of None, simplified, of a b q] obtain res where
    res: "scan_versions a b q None (map raw_entry ds) = Some res" "sorted_wrt (<) (map kv_key res)"
      "\<forall>kv. kv \<in> set res \<longleftrightarrow> (\<exists>u vv. newest (map_of (versions_of u ds)) q = Some vv \<and> a \<le> u \<and> u < b \<and>
         to_key_value u vv = Some kv)" by (elim exE conjE)
  have vs: "map_of (versions_of u ds) = h u" if "a \<le> u" "u < b" for u
  proof (rule versions_of_history [OF ds(2)])
    fix r vv
    have "?lo \<le> encode_key u r \<and> encode_key u r < ?hi" if "h u r = Some vv"
      using version_in_scan_range [OF \<open>a \<le> u\<close> \<open>u < b\<close> _ b(1), of r] b(3) that \<open>u < b\<close> by (auto simp: strict_prefix_def)
    then show "(u, r, vv) \<in> set ds \<longleftrightarrow> h u r = Some vv" unfolding ds(3) by blast
  qed
  have "scan_at_revision eng s a b q = Some (Inr res)" using es(1) res(1) ds(1) by (simp add: scan_at_revision_def)
  moreover have "kv \<in> set res \<longleftrightarrow> (\<exists>u vv. newest (h u) q = Some vv \<and> a \<le> u \<and> u < b \<and> to_key_value u vv = Some kv)" for kv
    unfolding res(3) [rule_format] by (intro ex_cong1) (use vs in force)
  ultimately show ?thesis using res(2) by (intro exI [of _ res] conjI allI)
qed

end


text \<open>A store with one version of one key.\<close>

abbreviation demo_value :: versioned_value where
  "demo_value \<equiv> \<lparr>vv_value = Some [118], vv_create_revision = 1, vv_mod_revision = 1, vv_lease_id = 7, vv_ttl_seconds = 0\<rparr>"

definition demo_history :: history where
  "demo_history = (\<lambda>_ _. None)([107] := [1 \<mapsto> demo_value])"

lemma demo_one_put:
  "\<exists>s'. put_with_options (lsm_engine demo_store) demo_mvcc [107] [118] 7 0 = Some (Inr 1, s') \<and>
     lsm_mvcc_ok demo_store s' demo_history \<and> ms_revision s' = 1"
proof -
  let ?r = "ms_revision demo_mvcc + 1"
  let ?vv = "put_value (\<lambda>_ _. None) ?r [107] [118] 7 0"
  note ok = demo_mvcc_ok [unfolded lsm_mvcc_ok_def]
  have r: "?r = 1" and vv: "put_value (\<lambda>_ _. None) 1 [107] [118] 7 0 = demo_value" by (simp_all add: mvcc_new_def put_value_def newest_def)
  obtain t' where "en_put (lsm_engine demo_store) (empty_tree lsm_config_default) (encode_key [107] ?r) (vv_encode ?vv) = Some (Inr (), t')"
    using demo_mvcc_put [of "encode_key [107] ?r" "vv_encode ?vv"] by (auto simp: put_value_def)
  then obtain s' where put: "put_with_options (lsm_engine demo_store) demo_mvcc [107] [118] 7 0 = Some (Inr ?r, s')"
    using lsm_store.put_total [OF ok demo_apart refl, of "[118]" 7 0] by (simp add: mvcc_new_def)
  have "lsm_fits demo_store (ms_engine demo_mvcc) (encode_key [107] ?r) (Some (vv_encode ?vv))"
    using demo_mvcc_fits [of "encode_key [107] ?r" "Some (vv_encode ?vv)"] by (simp add: mvcc_new_def value_len_def put_value_def)
  from lsm_store.put_history(2,3) [OF ok demo_apart _ refl _ this put] show ?thesis
    using put unfolding r vv by (simp add: lsm_mvcc_ok_def demo_history_def)
qed


end
