(* ===== verification/Engine_Room.thy ===== *)
theory Engine_Room
  imports Engine
begin

text \<open>
  Batches of writes: an engine with a bound on what it holds, so that room for a batch is room for each of its
  writes, and a condition under which writes succeed. The LSM tree provides both: its counters and offsets
  bound the number of entries and bytes, and without input and output faults every write succeeds.
\<close>

section \<open>The contract\<close>

text \<open>An entry whose record fits the write-ahead log.\<close>

definition small_entry :: "bytes \<Rightarrow> bytes \<Rightarrow> bool" where
  "small_entry k v \<longleftrightarrow> length k + length v + 9 \<le> MAX_RECORD"

locale bounded_engine = write_once_engine +
  fixes room :: "'a \<Rightarrow> nat \<Rightarrow> nat \<Rightarrow> bool" and reliable :: "'a \<Rightarrow> bool"
  assumes room_mono: "room s c n \<Longrightarrow> c' \<le> c \<Longrightarrow> n' \<le> n \<Longrightarrow> room s c' n'"
    and room_fits: "room s 1 (length k + length v) \<Longrightarrow> small_entry k v \<Longrightarrow> fits s k (Some v)"
    and room_put: "inv s \<Longrightarrow> small_entry k v \<Longrightarrow> room s (Suc c) (length k + length v + n) \<Longrightarrow>
      en_put eng s k v = Some (Inr u, s') \<Longrightarrow> room s' c n"
    and reliable_put: "inv s \<Longrightarrow> reliable s \<Longrightarrow> small_entry k v \<Longrightarrow> room s 1 (length k + length v) \<Longrightarrow>
      \<exists>s'. en_put eng s k v = Some (Inr (), s') \<and> reliable s'"
begin

lemma room_first: "room s (Suc c) (length k + length v + n) \<Longrightarrow> room s 1 (length k + length v)"
  by (erule room_mono) simp_all

lemma room_put_fresh:
  assumes "inv s" and "once s" and "k \<notin> used s" and "small_entry k v" and "room s (Suc c) (length k + length v + n)"
    and "en_put eng s k v = Some (Inr u, s')"
  shows "inv s'" and "once s'" and "used s' \<subseteq> insert k (used s)" and "view s' = (view s)(k \<mapsto> v)" and "room s' c n"
  using put_fresh [OF assms(1-3) room_fits [OF room_first [OF assms(5)] assms(4)] assms(6)] room_put [OF assms(1,4,5,6)]
  by simp_all

end

section \<open>The LSM tree keeps the contract\<close>

definition lsm_reliable :: "lsm_env \<Rightarrow> lsm_tree \<Rightarrow> bool" where
  "lsm_reliable w t \<longleftrightarrow> faultless w \<and> config_ok (lt_config t) \<and> num_levels (lt_manifest t) = NUM_LEVELS"

lemma small_valid: "small_entry k v \<longleftrightarrow> valid_op (WalPut k v)"
  by (simp add: small_entry_def valid_op_def add.commute)

lemma small_storable: "small_entry k v \<Longrightarrow> storable (k, Some v)"
  using valid_op_storable [of "WalPut k v"] by (simp add: small_valid)

lemma lsm_reliable_put:
  assumes "lsm_inv w t" and "lsm_reliable w t" and "small_entry k v" and "lsm_room w t 1 (length k + length v)"
  shows "\<exists>t'. lsm_put w t k v = Some (Inr (), t') \<and> lsm_reliable w t'"
proof -
  have inv: "sst_env_ok (le_sst w)" "wf_lsm w t" and rel: "faultless w" "config_ok (lt_config t)" "num_levels (lt_manifest t) = NUM_LEVELS"
    using assms(1,2) by (simp_all add: lsm_inv_def lsm_reliable_def)
  have room: "lsm_room w t 1 (entry_bytes (op_entry (WalPut k v)))" using assms(4) by (simp add: entry_bytes_def value_len_def)
  obtain t' where t': "lsm_apply w t (WalPut k v) = Some (Inr (), t')" "num_levels (lt_manifest t') = NUM_LEVELS"
    using lsm_apply_succeeds [OF inv assms(3) [unfolded small_valid] room rel] by blast
  have "lt_config t' = lt_config t"
    using write_ok(3) [OF inv small_storable [OF assms(3)] _ lsm_put_steps [OF inv(2)]] t'(1) room by simp
  then show ?thesis using t' rel by (simp add: lsm_reliable_def)
qed

interpretation lsm_bounded: bounded_engine "lsm_engine w" "lsm_inv w" "lsm_view w" "lsm_fits w" "lsm_safe w" "lsm_once w" "lsm_used w"
  "lsm_room w" "lsm_reliable w" for w
proof
  fix s :: lsm_tree and k v u s' c n c' n'
  show "lsm_room w s c n \<Longrightarrow> c' \<le> c \<Longrightarrow> n' \<le> n \<Longrightarrow> lsm_room w s c' n'"
    by (simp add: lsm_room_def)
  show fits: "lsm_room w s 1 (length k + length v) \<Longrightarrow> small_entry k v \<Longrightarrow> lsm_fits w s k (Some v)"
    using small_storable by (simp add: lsm_fits_def entry_bytes_def value_len_def)
  show "lsm_inv w s \<Longrightarrow> lsm_reliable w s \<Longrightarrow> small_entry k v \<Longrightarrow> lsm_room w s 1 (length k + length v) \<Longrightarrow>
      \<exists>s'. en_put (lsm_engine w) s k v = Some (Inr (), s') \<and> lsm_reliable w s'"
    using lsm_reliable_put by (simp add: lsm_engine_def)
  assume s: "lsm_inv w s" "small_entry k v" "lsm_room w s (Suc c) (length k + length v + n)" "en_put (lsm_engine w) s k v = Some (Inr u, s')"
  have inv: "sst_env_ok (le_sst w)" "wf_lsm w s" and put: "lsm_put w s k v = Some (Inr u, s')"
    using s(1,4) by (simp_all add: lsm_inv_def lsm_engine_def)
  have "lsm_room w s 1 (entry_bytes (k, Some v))" using s(3) by (simp add: lsm_room_def entry_bytes_def value_len_def)
  note less = write_ok(2) [OF inv small_storable [OF s(2)] this lsm_put_steps [OF inv(2) put]]
  show "lsm_room w s' c n"
    using less [of entry_unit] less [of entry_bytes] s(3) by (simp add: lsm_room_def entry_unit_def entry_bytes_def value_len_def)
qed

end
