(* ===== verification/Transaction.thy ===== *)
theory Transaction
  imports Mvcc_Scan Engine_Room
begin

text \<open>
  Optimistic transactions (\<open>raft-mvcc/src/transaction.rs\<close>) on the multi-version store. The store a
  transaction refers to is passed along. A commit validates the keys that were read and writes
  the buffered values at one revision.
\<close>

section \<open>Transactions\<close>

record transaction =
  tx_start_revision :: "64 word"
  tx_read_set :: "(bytes \<times> 64 word) list"
  tx_write_set :: "(bytes \<times> bytes option) list"

definition txn_begin :: "'s mvcc_store \<Rightarrow> transaction" where
  "txn_begin s = \<lparr>tx_start_revision = ms_revision s, tx_read_set = [], tx_write_set = []\<rparr>"

definition mod_revision_of :: "key_value option \<Rightarrow> 64 word" where
  "mod_revision_of result = (case result of None \<Rightarrow> 0 | Some kv \<Rightarrow> kv_mod_revision kv)"

lemma mod_revision_of_simps [simp]: "mod_revision_of None = 0" "mod_revision_of (Some kv) = kv_mod_revision kv"
  by (simp_all add: mod_revision_of_def)

definition txn_get ::
  "'s engine \<Rightarrow> 's mvcc_store \<Rightarrow> transaction \<Rightarrow> bytes \<Rightarrow> (bytes option result \<times> transaction) option" where
  "txn_get eng s t key =
     (case find (\<lambda>(k, v). k = key) (rev (tx_write_set t)) of
        Some (_, v) \<Rightarrow> Some (Inr v, t)
      | None \<Rightarrow>
          (case get_at_revision eng s key (tx_start_revision t) of
             None \<Rightarrow> None
           | Some (Inl e) \<Rightarrow> Some (Inl e, t)
           | Some (Inr result) \<Rightarrow>
               Some (Inr (map_option kv_value result),
                 t\<lparr>tx_read_set := tx_read_set t @ [(key, mod_revision_of result)]\<rparr>)))"

definition txn_put :: "transaction \<Rightarrow> bytes \<Rightarrow> bytes \<Rightarrow> transaction" where
  "txn_put t key value = t\<lparr>tx_write_set := tx_write_set t @ [(key, Some value)]\<rparr>"

definition txn_delete :: "transaction \<Rightarrow> bytes \<Rightarrow> transaction" where
  "txn_delete t key = t\<lparr>tx_write_set := tx_write_set t @ [(key, None)]\<rparr>"

text \<open>The validation phase of a commit.\<close>

fun validate_reads :: "'s engine \<Rightarrow> 's mvcc_store \<Rightarrow> (bytes \<times> 64 word) list \<Rightarrow> unit result option" where
  "validate_reads eng s [] = Some (Inr ())"
| "validate_reads eng s ((key, read_revision) # read_set) =
     (case mvcc_get eng s key of
        None \<Rightarrow> None
      | Some (Inl e) \<Rightarrow> Some (Inl e)
      | Some (Inr current) \<Rightarrow>
          if mod_revision_of current \<noteq> read_revision then Some (Inl TransactionConflict)
          else validate_reads eng s read_set)"

text \<open>The commit phase.\<close>

definition txn_create_revision ::
  "'s engine \<Rightarrow> 's mvcc_store \<Rightarrow> bytes \<Rightarrow> bytes option \<Rightarrow> 64 word \<Rightarrow> 64 word result option" where
  "txn_create_revision eng s key value commit_revision =
     (if value \<noteq> None then
        (case mvcc_get eng s key of
           None \<Rightarrow> None
         | Some (Inl e) \<Rightarrow> Some (Inl e)
         | Some (Inr (Some kv)) \<Rightarrow> Some (Inr (kv_create_revision kv))
         | Some (Inr None) \<Rightarrow> Some (Inr commit_revision))
      else Some (Inr 0))"

fun apply_writes ::
  "'s engine \<Rightarrow> 's mvcc_store \<Rightarrow> 64 word \<Rightarrow> (bytes \<times> bytes option) list \<Rightarrow> (unit result \<times> 's mvcc_store) option" where
  "apply_writes eng s commit_revision [] = Some (Inr (), s)"
| "apply_writes eng s commit_revision ((key, value) # writes) =
     (case txn_create_revision eng s key value commit_revision of
        None \<Rightarrow> None
      | Some (Inl e) \<Rightarrow> Some (Inl e, s)
      | Some (Inr create_revision) \<Rightarrow>
          (let vv = \<lparr>vv_value = value, vv_create_revision = create_revision, vv_mod_revision = commit_revision,
                     vv_lease_id = 0, vv_ttl_seconds = 0\<rparr>
           in case put_versioned eng s key vv commit_revision of
                None \<Rightarrow> None
              | Some (Inl e, s1) \<Rightarrow> Some (Inl e, s1)
              | Some (Inr _, s1) \<Rightarrow> apply_writes eng s1 commit_revision writes))"

definition txn_commit :: "'s engine \<Rightarrow> 's mvcc_store \<Rightarrow> transaction \<Rightarrow> (64 word result \<times> 's mvcc_store) option" where
  "txn_commit eng s t =
     (if tx_write_set t = [] then Some (Inr (tx_start_revision t), s)
      else
        (case validate_reads eng s (tx_read_set t) of
           None \<Rightarrow> None
         | Some (Inl e) \<Rightarrow> Some (Inl e, s)
         | Some (Inr _) \<Rightarrow>
             (case next_revision s of
                None \<Rightarrow> None
              | Some (commit_revision, s1) \<Rightarrow>
                  (case apply_writes eng s1 commit_revision (tx_write_set t) of
                     None \<Rightarrow> None
                   | Some (Inl e, s2) \<Rightarrow> Some (Inl e, s2)
                   | Some (Inr _, s2) \<Rightarrow> Some (Inr commit_revision, s2)))))"

section \<open>The history after a commit\<close>

definition txn_value :: "history \<Rightarrow> 64 word \<Rightarrow> bytes \<Rightarrow> bytes option \<Rightarrow> versioned_value" where
  "txn_value h r k v = (case v of Some x \<Rightarrow> put_value h r k x 0 0 | None \<Rightarrow> delete_marker r)"

definition committed :: "history \<Rightarrow> 64 word \<Rightarrow> (bytes \<times> bytes option) list \<Rightarrow> history" where
  "committed h r ws k = (case map_of ws k of None \<Rightarrow> h k | Some v \<Rightarrow> (h k)(r \<mapsto> txn_value h r k v))"

text \<open>The bytes that a write takes in the engine.\<close>

definition write_size :: "bytes \<times> bytes option \<Rightarrow> nat" where
  "write_size x = length (fst x) + 8 + (case snd x of Some v \<Rightarrow> length v + 37 | None \<Rightarrow> 33)"

text \<open>Keys that can be written together.\<close>

definition batch_ok :: "history \<Rightarrow> (bytes \<times> bytes option) list \<Rightarrow> bool" where
  "batch_ok h ws \<longleftrightarrow> distinct (map fst ws) \<and> (\<forall>x \<in> set ws. apart h (fst x) \<and> write_size x + 9 \<le> MAX_RECORD) \<and>
     (\<forall>k \<in> fst ` set ws. \<forall>k' \<in> fst ` set ws. k = k' \<or> k \<parallel> k')"

lemma txn_value_simps:
  "vv_mod_revision (txn_value h r k v) = r" "vv_value (txn_value h r k v) = v"
  "length (encode_key k r) + length (vv_encode (txn_value h r k v)) = write_size (k, v)"
  by (cases v; simp add: txn_value_def put_value_def delete_marker_def write_size_def)+

lemma txn_value_storable: "write_size (k, v) + 9 \<le> MAX_RECORD \<Longrightarrow> vv_storable (txn_value h r k v)"
  by (cases v) (simp_all add: txn_value_def put_value_def delete_marker_def write_size_def vv_storable_def MAX_RECORD_def)

lemma committed_Cons:
  "k \<notin> fst ` set ws \<Longrightarrow> committed (h(k := (h k)(r \<mapsto> txn_value h r k v))) r ws = committed h r ((k, v) # ws)"
proof
  fix u assume k: "k \<notin> fst ` set ws"
  then have "map_of ws k = None" by (simp add: map_of_eq_None_iff)
  then show "committed (h(k := (h k)(r \<mapsto> txn_value h r k v))) r ws u = committed h r ((k, v) # ws) u"
    by (auto simp: committed_def txn_value_def put_value_def split: option.split)
qed

context bounded_engine
begin

lemma get_current:
  assumes "mvcc_ok inv view once used s h" and "apart h k"
  shows "get_at_revision eng s k q = Some (Inr (Option.bind (newest (h k) q) (to_key_value k)))"
  using assms(1) by (intro get_newest [where revision = "ms_revision s", OF _ _ _ assms(2)]) (simp_all add: mvcc_ok_def)

lemma create_revision_current:
  assumes "mvcc_ok inv view once used s h" and "apart h k"
  shows "txn_create_revision eng s k v r = Some (Inr (vv_create_revision (txn_value h r k v)))"
  using get_current [OF assms, of "- 1"]
  by (cases v; cases "newest (h k) (- 1)")
    (auto simp: txn_create_revision_def mvcc_get_def txn_value_def put_value_def delete_marker_def to_key_value_def split: option.split)

lemma put_version_room:
  assumes ok: "mvcc_ok inv view once used s h" and r: "ms_revision s = r" "r \<noteq> - 1" and fresh: "encode_key k r \<notin> used (ms_engine s)"
    and size: "write_size (k, v) + 9 \<le> MAX_RECORD" and room: "room (ms_engine s) (Suc c) (write_size (k, v) + n)"
    and rel: "reliable (ms_engine s)"
  shows "\<exists>s'. put_versioned eng s k (txn_value h r k v) r = Some (Inr (), s') \<and>
    mvcc_ok inv view once used s' (h(k := (h k)(r \<mapsto> txn_value h r k v))) \<and> ms_revision s' = r \<and>
    used (ms_engine s') \<subseteq> insert (encode_key k r) (used (ms_engine s)) \<and> room (ms_engine s') c n \<and> reliable (ms_engine s')"
proof -
  let ?vv = "txn_value h r k v"
  have inv: "inv (ms_engine s)" "once (ms_engine s)" using ok by (simp_all add: mvcc_ok_def)
  have small: "small_entry (encode_key k r) (vv_encode ?vv)"
    unfolding small_entry_def txn_value_simps by (rule size)
  note room' = room [folded txn_value_simps(3) [of k r h v]]
  obtain e where e: "en_put eng (ms_engine s) (encode_key k r) (vv_encode ?vv) = Some (Inr (), e)" "reliable e"
    using reliable_put [OF inv(1) rel small room_first [OF room']] by blast
  note new = room_put_fresh [OF inv fresh small room' e(1)]
  have put: "put_versioned eng s k ?vv r = Some (Inr (), s\<lparr>ms_engine := e\<rparr>)" using e(1) by (simp add: put_versioned_def)
  have fits: "fits (ms_engine s) (encode_key k r) (Some (vv_encode ?vv))" by (rule room_fits [OF room_first [OF room'] small])
  have "mvcc_ok inv view once used (s\<lparr>ms_engine := e, ms_revision := r\<rparr>) (h(k := (h k)(r \<mapsto> ?vv)))"
    using put_version(1) [OF ok _ r(2) fresh txn_value_storable [OF size] txn_value_simps(1) fits put] r(1) by simp
  moreover have "s\<lparr>ms_engine := e, ms_revision := r\<rparr> = s\<lparr>ms_engine := e\<rparr>" using r(1) by (cases s) simp
  ultimately show ?thesis using put new(3,5) e(2) r(1) by simp
qed

lemma apply_writes_total:
  "mvcc_ok inv view once used s h \<Longrightarrow> ms_revision s = r \<Longrightarrow> r \<noteq> - 1 \<Longrightarrow> batch_ok h ws \<Longrightarrow>
   \<forall>k \<in> fst ` set ws. encode_key k r \<notin> used (ms_engine s) \<Longrightarrow> reliable (ms_engine s) \<Longrightarrow>
   room (ms_engine s) (length ws) (sum_list (map write_size ws)) \<Longrightarrow>
   \<exists>s'. apply_writes eng s r ws = Some (Inr (), s') \<and> mvcc_ok inv view once used s' (committed h r ws) \<and>
     ms_revision s' = r \<and> reliable (ms_engine s')"
proof (induction ws arbitrary: s h)
  case Nil
  then show ?case by (simp add: committed_def)
next
  case (Cons x ws)
  obtain k v where x: "x = (k, v)" by (cases x)
  let ?h = "h(k := (h k)(r \<mapsto> txn_value h r k v))"
  have k: "apart h k" "write_size (k, v) + 9 \<le> MAX_RECORD" "k \<notin> fst ` set ws"
    using Cons.prems(4) by (auto simp: batch_ok_def x)
  have room: "room (ms_engine s) (Suc (length ws)) (write_size (k, v) + sum_list (map write_size ws))"
    using Cons.prems(7) by (simp add: x)
  obtain s1 where s1: "put_versioned eng s k (txn_value h r k v) r = Some (Inr (), s1)" "mvcc_ok inv view once used s1 ?h" "ms_revision s1 = r"
    "used (ms_engine s1) \<subseteq> insert (encode_key k r) (used (ms_engine s))" "room (ms_engine s1) (length ws) (sum_list (map write_size ws))"
    "reliable (ms_engine s1)"
    using put_version_room [OF Cons.prems(1-3) _ k(2) room Cons.prems(6)] Cons.prems(5) by (auto simp: x)
  have fresh: "\<forall>k' \<in> fst ` set ws. encode_key k' r \<notin> used (ms_engine s1)"
  proof
    fix k' assume k': "k' \<in> fst ` set ws"
    then have "k' \<noteq> k" "encode_key k' r \<notin> used (ms_engine s)" using k(3) Cons.prems(5) by (auto simp: x)
    then show "encode_key k' r \<notin> used (ms_engine s1)" using s1(4) by auto
  qed
  have batch: "batch_ok ?h ws"
    using Cons.prems(4) k(3) by (fastforce simp: batch_ok_def x apart_def)
  have vv: "\<lparr>vv_value = v, vv_create_revision = vv_create_revision (txn_value h r k v), vv_mod_revision = r, vv_lease_id = 0, vv_ttl_seconds = 0\<rparr> = txn_value h r k v"
    by (cases v) (simp_all add: txn_value_def put_value_def delete_marker_def)
  have step: "apply_writes eng s r ((k, v) # ws) = apply_writes eng s1 r ws"
    using create_revision_current [OF Cons.prems(1) k(1), of v r] s1(1) by (simp add: Let_def vv)
  from Cons.IH [OF s1(2,3) Cons.prems(3) batch fresh s1(6,5)] show ?case
    unfolding x step committed_Cons [OF k(3), of h r v] .
qed

lemma later_revision:
  assumes ok: "mvcc_ok inv view once used s h" and r: "ms_revision s \<le> r"
  shows "mvcc_ok inv view once used (s\<lparr>ms_revision := r\<rparr>) h"
proof -
  have h: "history_ok (ms_revision s) h" and u: "\<forall>x \<in> used (ms_engine s). \<exists>k r. x = encode_key k r \<and> r \<le> ms_revision s"
    using ok by (simp_all add: mvcc_ok_def)
  have "history_ok r h" using h order_trans [OF _ r] unfolding history_ok_def by blast
  moreover have "\<forall>x \<in> used (ms_engine s). \<exists>k r'. x = encode_key k r' \<and> r' \<le> r" using u order_trans [OF _ r] by blast
  ultimately show ?thesis using ok by (simp add: mvcc_ok_def)
qed

lemma validate_exact:
  assumes "mvcc_ok inv view once used s h"
  shows "\<forall>x \<in> set rs. apart h (fst x) \<Longrightarrow> validate_reads eng s rs =
    Some (if \<forall>x \<in> set rs. mod_revision_of (Option.bind (newest (h (fst x)) (- 1)) (to_key_value (fst x))) = snd x
      then Inr () else Inl TransactionConflict)"
proof (induction rs)
  case (Cons x rs)
  obtain k rv where x: "x = (k, rv)" by (cases x)
  have "apart h k" using Cons.prems by (simp add: x)
  from get_current [OF assms this, of "- 1"] show ?case using Cons by (simp add: x mvcc_get_def)
qed simp

lemma commit_total:
  assumes ok: "mvcc_ok inv view once used s h" and ws: "tx_write_set t \<noteq> []" "batch_ok h (tx_write_set t)"
    and rs: "\<forall>x \<in> set (tx_read_set t). apart h (fst x)" and r: "ms_revision s \<noteq> - 1" "r = ms_revision s + 1" "r \<noteq> - 1"
    and rel: "reliable (ms_engine s)" and room: "room (ms_engine s) (length (tx_write_set t)) (sum_list (map write_size (tx_write_set t)))"
  shows "if \<forall>x \<in> set (tx_read_set t). mod_revision_of (Option.bind (newest (h (fst x)) (- 1)) (to_key_value (fst x))) = snd x
    then \<exists>s'. txn_commit eng s t = Some (Inr r, s') \<and> mvcc_ok inv view once used s' (committed h r (tx_write_set t)) \<and>
      ms_revision s' = r \<and> reliable (ms_engine s')
    else txn_commit eng s t = Some (Inl TransactionConflict, s)"
proof -
  have lt: "ms_revision s < r" using word_succ_greater [OF r(1)] r(2) by simp
  let ?s = "s\<lparr>ms_revision := r\<rparr>"
  have "\<forall>k \<in> fst ` set (tx_write_set t). encode_key k r \<notin> used (ms_engine ?s)" using newer_fresh [OF ok lt] by simp
  then obtain s' where s': "apply_writes eng ?s r (tx_write_set t) = Some (Inr (), s')"
    "mvcc_ok inv view once used s' (committed h r (tx_write_set t))" "ms_revision s' = r" "reliable (ms_engine s')"
    using apply_writes_total [OF later_revision [OF ok less_imp_le [OF lt]] _ r(3) ws(2)] rel room by auto
  show ?thesis
    using validate_exact [OF ok rs] s' ws(1) r(1,2) by (simp add: txn_commit_def next_revision_def)
qed

lemma reads_after_commit:
  assumes ok: "mvcc_ok inv view once used s h" and ok': "mvcc_ok inv view once used s' (committed h r ws)" and r: "ms_revision s < r"
    and k: "apart h k" "\<forall>k' \<in> fst ` set ws. k' = k \<or> k' \<parallel> k"
  shows "get_at_revision eng s' k q = (case map_of ws k of
      Some v \<Rightarrow> if r \<le> q then Some (Inr (to_key_value k (txn_value h r k v))) else get_at_revision eng s k q
    | None \<Rightarrow> get_at_revision eng s k q)"
proof -
  have "u = k \<or> u \<parallel> k" if "committed h r ws u r' \<noteq> None" for u r'
  proof (cases "map_of ws u")
    case None
    then show ?thesis using that k(1) by (auto simp: committed_def apart_def)
  next
    case (Some v)
    then have "u \<in> fst ` set ws" by (force dest: map_of_SomeD)
    then show ?thesis using k(2) by blast
  qed
  then have "apart (committed h r ws) k" using k(1) unfolding apart_def by blast
  note get = get_current [OF ok' this, of q] get_current [OF ok k(1), of q]
  have "\<forall>r' \<in> dom (h k). r' < r" using ok r unfolding mvcc_ok_def history_ok_def by (meson domD le_less_trans)
  note nw = newest_update [OF this, of _ q]
  show ?thesis by (cases "map_of ws k") (simp_all add: get committed_def nw)
qed

end

section \<open>Properties of transactions over the LSM tree\<close>


lemma demo_revision [simp]: "ms_revision demo_mvcc = 0"
  by (simp add: mvcc_new_def)

lemma default_config: "config_ok lsm_config_default"
  using demo_config by (simp add: config_ok_def demo_store_config_def lsm_config_default_def)

lemma demo_reliable: "lsm_reliable demo_store (ms_engine demo_mvcc)"
  using demo_faultless default_config by (simp add: lsm_reliable_def mvcc_new_def)

lemma demo_batch: "batch_ok (\<lambda>_ _. None) [([107], Some [118])]"
  by (simp add: batch_ok_def apart_def has_room_def write_size_def MAX_RECORD_def)

lemma demo_room: "lsm_room demo_store (ms_engine demo_mvcc) 1 47"
  by (simp add: lsm_room_def mvcc_new_def)

abbreviation demo_txn :: "64 word \<Rightarrow> transaction" where
  "demo_txn rv \<equiv> \<lparr>tx_start_revision = 0, tx_read_set = [([108], rv)], tx_write_set = [([107], Some [118])]\<rparr>"


lemma validated:
  "validate_reads eng s rs = Some (Inr u) \<Longrightarrow> (k, rv) \<in> set rs \<Longrightarrow> \<exists>cur. mvcc_get eng s k = Some (Inr cur) \<and> mod_revision_of cur = rv"
  by (induction rs) (auto split: option.splits sum.splits if_splits)

lemma live_version:
  assumes "Option.bind (newest (g k) q) (to_key_value k) = Some kv" and "history_ok b g"
  shows "\<exists>vv. g k (kv_mod_revision kv) = Some vv \<and> to_key_value k vv = Some kv"
proof -
  obtain vv where vv: "newest (g k) q = Some vv" "to_key_value k vv = Some kv" using assms(1) by (auto simp: bind_eq_Some_conv)
  obtain r where r: "g k r = Some vv" using newest_stored [OF vv(1)] by blast
  then have "vv_mod_revision vv = r" using assms(2) unfolding history_ok_def by blast
  moreover have "kv_mod_revision kv = vv_mod_revision vv" using vv(2) by (auto simp: to_key_value_def)
  ultimately show ?thesis using vv(2) r by auto
qed



end
