(* ===== verification/Mvcc_Gc.thy ===== *)
theory Mvcc_Gc
  imports Transaction
begin

text \<open>
  Garbage collection of old versions (\<open>raft-mvcc/src/gc.rs\<close>) and expiry of keys with a time to live
  (\<open>ttl.rs\<close>). Both scan all internal keys up to 32 bytes \<open>0xFF\<close>; the collector deletes internal keys from
  the engine, the expiry deletes user keys of the store.
\<close>

section \<open>Garbage collection\<close>

definition sweep_start :: bytes where
  "sweep_start = [0]"

definition sweep_end :: bytes where
  "sweep_end = replicate 32 0xFF"

text \<open>The loop over the scanned entries, with the last user key and whether its latest version was seen.\<close>

fun gc_candidates :: "64 word \<Rightarrow> bytes option \<Rightarrow> bool \<Rightarrow> (bytes \<times> bytes) list \<Rightarrow> bytes list option" where
  "gc_candidates min_revision last_user_key seen_latest [] = Some []"
| "gc_candidates min_revision last_user_key seen_latest ((internal_key, _) # entries) =
     (case decode_key internal_key of
        None \<Rightarrow> None
      | Some (user_key, rv) \<Rightarrow>
          (let seen = (if last_user_key \<noteq> Some user_key then False else seen_latest)
           in if \<not> seen then gc_candidates min_revision (Some user_key) True entries
              else if rv < min_revision
                then map_option (\<lambda>to_delete. internal_key # to_delete) (gc_candidates min_revision (Some user_key) True entries)
              else gc_candidates min_revision (Some user_key) True entries))"

fun delete_all :: "'s engine \<Rightarrow> 's \<Rightarrow> bytes list \<Rightarrow> (unit result \<times> 's) option" where
  "delete_all eng e [] = Some (Inr (), e)"
| "delete_all eng e (key # to_delete) =
     (case en_delete eng e key of
        None \<Rightarrow> None
      | Some (Inl err, e1) \<Rightarrow> Some (Inl err, e1)
      | Some (Inr _, e1) \<Rightarrow> delete_all eng e1 to_delete)"

definition gc_collect :: "'s engine \<Rightarrow> 's \<Rightarrow> 64 word \<Rightarrow> (nat result \<times> 's) option" where
  "gc_collect eng e min_revision =
     (case en_scan eng e sweep_start sweep_end of
        None \<Rightarrow> None
      | Some (Inl err) \<Rightarrow> Some (Inl err, e)
      | Some (Inr all_entries) \<Rightarrow>
          (case gc_candidates min_revision None False all_entries of
             None \<Rightarrow> None
           | Some to_delete \<Rightarrow>
               map_option (\<lambda>(r, e1). (case r of Inl err \<Rightarrow> Inl err | Inr _ \<Rightarrow> Inr (length to_delete), e1))
                 (delete_all eng e to_delete)))"

section \<open>Expiry\<close>

text \<open>The sum of two signed numbers of 64 bits is checked.\<close>

definition checked_add :: "64 word \<Rightarrow> 64 word \<Rightarrow> int option" where
  "checked_add a b = (let x = sint a + sint b in if - (2 ^ 63) \<le> x \<and> x < 2 ^ 63 then Some x else None)"

fun expired_keys :: "int \<Rightarrow> bytes option \<Rightarrow> (bytes \<times> bytes) list \<Rightarrow> bytes list option" where
  "expired_keys now_secs last_user_key [] = Some []"
| "expired_keys now_secs last_user_key ((internal_key, raw_value) # entries) =
     (case decode_key internal_key of
        None \<Rightarrow> None
      | Some (user_key, _) \<Rightarrow>
          if last_user_key = Some user_key then expired_keys now_secs last_user_key entries
          else
            (case vv_decode raw_value of
               None \<Rightarrow> None
             | Some vv \<Rightarrow>
                 if vv_value vv \<noteq> None \<and> 0 < sint (vv_ttl_seconds vv) then
                   (case checked_add (vv_mod_revision vv) (vv_ttl_seconds vv) of
                      None \<Rightarrow> None
                    | Some expiry \<Rightarrow>
                        if expiry \<le> now_secs
                        then map_option (\<lambda>expired. user_key # expired) (expired_keys now_secs (Some user_key) entries)
                        else expired_keys now_secs (Some user_key) entries)
                 else expired_keys now_secs (Some user_key) entries))"

fun delete_expired :: "'s engine \<Rightarrow> 's mvcc_store \<Rightarrow> bytes list \<Rightarrow> (unit result \<times> 's mvcc_store) option" where
  "delete_expired eng s [] = Some (Inr (), s)"
| "delete_expired eng s (key # expired) =
     (case mvcc_delete eng s key of
        None \<Rightarrow> None
      | Some (Inl err, s1) \<Rightarrow> Some (Inl err, s1)
      | Some (Inr _, s1) \<Rightarrow> delete_expired eng s1 expired)"

definition sweep_expired :: "'s engine \<Rightarrow> 's mvcc_store \<Rightarrow> int \<Rightarrow> (nat result \<times> 's mvcc_store) option" where
  "sweep_expired eng s now_secs =
     (case en_scan eng (ms_engine s) sweep_start sweep_end of
        None \<Rightarrow> None
      | Some (Inl err) \<Rightarrow> Some (Inl err, s)
      | Some (Inr all_entries) \<Rightarrow>
          (case expired_keys now_secs None all_entries of
             None \<Rightarrow> None
           | Some expired \<Rightarrow>
               map_option (\<lambda>(r, s1). (case r of Inl err \<Rightarrow> Inl err | Inr _ \<Rightarrow> Inr (length expired), s1))
                 (delete_expired eng s expired)))"

section \<open>What is collected\<close>

definition superseded :: "version_entry list \<Rightarrow> version_entry \<Rightarrow> bool" where
  "superseded ds x \<longleftrightarrow> (\<exists>y \<in> set ds. fst y = fst x \<and> fst (snd x) < fst (snd y))"

lemma candidates_exact:
  assumes "sorted_wrt before (ps @ ds)"
  shows "gc_candidates m (if ps = [] then None else Some (fst (last ps))) (ps \<noteq> []) (map raw_entry ds) =
    Some (map (\<lambda>x. encode_key (fst x) (fst (snd x))) (filter (\<lambda>x. fst (snd x) < m \<and> superseded (ps @ ds) x) ds))"
  using assms
proof (induction ds arbitrary: ps)
  case (Cons x ds)
  obtain u r vv where x: "x = (u, r, vv)" by (cases x)
  have srt: "sorted_wrt before ((ps @ [x]) @ ds)" using Cons.prems by simp
  have IH: "gc_candidates m (Some u) True (map raw_entry ds) =
    Some (map (\<lambda>y. encode_key (fst y) (fst (snd y))) (filter (\<lambda>y. fst (snd y) < m \<and> superseded (ps @ x # ds) y) ds))"
    using Cons.IH [OF srt] by (simp add: x)
  have "superseded (ps @ x # ds) x \<longleftrightarrow> (\<exists>y \<in> set ps. fst y = u)"
    using Cons.prems by (fastforce simp: superseded_def x sorted_wrt_append before_def)
  also have "\<dots> \<longleftrightarrow> ps \<noteq> [] \<and> fst (last ps) = u"
  proof
    assume "\<exists>y \<in> set ps. fst y = u"
    then obtain y where y: "y \<in> set ps" "fst y = u" by blast
    obtain qs z where ps: "ps = qs @ [z]" using y(1) by (cases ps rule: rev_cases) auto
    have "before z x" "y = z \<or> before y z" using Cons.prems y(1) by (auto simp: ps sorted_wrt_append)
    then show "ps \<noteq> [] \<and> fst (last ps) = u" using y(2) by (auto simp: ps before_def x)
  next
    assume "ps \<noteq> [] \<and> fst (last ps) = u"
    then show "\<exists>y \<in> set ps. fst y = u" using last_in_set by blast
  qed
  finally have seen: "superseded (ps @ x # ds) x \<longleftrightarrow> ps \<noteq> [] \<and> fst (last ps) = u" .
  show ?case by (cases "ps \<noteq> [] \<and> fst (last ps) = u") (auto simp: x Let_def IH [unfolded x] seen [unfolded x])
qed simp

text \<open>The versions that are removed, and the history that is left.\<close>

definition garbage :: "64 word \<Rightarrow> history \<Rightarrow> (bytes \<times> 64 word) set" where
  "garbage m h = {(u, r). h u r \<noteq> None \<and> r < m \<and> (\<exists>r'. r < r' \<and> h u r' \<noteq> None)}"

definition collected :: "64 word \<Rightarrow> history \<Rightarrow> history" where
  "collected m h u r = (if (u, r) \<in> garbage m h then None else h u r)"

lemma collected_sub: "collected m h u r = Some vv \<Longrightarrow> h u r = Some vv"
  by (simp add: collected_def split: if_splits)

lemma newest_is_latest:
  assumes h: "history_ok revision h" and vv: "h k M = Some vv"
  shows "newest (h k) (- 1) = Some vv \<longleftrightarrow> \<not> (\<exists>r'. M < r' \<and> h k r' \<noteq> None)"
proof
  have ne: "dom (h k) \<noteq> {}" and rev: "vv_mod_revision vv = M" using vv h unfolding history_ok_def by blast+
  {
    assume "newest (h k) (- 1) = Some vv"
    then have "h k (Max (dom (h k))) = Some vv" using ne by (simp add: newest_top)
    then have "Max (dom (h k)) = M" using h rev unfolding history_ok_def by metis
    then have "r' \<le> M" if "h k r' \<noteq> None" for r' using Max_ge [OF finite, of r' "dom (h k)"] that by auto
    then show "\<not> (\<exists>r'. M < r' \<and> h k r' \<noteq> None)" using not_less by blast
  next
    assume "\<not> (\<exists>r'. M < r' \<and> h k r' \<noteq> None)"
    then have "Max (dom (h k)) = M" using vv by (intro Max_eqI) (auto simp: not_less)
    then show "newest (h k) (- 1) = Some vv" using ne vv by (simp add: newest_top)
  }
qed

lemma newest_collected:
  assumes h: "history_ok revision h"
  shows "newest (collected m h k) q =
    (case newest (h k) q of
       None \<Rightarrow> None
     | Some vv \<Rightarrow> if vv_mod_revision vv < m \<and> newest (h k) (- 1) \<noteq> Some vv then None else Some vv)"
proof (cases "{r \<in> dom (h k). r \<le> q} = {}")
  case True
  then have "{r \<in> dom (collected m h k). r \<le> q} = {}" using collected_sub [of m h k] by blast
  then show ?thesis using True by (simp add: newest_def)
next
  case False
  let ?rs = "{r \<in> dom (h k). r \<le> q}" and ?cs = "{r \<in> dom (collected m h k). r \<le> q}"
  define M where "M = Max ?rs"
  have M: "M \<in> ?rs" "\<And>r. r \<in> ?rs \<Longrightarrow> r \<le> M"
    unfolding M_def by (rule Max_in [OF finite False], rule Max_ge [OF finite])
  from M(1) obtain vv where vv: "h k M = Some vv" by blast
  then have nw: "newest (h k) q = Some vv" and rev: "vv_mod_revision vv = M"
    using False h by (auto simp: newest_def Let_def history_ok_def M_def [symmetric])
  have latest: "newest (h k) (- 1) \<noteq> Some vv \<longleftrightarrow> (\<exists>r'. M < r' \<and> h k r' \<noteq> None)"
    using newest_is_latest [OF h vv] by blast
  show ?thesis
  proof (cases "M < m \<and> (\<exists>r'. M < r' \<and> h k r' \<noteq> None)")
    case True
    then obtain r' where r': "M < r'" "h k r' \<noteq> None" by blast
    have "collected m h k r = None" if "r \<le> q" for r
    proof (cases "h k r")
      case (Some v)
      then have "r \<le> M" using M(2) \<open>r \<le> q\<close> by blast
      then have "r < m" "r < r'" using True r'(1) by (auto intro: le_less_trans)
      then show ?thesis using r'(2) by (auto simp: collected_def garbage_def)
    qed (simp add: collected_def)
    then have "?cs = {}" by auto
    then have "newest (collected m h k) q = None" by (simp add: newest_def)
    moreover have "vv_mod_revision vv < m \<and> newest (h k) (- 1) \<noteq> Some vv" using True by (simp add: rev latest)
    ultimately show ?thesis by (simp add: nw)
  next
    case keep: False
    then have c: "collected m h k M = Some vv" using vv by (simp add: collected_def garbage_def)
    have "Max ?cs = M"
    proof (rule Max_eqI [OF finite])
      fix r assume "r \<in> ?cs"
      then have "r \<in> ?rs" using collected_sub [of m h k r] by auto
      then show "r \<le> M" by (rule M(2))
    qed (use c M(1) in auto)
    moreover have "?cs \<noteq> {}" using c M(1) by blast
    ultimately have "newest (collected m h k) q = Some vv" using c by (simp add: newest_def Let_def)
    moreover have "\<not> (vv_mod_revision vv < m \<and> newest (h k) (- 1) \<noteq> Some vv)" using keep by (simp add: rev latest)
    ultimately show ?thesis by (simp add: nw)
  qed
qed

text \<open>Deleting internal keys one after another; each deletion must keep the other keys.\<close>

fun deletes_safe ::
  "'s engine \<Rightarrow> ('s \<Rightarrow> bytes \<Rightarrow> bytes option \<Rightarrow> bool) \<Rightarrow> ('s \<Rightarrow> bytes \<Rightarrow> bytes option \<Rightarrow> bool) \<Rightarrow> 's \<Rightarrow> bytes list \<Rightarrow> bool" where
  "deletes_safe eng fits safe e [] = True"
| "deletes_safe eng fits safe e (key # keys) =
     (fits e key None \<and> safe e key None \<and>
      (case en_delete eng e key of Some (Inr _, e1) \<Rightarrow> deletes_safe eng fits safe e1 keys | _ \<Rightarrow> True))"

lemma first_byte: "[0] \<le> encode_key u r"
  using zeros_le_long [of 1 "encode_key u r"] by simp

context storage_engine
begin

lemma delete_all_view:
  "inv e \<Longrightarrow> deletes_safe eng fits safe e keys \<Longrightarrow> delete_all eng e keys = Some (Inr u, e') \<Longrightarrow>
     inv e' \<and> view e' = (\<lambda>x. if x \<in> set keys then None else view e x)"
proof (induction keys arbitrary: e)
  case (Cons k keys)
  obtain e1 u1 where e1: "en_delete eng e k = Some (Inr u1, e1)" "delete_all eng e1 keys = Some (Inr u, e')"
    using Cons.prems(3) by (auto split: option.splits sum.splits)
  have "inv e1" "view e1 = (view e)(k := None)"
    using delete_view [OF Cons.prems(1) _ _ e1(1)] Cons.prems(2) by simp_all
  then show ?case using Cons.IH [of e1] Cons.prems(2) e1 by (simp add: fun_eq_iff)
qed simp

lemma collect_keys:
  assumes e: "inv e" "view e = stored_as h" and h: "history_ok revision h" "prefix_free h"
    and range: "\<forall>u r. h u r \<noteq> None \<longrightarrow> encode_key u r < sweep_end"
  obtains es keys where "en_scan eng e sweep_start sweep_end = Some (Inr es)" and "gc_candidates m None False es = Some keys"
    and "distinct keys" and "set keys = (\<lambda>(u, r). encode_key u r) ` garbage m h"
proof -
  have "sweep_start \<le> sweep_end" by (simp add: sweep_start_def sweep_end_def numeral_eq_Suc)
  from scan_view [OF e(1) this] obtain es where es: "en_scan eng e sweep_start sweep_end = Some (Inr es)" "sorted_map es"
    "map_of es = within sweep_start sweep_end (stored_as h)" unfolding e(2) by blast
  from scanned_entries [OF es(2,3) h] obtain ds where ds: "es = map raw_entry ds" "sorted_wrt before ds"
    "\<And>u r vv. (u, r, vv) \<in> set ds \<longleftrightarrow> h u r = Some vv \<and> sweep_start \<le> encode_key u r \<and> encode_key u r < sweep_end" by blast
  have mem: "(u, r, vv) \<in> set ds \<longleftrightarrow> h u r = Some vv" for u r vv
    unfolding ds(3) using range first_byte by (auto simp: sweep_start_def)
  define keys where "keys = map (\<lambda>x. encode_key (fst x) (fst (snd x))) (filter (\<lambda>x. fst (snd x) < m \<and> superseded ds x) ds)"
  have cand: "gc_candidates m None False es = Some keys"
    using candidates_exact [of "[]" ds m] ds(1,2) by (simp add: keys_def)
  have "map fst es = map (\<lambda>x. encode_key (fst x) (fst (snd x))) ds" by (simp add: ds(1) raw_entry_def case_prod_beta')
  then have "distinct keys" using sorted_map_distinct [OF es(2)] by (simp add: keys_def distinct_map_filter)
  moreover have sup: "superseded ds (u, r, vv) \<longleftrightarrow> (\<exists>r'. r < r' \<and> h u r' \<noteq> None)" for u r vv
  proof
    assume "superseded ds (u, r, vv)"
    then obtain r' vv' where "(u, r', vv') \<in> set ds" "r < r'" by (force simp: superseded_def)
    then show "\<exists>r'. r < r' \<and> h u r' \<noteq> None" using mem by auto
  next
    assume "\<exists>r'. r < r' \<and> h u r' \<noteq> None"
    then obtain r' vv' where "r < r'" "(u, r', vv') \<in> set ds" using mem by auto
    then show "superseded ds (u, r, vv)" unfolding superseded_def by (intro bexI [of _ "(u, r', vv')"]) simp_all
  qed
  have "x \<in> set keys \<longleftrightarrow> x \<in> (\<lambda>(u, r). encode_key u r) ` garbage m h" for x
  proof -
    have "x \<in> set keys \<longleftrightarrow> (\<exists>u r vv. x = encode_key u r \<and> (u, r, vv) \<in> set ds \<and> r < m \<and> superseded ds (u, r, vv))"
      unfolding keys_def set_map set_filter image_iff Bex_def split_paired_Ex by (simp del: encode_key_inject) blast
    then show ?thesis unfolding sup mem by (auto simp: garbage_def image_iff)
  qed
  ultimately show thesis using that [OF es(1) cand] by blast
qed

lemma collect_history:
  assumes e: "inv e" "view e = stored_as h" and h: "history_ok revision h" "prefix_free h"
    and range: "\<forall>u r. h u r \<noteq> None \<longrightarrow> encode_key u r < sweep_end"
    and safe: "\<forall>keys. distinct keys \<and> set keys = (\<lambda>(u, r). encode_key u r) ` garbage m h \<longrightarrow> deletes_safe eng fits safe e keys"
    and gc: "gc_collect eng e m = Some (Inr n, e')"
  shows "inv e'" and "view e' = stored_as (collected m h)" and "history_ok revision (collected m h)" and "n = card (garbage m h)"
proof -
  obtain es keys where k: "en_scan eng e sweep_start sweep_end = Some (Inr es)" "gc_candidates m None False es = Some keys"
    "distinct keys" "set keys = (\<lambda>(u, r). encode_key u r) ` garbage m h"
    using collect_keys [OF e h range] .
  obtain u where del: "delete_all eng e keys = Some (Inr u, e')" and n: "n = length keys"
    using gc k(1,2) by (cases "delete_all eng e keys") (auto simp: gc_collect_def split: sum.splits)
  note d = delete_all_view [OF e(1) safe [rule_format, OF conjI, OF k(3,4)] del]
  have "stored_as (collected m h) x = (if x \<in> set keys then None else stored_as h x)" for x
  proof (cases "decode_key x")
    case None
    then have "x \<notin> set keys" by (auto simp: k(4))
    then show ?thesis using None by (simp add: stored_as_def)
  next
    case (Some y)
    then obtain u r where "x = encode_key u r" using encode_decode_key [of x] by (cases y) auto
    then show ?thesis unfolding k(4) by (auto simp: collected_def)
  qed
  then show "inv e'" "view e' = stored_as (collected m h)" using d by (simp_all add: e(2) fun_eq_iff)
  show "history_ok revision (collected m h)" using h(1) collected_sub [of m h] unfolding history_ok_def by blast
  have "inj_on (\<lambda>(u, r). encode_key u r) (garbage m h)" by (auto intro!: inj_onI)
  then show "n = card (garbage m h)" using n distinct_card [OF k(3)] k(4) by (simp add: card_image)
qed

lemma collect_reads:
  assumes ok: "inv e" "view e = stored_as h" "history_ok revision h"
    and new: "inv e'" "view e' = stored_as (collected m h)" "history_ok revision (collected m h)" and k: "apart h k"
  shows "get_at_revision eng (s\<lparr>ms_engine := e'\<rparr>) k q =
    (case newest (h k) q of
       Some vv \<Rightarrow> if vv_mod_revision vv < m \<and> newest (h k) (- 1) \<noteq> Some vv then Some (Inr None)
                  else get_at_revision eng (s\<lparr>ms_engine := e\<rparr>) k q
     | None \<Rightarrow> get_at_revision eng (s\<lparr>ms_engine := e\<rparr>) k q)"
proof -
  have "apart (collected m h) k" using k collected_sub [of m h] unfolding apart_def by blast
  then have "get_at_revision eng (s\<lparr>ms_engine := e'\<rparr>) k q = Some (Inr (Option.bind (newest (collected m h k) q) (to_key_value k)))"
    using new by (intro get_newest [where revision = revision]) simp_all
  moreover have "get_at_revision eng (s\<lparr>ms_engine := e\<rparr>) k q = Some (Inr (Option.bind (newest (h k) q) (to_key_value k)))"
    using ok k by (intro get_newest [where revision = revision]) simp_all
  ultimately show ?thesis using newest_collected [OF ok(3), of m k q] by (simp split: option.split)
qed

end

section \<open>Properties over the LSM tree\<close>

text \<open>Deletions on a tree whose level 0 stays below the trigger of compaction.\<close>

lemma lsm_deletes:
  assumes "sst_env_ok (le_sst w)"
  shows "lsm_inv w e \<Longrightarrow> lsm_reliable w e \<Longrightarrow> \<forall>k \<in> set keys. valid_op (WalDelete k) \<Longrightarrow>
    level_count (lt_manifest e) 0 + length keys < lc_l0_compaction_trigger (lt_config e) \<Longrightarrow>
    lsm_room w e (length keys) (sum_list (map length keys)) \<Longrightarrow>
    deletes_safe (lsm_engine w) (lsm_fits w) (lsm_safe w) e keys \<and> (\<exists>e'. delete_all (lsm_engine w) e keys = Some (Inr (), e'))"
proof (induction keys arbitrary: e)
  case (Cons k keys)
  have wf: "wf_lsm w e" and rel: "faultless w" "config_ok (lt_config e)" "num_levels (lt_manifest e) = NUM_LEVELS"
    using Cons.prems(1,2) by (simp_all add: lsm_inv_def lsm_reliable_def)
  have op: "valid_op (WalDelete k)" and st: "storable (k, None)"
    using Cons.prems(3) valid_op_storable [of "WalDelete k"] by simp_all
  have room: "lsm_room w e 1 (entry_bytes (k, None))"
    using Cons.prems(5) by (simp add: lsm_room_def entry_bytes_def value_len_def)
  obtain e1 where e1: "lsm_delete w e k = Some (Inr (), e1)" "num_levels (lt_manifest e1) = NUM_LEVELS"
    using lsm_apply_succeeds [OF assms wf op _ rel] room by auto
  note ok = write_ok [OF assms wf st room lsm_delete_steps [OF e1(1)]]
  have "lsm_room w e1 (length keys) (sum_list (map length keys))"
    using ok(2) [of entry_unit] ok(2) [of entry_bytes] Cons.prems(5)
    by (simp add: lsm_room_def entry_unit_def entry_bytes_def value_len_def)
  moreover have "lsm_inv w e1" "lsm_reliable w e1" using ok(1,3) e1(2) rel assms by (simp_all add: lsm_inv_def lsm_reliable_def)
  moreover have "level_count (lt_manifest e1) 0 + length keys < lc_l0_compaction_trigger (lt_config e1)"
    using ok(3,6) Cons.prems(4) by simp
  ultimately have "deletes_safe (lsm_engine w) (lsm_fits w) (lsm_safe w) e1 keys \<and> (\<exists>e'. delete_all (lsm_engine w) e1 keys = Some (Inr (), e'))"
    using Cons.IH [of e1] Cons.prems(3) by simp
  moreover have "lsm_safe w e k None" using Cons.prems(4) by (simp add: lsm_safe_def flush_safe_def)
  moreover have "lsm_fits w e k None" using st room by (simp add: lsm_fits_def)
  ultimately show ?case using e1(1) by (simp add: lsm_engine_def)
qed simp


text \<open>A store with two versions of one key.\<close>

definition demo_first :: history where
  "demo_first = (\<lambda>_ _. None)([107] := [1 \<mapsto> txn_value (\<lambda>_ _. None) 1 [107] (Some [118])])"

definition demo_second :: history where
  "demo_second = demo_first([107] := (demo_first [107])(2 \<mapsto> txn_value demo_first 2 [107] (Some [119])))"

lemma lsm_put_level:
  assumes "lsm_inv w (ms_engine s)" and "put_versioned (lsm_engine w) s k vv r = Some (Inr u, s')"
    and "small_entry (encode_key k r) (vv_encode vv)" and "lsm_room w (ms_engine s) 1 (length (encode_key k r) + length (vv_encode vv))"
  shows "level_count (lt_manifest (ms_engine s')) 0 \<le> Suc (level_count (lt_manifest (ms_engine s)) 0)"
    and "lt_config (ms_engine s') = lt_config (ms_engine s)"
proof -
  have inv: "sst_env_ok (le_sst w)" "wf_lsm w (ms_engine s)" using assms(1) by (simp_all add: lsm_inv_def)
  obtain e where e: "lsm_put w (ms_engine s) (encode_key k r) (vv_encode vv) = Some (Inr u, e)" "s' = s\<lparr>ms_engine := e\<rparr>"
    using assms(2) by (auto simp: put_versioned_def lsm_engine_def)
  have "lsm_room w (ms_engine s) 1 (entry_bytes (encode_key k r, Some (vv_encode vv)))"
    using assms(4) by (simp add: entry_bytes_def value_len_def)
  note ok = write_ok(3,6) [OF inv small_storable [OF assms(3)] this lsm_put_steps [OF inv(2) e(1)]]
  show "level_count (lt_manifest (ms_engine s')) 0 \<le> Suc (level_count (lt_manifest (ms_engine s)) 0)"
    "lt_config (ms_engine s') = lt_config (ms_engine s)" using ok e(2) by simp_all
qed

text \<open>One more version of the demonstration key.\<close>

definition demo_state :: "nat \<Rightarrow> nat \<Rightarrow> lsm_tree mvcc_store \<Rightarrow> history \<Rightarrow> bool" where
  "demo_state c n s h \<longleftrightarrow> lsm_mvcc_ok demo_store s h \<and> lsm_reliable demo_store (ms_engine s) \<and>
     lsm_room demo_store (ms_engine s) c (47 * c) \<and> level_count (lt_manifest (ms_engine s)) 0 \<le> n \<and>
     lt_config (ms_engine s) = lsm_config_default"

lemma demo_step:
  assumes "demo_state (Suc c) n s h" and "ms_revision s < r" and "r \<noteq> - 1"
  shows "\<exists>s'. demo_state c (Suc n) s' (h([107] := (h [107])(r \<mapsto> txn_value h r [107] (Some [x])))) \<and> ms_revision s' = r"
proof -
  let ?s = "s\<lparr>ms_revision := r\<rparr>" and ?w = "([107], Some [x]) :: bytes \<times> bytes option"
  have ok: "lsm_mvcc_ok demo_store s h" and rel: "lsm_reliable demo_store (ms_engine s)"
    and room: "lsm_room demo_store (ms_engine s) (Suc c) (47 * Suc c)"
    and lvl: "level_count (lt_manifest (ms_engine s)) 0 \<le> n" and cfg: "lt_config (ms_engine s) = lsm_config_default"
    using assms(1) by (simp_all add: demo_state_def)
  have sz: "write_size ?w = 47" by (simp add: write_size_def)
  note ok' = ok [unfolded lsm_mvcc_ok_def]
  obtain s' where s': "put_versioned (lsm_engine demo_store) ?s [107] (txn_value h r [107] (Some [x])) r = Some (Inr (), s')"
    "lsm_mvcc_ok demo_store s' (h([107] := (h [107])(r \<mapsto> txn_value h r [107] (Some [x]))))" "ms_revision s' = r"
    "lsm_room demo_store (ms_engine s') c (47 * c)" "lsm_reliable demo_store (ms_engine s')"
    using lsm_bounded.put_version_room [OF lsm_bounded.later_revision [OF ok' less_imp_le [OF assms(2)]], of r "[107]" "Some [x]" c "47 * c"]
      lsm_store.newer_fresh [OF ok' assms(2), of "[107]"] assms(3) rel room sz
    by (auto simp: lsm_mvcc_ok_def MAX_RECORD_def)
  have inv: "lsm_inv demo_store (ms_engine ?s)" using ok' by (simp add: mvcc_ok_def)
  have len: "length (encode_key [107] r) + length (vv_encode (txn_value h r [107] (Some [x]))) = 47"
    using txn_value_simps(3) [of "[107]" r h "Some [x]"] sz by simp
  have "small_entry (encode_key [107] r) (vv_encode (txn_value h r [107] (Some [x])))"
    unfolding small_entry_def len by (simp add: MAX_RECORD_def)
  moreover have "lsm_room demo_store (ms_engine ?s) 1 47" using room by (simp add: lsm_room_def)
  ultimately have "level_count (lt_manifest (ms_engine s')) 0 \<le> Suc n" "lt_config (ms_engine s') = lsm_config_default"
    using lsm_put_level [OF inv s'(1)] lvl cfg unfolding len by simp_all
  then show ?thesis using s' by (auto simp: demo_state_def)
qed

lemma demo_two: "\<exists>s. demo_state 1 (Suc (Suc 0)) s demo_second \<and> ms_revision s = 2"
proof -
  have "demo_state (Suc (Suc 1)) 0 demo_mvcc (\<lambda>_ _. None)"
    using demo_mvcc_ok demo_reliable by (simp add: demo_state_def lsm_room_def mvcc_new_def)
  from demo_step [OF this, of 1 118] obtain s1 where "demo_state (Suc 1) (Suc 0) s1 demo_first" "ms_revision s1 = 1"
    by (auto simp: demo_first_def)
  from demo_step [OF this(1), of 2 119] this(2) show ?thesis
    by (simp add: demo_second_def)
qed

lemma demo_second_simps:
  "demo_second u r = (if u = [107] \<and> r = 1 then Some (txn_value (\<lambda>_ _. None) 1 [107] (Some [118]))
     else if u = [107] \<and> r = 2 then Some (txn_value demo_first 2 [107] (Some [119])) else None)"
  by (simp add: demo_second_def demo_first_def)

lemma demo_garbage: "garbage 2 demo_second = {([107], 1)}"
proof -
  have "(1 :: 64 word) < 2" by simp
  then show ?thesis by (auto simp: garbage_def demo_second_simps intro!: exI [of _ 2] split: if_splits)
qed

lemma demo_prefix_free: "prefix_free demo_second"
  by (auto simp: prefix_free_def demo_second_simps split: if_splits)

lemma demo_in_range: "\<forall>u r. demo_second u r \<noteq> None \<longrightarrow> encode_key u r < sweep_end"
proof -
  have first: "sweep_end = 0xFF # replicate 31 0xFF" by (simp add: sweep_end_def flip: replicate_Suc)
  have "encode_key [107] r < sweep_end" for r unfolding first encode_key_def by simp
  then show ?thesis by (auto simp: demo_second_simps split: if_splits)
qed

lemma demo_newest:
  "newest (demo_second [107]) q = (if 2 \<le> q then Some (txn_value demo_first 2 [107] (Some [119]))
     else if 1 \<le> q then Some (txn_value (\<lambda>_ _. None) 1 [107] (Some [118])) else None)"
proof -
  have "newest (demo_second [107]) q = (if 2 \<le> q then Some (txn_value demo_first 2 [107] (Some [119])) else newest (demo_first [107]) q)"
    unfolding demo_second_def fun_upd_same by (rule newest_update) (simp add: demo_first_def)
  moreover have "newest (demo_first [107]) q = (if 1 \<le> q then Some (txn_value (\<lambda>_ _. None) 1 [107] (Some [118])) else newest Map.empty q)"
    unfolding demo_first_def fun_upd_same by (rule newest_update) simp
  ultimately show ?thesis by simp
qed

lemma distinct_singleton: "distinct xs \<Longrightarrow> set xs = {x} \<Longrightarrow> xs = [x]"
  by (cases xs; cases "tl xs") auto


end
