(* ===== verification/Lease.thy ===== *)
theory Lease
  imports Raft_Prelude
begin

text \<open>
  Leases (\<open>raft-server/src/lease.rs\<close>) and the handlers of the lease service (\<open>lease_service.rs\<close>). An
  \<open>i64\<close> is a 64-bit word read with \<open>sint\<close>; an \<open>Instant\<close> is a number of nanoseconds and the current one
  is an argument. The hash map of leases is an association list, and the hash set of a lease's keys a list
  without repetitions: the order of either is one iteration order. \<open>None\<close> is a panic.
\<close>

section \<open>One lease\<close>

type_synonym lease_id = "64 word"

record lease =
  ls_id :: lease_id
  ls_granted_ttl :: "64 word"
  ls_last_renewed :: instant
  ls_keys :: "bytes list"

definition lease_new :: "instant \<Rightarrow> lease_id \<Rightarrow> 64 word \<Rightarrow> lease" where
  "lease_new now lease_id ttl = \<lparr>ls_id = lease_id, ls_granted_ttl = ttl, ls_last_renewed = now, ls_keys = []\<rparr>"

text \<open>\<open>elapsed()\<close> is zero if the clock reads less than the instant; the seconds of a \<open>Duration\<close> are cast from
  \<open>u64\<close> to \<open>i64\<close>.\<close>

definition remaining_ttl :: "instant \<Rightarrow> lease \<Rightarrow> int" where
  "remaining_ttl now l =
     (let elapsed = sint (of_nat ((now - ls_last_renewed l) div 10 ^ 9) :: 64 word)
      in max (sint (ls_granted_ttl l) - elapsed) 0)"

definition is_expired :: "instant \<Rightarrow> lease \<Rightarrow> bool" where
  "is_expired now l \<longleftrightarrow> remaining_ttl now l = 0"

definition renew :: "instant \<Rightarrow> lease \<Rightarrow> lease" where
  "renew now l = l\<lparr>ls_last_renewed := now\<rparr>"

definition lease_attach_key :: "bytes \<Rightarrow> lease \<Rightarrow> lease" where
  "lease_attach_key key l = (if key \<in> set (ls_keys l) then l else l\<lparr>ls_keys := ls_keys l @ [key]\<rparr>)"

definition lease_detach_key :: "bytes \<Rightarrow> lease \<Rightarrow> lease" where
  "lease_detach_key key l = l\<lparr>ls_keys := removeAll key (ls_keys l)\<rparr>"

section \<open>The manager\<close>

datatype lease_error = LeaseNotFound lease_id | LeaseAlreadyExists lease_id | LeaseExpired lease_id | InvalidTtl

record lease_info =
  li_id :: lease_id
  li_ttl :: int
  li_granted_ttl :: "64 word"
  li_keys :: "bytes list"

record lease_manager =
  lm_leases :: "(lease_id \<times> lease) list"
  lm_next_id :: lease_id

definition lease_manager_new :: lease_manager where
  "lease_manager_new = \<lparr>lm_leases = [], lm_next_id = 1\<rparr>"

definition lookup_lease :: "lease_manager \<Rightarrow> lease_id \<Rightarrow> lease option" where
  "lookup_lease m lease_id = map_of (lm_leases m) lease_id"

definition store_lease :: "lease \<Rightarrow> lease_id \<Rightarrow> lease_manager \<Rightarrow> lease_manager" where
  "store_lease l lease_id m = m\<lparr>lm_leases := AList.update lease_id l (lm_leases m)\<rparr>"

definition remove_lease :: "lease_id \<Rightarrow> lease_manager \<Rightarrow> lease_manager" where
  "remove_lease lease_id m = m\<lparr>lm_leases := AList.delete lease_id (lm_leases m)\<rparr>"

text \<open>\<open>fetch_add\<close> wraps; \<open>id + 1\<close> is checked.\<close>

definition lease_grant ::
  "instant \<Rightarrow> lease_manager \<Rightarrow> lease_id \<Rightarrow> 64 word \<Rightarrow> ((lease_error + lease_id \<times> 64 word) \<times> lease_manager) option" where
  "lease_grant now m lease_id ttl =
     (if sint ttl \<le> 0 then Some (Inl InvalidTtl, m)
      else if lease_id = 0 then
        (let new_id = lm_next_id m
         in Some (Inr (new_id, ttl), store_lease (lease_new now new_id ttl) new_id (m\<lparr>lm_next_id := lm_next_id m + 1\<rparr>)))
      else if lookup_lease m lease_id \<noteq> None then Some (Inl (LeaseAlreadyExists lease_id), m)
      else if sint lease_id = 2 ^ 63 - 1 then None
      else Some (Inr (lease_id, ttl), store_lease (lease_new now lease_id ttl) lease_id
             (m\<lparr>lm_next_id := (if sint (lm_next_id m) < sint lease_id + 1 then lease_id + 1 else lm_next_id m)\<rparr>)))"

definition keepalive :: "instant \<Rightarrow> lease_manager \<Rightarrow> lease_id \<Rightarrow> (lease_error + 64 word) \<times> lease_manager" where
  "keepalive now m lease_id =
     (case lookup_lease m lease_id of
        None \<Rightarrow> (Inl (LeaseNotFound lease_id), m)
      | Some l \<Rightarrow>
          if is_expired now l then (Inl (LeaseExpired lease_id), m)
          else (Inr (ls_granted_ttl l), store_lease (renew now l) lease_id m))"

definition lease_revoke :: "lease_manager \<Rightarrow> lease_id \<Rightarrow> (lease_error + bytes list) \<times> lease_manager" where
  "lease_revoke m lease_id =
     (case lookup_lease m lease_id of
        None \<Rightarrow> (Inl (LeaseNotFound lease_id), m)
      | Some l \<Rightarrow> (Inr (ls_keys l), remove_lease lease_id m))"

definition lease_get :: "instant \<Rightarrow> lease_manager \<Rightarrow> lease_id \<Rightarrow> lease_error + lease_info" where
  "lease_get now m lease_id =
     (case lookup_lease m lease_id of
        None \<Rightarrow> Inl (LeaseNotFound lease_id)
      | Some l \<Rightarrow> Inr \<lparr>li_id = ls_id l, li_ttl = remaining_ttl now l, li_granted_ttl = ls_granted_ttl l, li_keys = ls_keys l\<rparr>)"

definition attach_key :: "lease_manager \<Rightarrow> lease_id \<Rightarrow> bytes \<Rightarrow> (lease_error + unit) \<times> lease_manager" where
  "attach_key m lease_id key =
     (case lookup_lease m lease_id of
        None \<Rightarrow> (Inl (LeaseNotFound lease_id), m)
      | Some l \<Rightarrow> (Inr (), store_lease (lease_attach_key key l) lease_id m))"

definition detach_key :: "lease_manager \<Rightarrow> lease_id \<Rightarrow> bytes \<Rightarrow> lease_manager" where
  "detach_key m lease_id key =
     (case lookup_lease m lease_id of
        None \<Rightarrow> m
      | Some l \<Rightarrow> store_lease (lease_detach_key key l) lease_id m)"

text \<open>The loop of \<open>collect_expired\<close> over the identifiers of expired leases.\<close>

fun take_leases :: "lease_manager \<Rightarrow> lease_id list \<Rightarrow> (lease_id \<times> bytes list) list \<times> lease_manager" where
  "take_leases m [] = ([], m)"
| "take_leases m (lease_id # ids) =
     (case lookup_lease m lease_id of
        None \<Rightarrow> take_leases m ids
      | Some l \<Rightarrow>
          (case take_leases (remove_lease lease_id m) ids of
             (expired, m') \<Rightarrow> ((lease_id, ls_keys l) # expired, m')))"

definition collect_expired :: "instant \<Rightarrow> lease_manager \<Rightarrow> (lease_id \<times> bytes list) list \<times> lease_manager" where
  "collect_expired now m =
     take_leases m (map fst (filter (\<lambda>(_, l). is_expired now l) (lm_leases m)))"

definition lease_count :: "lease_manager \<Rightarrow> nat" where
  "lease_count m = length (lm_leases m)"

definition lease_is_alive :: "instant \<Rightarrow> lease_manager \<Rightarrow> lease_id \<Rightarrow> bool" where
  "lease_is_alive now m lease_id = (case lookup_lease m lease_id of None \<Rightarrow> False | Some l \<Rightarrow> \<not> is_expired now l)"

section \<open>The service\<close>

datatype lease_status = FailedPrecondition lease_error | NotFoundStatus lease_error

definition rpc_lease_grant ::
  "instant \<Rightarrow> lease_manager \<Rightarrow> lease_id \<Rightarrow> 64 word \<Rightarrow> ((lease_status + lease_id \<times> 64 word) \<times> lease_manager) option" where
  "rpc_lease_grant now m lease_id ttl =
     map_option (\<lambda>(r, m'). (map_sum FailedPrecondition (\<lambda>x. x) r, m')) (lease_grant now m lease_id ttl)"

text \<open>The keys that \<open>revoke\<close> returns are dropped.\<close>

definition rpc_lease_revoke :: "lease_manager \<Rightarrow> lease_id \<Rightarrow> (lease_status + unit) \<times> lease_manager" where
  "rpc_lease_revoke m lease_id =
     (case lease_revoke m lease_id of
        (Inl e, m') \<Rightarrow> (Inl (FailedPrecondition e), m')
      | (Inr _, m') \<Rightarrow> (Inr (), m'))"

text \<open>One message of a keep-alive stream; a time to live of 0 stands for every failure.\<close>

definition rpc_keepalive :: "instant \<Rightarrow> lease_manager \<Rightarrow> lease_id \<Rightarrow> (lease_id \<times> 64 word) \<times> lease_manager" where
  "rpc_keepalive now m lease_id =
     (case keepalive now m lease_id of
        (Inl _, m') \<Rightarrow> ((lease_id, 0), m')
      | (Inr ttl, m') \<Rightarrow> ((lease_id, ttl), m'))"

text \<open>The stream of keep-alive requests of one client: a request is a lease number, or None for a stream error,
  with the clock at its arrival, and the client takes a number of responses before it goes away.\<close>

fun lease_keep_alive ::
  "(instant \<times> lease_id option) list \<Rightarrow> nat \<Rightarrow> lease_manager \<Rightarrow> (lease_id \<times> 64 word) list \<times> lease_manager" where
  "lease_keep_alive [] takes m = ([], m)"
| "lease_keep_alive ((now, None) # in_stream) takes m = ([], m)"
| "lease_keep_alive ((now, Some i) # in_stream) takes m =
     (let (response, m1) = rpc_keepalive now m i
      in case takes of
           0 \<Rightarrow> ([], m1)
         | Suc n \<Rightarrow> (let (responses, m2) = lease_keep_alive in_stream n m1 in (response # responses, m2)))"

definition rpc_time_to_live :: "instant \<Rightarrow> lease_manager \<Rightarrow> lease_id \<Rightarrow> bool \<Rightarrow> lease_status + lease_info" where
  "rpc_time_to_live now m lease_id keys =
     (case lease_get now m lease_id of
        Inl e \<Rightarrow> Inl (NotFoundStatus e)
      | Inr info \<Rightarrow> Inr (if keys then info else info\<lparr>li_keys := []\<rparr>))"

section \<open>Reachable managers\<close>

datatype lease_op =
    LGrant lease_id "64 word"
  | LKeepalive lease_id
  | LRevoke lease_id
  | LAttach lease_id bytes
  | LDetach lease_id bytes
  | LCollect

fun lease_exec :: "instant \<Rightarrow> lease_manager \<Rightarrow> lease_op \<Rightarrow> lease_manager option" where
  "lease_exec now m (LGrant i ttl) = map_option snd (lease_grant now m i ttl)"
| "lease_exec now m (LKeepalive i) = Some (snd (keepalive now m i))"
| "lease_exec now m (LRevoke i) = Some (snd (lease_revoke m i))"
| "lease_exec now m (LAttach i key) = Some (snd (attach_key m i key))"
| "lease_exec now m (LDetach i key) = Some (detach_key m i key)"
| "lease_exec now m LCollect = Some (snd (collect_expired now m))"

inductive lease_reach :: "lease_manager \<Rightarrow> bool" where
  init: "lease_reach lease_manager_new"
| step: "lease_reach m \<Longrightarrow> lease_exec now m op = Some m' \<Longrightarrow> lease_reach m'"

definition wf_lease :: "lease_id \<Rightarrow> lease \<Rightarrow> bool" where
  "wf_lease i l \<longleftrightarrow> ls_id l = i \<and> 0 < sint (ls_granted_ttl l) \<and> distinct (ls_keys l)"

definition wf_leases :: "lease_manager \<Rightarrow> bool" where
  "wf_leases m \<longleftrightarrow> distinct (map fst (lm_leases m)) \<and> (\<forall>(i, l) \<in> set (lm_leases m). wf_lease i l)"

lemma lookup_store [simp]: "lookup_lease (store_lease l i m) = (lookup_lease m)(i \<mapsto> l)"
  by (simp add: lookup_lease_def store_lease_def update_conv' fun_eq_iff)

lemma lookup_remove [simp]: "lookup_lease (remove_lease i m) = (lookup_lease m)(i := None)"
  by (simp add: lookup_lease_def remove_lease_def delete_conv' fun_eq_iff)

lemma lookup_next_id [simp]: "lookup_lease (m\<lparr>lm_next_id := n\<rparr>) = lookup_lease m"
  by (simp add: lookup_lease_def fun_eq_iff)

lemma lookup_wf: "wf_leases m \<Longrightarrow> lookup_lease m i = Some l \<Longrightarrow> wf_lease i l"
  unfolding wf_leases_def lookup_lease_def by (auto dest!: map_of_SomeD)

lemma wf_next_id [simp]: "wf_leases (m\<lparr>lm_next_id := n\<rparr>) = wf_leases m"
  by (simp add: wf_leases_def)

lemma wf_store: "wf_leases m \<Longrightarrow> wf_lease i l \<Longrightarrow> wf_leases (store_lease l i m)"
proof -
  assume wf: "wf_leases m" and l: "wf_lease i l"
  have d: "distinct (map fst (AList.update i l (lm_leases m)))"
    using wf by (simp add: wf_leases_def distinct_update)
  have "wf_lease j x" if "(j, x) \<in> set (AList.update i l (lm_leases m))" for j x
  proof -
    have "map_of (AList.update i l (lm_leases m)) j = Some x" using that d by simp
    then have "(if j = i then Some l else map_of (lm_leases m) j) = Some x" by (simp add: update_conv' split: if_splits)
    then show ?thesis using l lookup_wf [OF wf, of j x] by (auto simp: lookup_lease_def split: if_splits)
  qed
  then show ?thesis using d by (auto simp: wf_leases_def store_lease_def)
qed

lemma wf_remove_lease: "wf_leases m \<Longrightarrow> wf_leases (remove_lease i m)"
  by (auto simp: wf_leases_def remove_lease_def AList.delete_eq intro: distinct_map_filter)

lemma wf_take: "wf_leases m \<Longrightarrow> wf_leases (snd (take_leases m ids))"
  by (induction m ids rule: take_leases.induct) (auto simp: wf_remove_lease split: option.split prod.split)

lemma wf_lease_ops:
  "0 < sint ttl \<Longrightarrow> wf_lease i (lease_new now i ttl)" "wf_lease i l \<Longrightarrow> wf_lease i (renew now l)"
  "wf_lease i l \<Longrightarrow> wf_lease i (lease_attach_key key l)" "wf_lease i l \<Longrightarrow> wf_lease i (lease_detach_key key l)"
  by (simp_all add: wf_lease_def lease_new_def renew_def lease_attach_key_def lease_detach_key_def distinct_removeAll)

lemma wf_grant: "wf_leases m \<Longrightarrow> lease_grant now m i ttl = Some (r, m') \<Longrightarrow> wf_leases m'"
  by (auto simp: lease_grant_def Let_def not_le intro!: wf_store wf_lease_ops(1) split: if_splits)

lemma wf_exec:
  assumes wf: "wf_leases m" and "lease_exec now m op = Some m'"
  shows "wf_leases m'"
proof -
  have upd: "wf_leases (store_lease (f l) i m)" if "lookup_lease m i = Some l" "\<And>x. wf_lease i x \<Longrightarrow> wf_lease i (f x)" for i l f
    by (rule wf_store [OF wf]) (rule that(2) [OF lookup_wf [OF wf that(1)]])
  show ?thesis
  proof (cases op)
    case (LGrant i ttl)
    then show ?thesis using assms(2) wf_grant [OF wf, of now i ttl] by auto
  next
    case (LKeepalive i)
    then show ?thesis using assms(2) wf upd [of i _ "renew now"]
      by (cases "lookup_lease m i") (auto simp: keepalive_def wf_lease_ops)
  next
    case (LRevoke i)
    then show ?thesis using assms by (cases "lookup_lease m i") (auto simp: lease_revoke_def wf_remove_lease)
  next
    case (LAttach i key)
    then show ?thesis using assms(2) wf upd [of i _ "lease_attach_key key"]
      by (cases "lookup_lease m i") (auto simp: attach_key_def wf_lease_ops)
  next
    case (LDetach i key)
    then show ?thesis using assms(2) wf upd [of i _ "lease_detach_key key"]
      by (cases "lookup_lease m i") (auto simp: detach_key_def wf_lease_ops)
  next
    case LCollect
    then show ?thesis using assms by (auto simp: collect_expired_def wf_take)
  qed
qed

lemma reach_wf: "lease_reach m \<Longrightarrow> wf_leases m"
proof (induction rule: lease_reach.induct)
  case init
  then show ?case by (simp add: lease_manager_new_def wf_leases_def)
qed (rule wf_exec)

section \<open>Time\<close>

lemma small_signed: "k < 2 ^ 63 \<Longrightarrow> sint (of_nat k :: 64 word) = int k"
proof -
  assume k: "k < 2 ^ 63"
  then have "uint (of_nat k :: 64 word) = int k" by (simp add: unsigned_of_nat take_bit_nat_eq_self)
  moreover have "signed_take_bit 63 (int k) = int k" using k by (intro signed_take_bit_int_eq_self) simp_all
  ultimately show ?thesis by (simp add: sint_uint)
qed

lemma elapsed_seconds: "n < 2 ^ 63 * 10 ^ 9 \<Longrightarrow> sint (of_nat (n div 10 ^ 9) :: 64 word) = int (n div 10 ^ 9)"
  by (intro small_signed less_mult_imp_div_less)

lemma remaining_seconds:
  assumes "now < 2 ^ 63 * 10 ^ 9"
  shows "remaining_ttl now l = max (sint (ls_granted_ttl l) - int ((now - ls_last_renewed l) div 10 ^ 9)) 0"
  using elapsed_seconds [of "now - ls_last_renewed l"] assms by (simp add: remaining_ttl_def Let_def)

lemma expired_iff:
  assumes "now < 2 ^ 63 * 10 ^ 9" and "0 < sint (ls_granted_ttl l)"
  shows "is_expired now l \<longleftrightarrow> ls_last_renewed l + nat (sint (ls_granted_ttl l)) * 10 ^ 9 \<le> now"
proof -
  let ?g = "sint (ls_granted_ttl l)" and ?e = "now - ls_last_renewed l"
  have "is_expired now l \<longleftrightarrow> nat ?g \<le> ?e div 10 ^ 9"
    using remaining_seconds [OF assms(1), of l] assms(2) by (auto simp: is_expired_def max_def)
  also have "\<dots> \<longleftrightarrow> nat ?g * 10 ^ 9 \<le> ?e" by (simp add: less_eq_div_iff_mult_less_eq)
  also have "\<dots> \<longleftrightarrow> ls_last_renewed l + nat ?g * 10 ^ 9 \<le> now"
    using assms(2) by (cases "ls_last_renewed l \<le> now") auto
  finally show ?thesis .
qed

section \<open>Sweeping\<close>

lemma take_leases_lookup:
  "take_leases m ids = (expired, m') \<Longrightarrow> lookup_lease m' i = (if i \<in> set ids then None else lookup_lease m i)"
proof (induction m ids arbitrary: expired m' rule: take_leases.induct)
  case (2 m j ids)
  then show ?case by (cases "lookup_lease m j") (auto split: prod.splits)
qed simp

lemma take_leases_expired:
  "distinct ids \<Longrightarrow> take_leases m ids = (expired, m') \<Longrightarrow>
     (i, keys) \<in> set expired \<longleftrightarrow> i \<in> set ids \<and> map_option ls_keys (lookup_lease m i) = Some keys"
proof (induction m ids arbitrary: expired m' rule: take_leases.induct)
  case (2 m j ids)
  show ?case
  proof (cases "lookup_lease m j")
    case None
    then show ?thesis using 2(1) [OF None, of expired m'] 2(3,4) by auto
  next
    case (Some l)
    obtain ex where ex: "take_leases (remove_lease j m) ids = (ex, m')" "expired = (j, ls_keys l) # ex"
      using 2(4) Some by (auto split: prod.splits)
    have "(i, keys) \<in> set ex \<longleftrightarrow> i \<in> set ids \<and> map_option ls_keys (lookup_lease (remove_lease j m) i) = Some keys"
      using 2(2) [OF Some _ ex(1)] 2(3) by simp
    then show ?thesis using 2(3) Some by (cases "i = j") (auto simp: ex(2))
  qed
qed simp

lemma collect_lookup:
  assumes "wf_leases m" and "collect_expired now m = (expired, m')"
  shows "lookup_lease m' i = (case lookup_lease m i of None \<Rightarrow> None | Some l \<Rightarrow> if is_expired now l then None else Some l)"
    and "(i, keys) \<in> set expired \<longleftrightarrow> (\<exists>l. lookup_lease m i = Some l \<and> is_expired now l \<and> keys = ls_keys l)"
proof -
  let ?ids = "map fst (filter (\<lambda>(_, l). is_expired now l) (lm_leases m))"
  have d: "distinct (map fst (lm_leases m))" using assms(1) by (simp add: wf_leases_def)
  then have "distinct ?ids" by (rule distinct_map_filter)
  note t = take_leases_lookup [OF assms(2) [unfolded collect_expired_def], of i]
    take_leases_expired [OF this assms(2) [unfolded collect_expired_def], of i keys]
  have ids: "i \<in> set ?ids \<longleftrightarrow> (\<exists>l. map_of (lm_leases m) i = Some l \<and> is_expired now l)"
  proof -
    have "i \<in> set ?ids \<longleftrightarrow> (\<exists>l. (i, l) \<in> set (lm_leases m) \<and> is_expired now l)" by force
    then show ?thesis by (simp only: map_of_eq_Some_iff [OF d])
  qed
  show "lookup_lease m' i = (case lookup_lease m i of None \<Rightarrow> None | Some l \<Rightarrow> if is_expired now l then None else Some l)"
    using t(1) ids unfolding lookup_lease_def by (cases "map_of (lm_leases m) i") simp_all
  show "(i, keys) \<in> set expired \<longleftrightarrow> (\<exists>l. lookup_lease m i = Some l \<and> is_expired now l \<and> keys = ls_keys l)"
    using t(2) ids unfolding lookup_lease_def by (cases "map_of (lm_leases m) i") auto
qed

section \<open>Properties of leases\<close>

text \<open>A manager with one lease of five seconds and a key.\<close>

definition demo_lease :: lease where
  "demo_lease = \<lparr>ls_id = 1, ls_granted_ttl = 5, ls_last_renewed = 0, ls_keys = [[107]]\<rparr>"

definition demo_leases :: lease_manager where
  "demo_leases = \<lparr>lm_leases = [(1, demo_lease)], lm_next_id = 2\<rparr>"

lemma demo_reach: "lease_reach demo_leases"
proof -
  let ?m1 = "\<lparr>lm_leases = [(1, \<lparr>ls_id = 1, ls_granted_ttl = 5, ls_last_renewed = 0, ls_keys = []\<rparr>)], lm_next_id = 2\<rparr>"
  have "lease_exec 0 lease_manager_new (LGrant 0 5) = Some ?m1"
    by (simp add: lease_grant_def lease_manager_new_def store_lease_def lease_new_def Let_def)
  then have "lease_reach ?m1" by (rule lease_reach.step [OF lease_reach.init])
  moreover have "lease_exec 0 ?m1 (LAttach 1 [107]) = Some demo_leases"
    by (simp add: attach_key_def lookup_lease_def store_lease_def lease_attach_key_def demo_leases_def demo_lease_def)
  ultimately show ?thesis by (rule lease_reach.step)
qed

lemma demo_lookup: "lookup_lease demo_leases i = (if i = 1 then Some demo_lease else None)"
  by (simp add: lookup_lease_def demo_leases_def)

text \<open>C31: the lease manager stays well formed. In every state reached by grants, keep-alives, revocations,
  attached and detached keys and sweeps, at any clock readings, no two leases share a number, every lease is
  stored under its own number with a positive time to live, and lists each attached key once.\<close>

theorem lease_state_ok:
  assumes "lease_reach m"
  shows "distinct (map fst (lm_leases m)) \<and>
    (\<forall>i l. lookup_lease m i = Some l \<longrightarrow> ls_id l = i \<and> 0 < sint (ls_granted_ttl l) \<and> distinct (ls_keys l))"
  using reach_wf [OF assms] lookup_wf [of m] by (auto simp: wf_leases_def wf_lease_def)

theorem lease_state_ok_witness: "ls_id demo_lease = 1 \<and> 0 < sint (ls_granted_ttl demo_lease)"
  using lease_state_ok [OF demo_reach] demo_lookup [of 1] by auto

text \<open>C32: what a lease has left is within its grant. For every reachable manager and clock readings of less than
  \<open>2 ^ 63\<close> seconds, the remaining time of a lease is between 0 and the time it was granted, and it is 0, so
  that the lease counts as expired, exactly from the granted time after its last renewal on.\<close>

theorem lease_time_bounds:
  assumes "lease_reach m" and "lookup_lease m i = Some l" and "now < 2 ^ 63 * 10 ^ 9"
  shows "0 \<le> remaining_ttl now l \<and> remaining_ttl now l \<le> sint (ls_granted_ttl l) \<and>
    (is_expired now l \<longleftrightarrow> ls_last_renewed l + nat (sint (ls_granted_ttl l)) * 10 ^ 9 \<le> now)"
proof -
  have "0 < sint (ls_granted_ttl l)" using lookup_wf [OF reach_wf [OF assms(1)] assms(2)] by (simp add: wf_lease_def)
  then show ?thesis using remaining_seconds [OF assms(3), of l] expired_iff [OF assms(3), of l] by simp
qed

theorem lease_time_bounds_witness: "is_expired 5000000000 demo_lease \<and> \<not> is_expired 4999999999 demo_lease"
  using lease_time_bounds [OF demo_reach, of 1 demo_lease 5000000000] lease_time_bounds [OF demo_reach, of 1 demo_lease 4999999999] demo_lookup [of 1]
  by (simp add: demo_lease_def)

text \<open>C33: a lease that is not renewed is swept. A sweep at or after the end of a lease removes it and reports its
  number with all keys attached to it; a sweep before its end keeps the lease as it is and does not report
  it; nothing else is reported or added.\<close>

theorem lease_sweep_exact:
  assumes "lease_reach m" and "now < 2 ^ 63 * 10 ^ 9" and "collect_expired now m = (expired, m')"
  shows "(\<forall>i l. lookup_lease m i = Some l \<longrightarrow>
       (if ls_last_renewed l + nat (sint (ls_granted_ttl l)) * 10 ^ 9 \<le> now
        then lookup_lease m' i = None \<and> (i, ls_keys l) \<in> set expired
        else lookup_lease m' i = Some l \<and> i \<notin> fst ` set expired)) \<and>
     (\<forall>i. lookup_lease m i = None \<longrightarrow> lookup_lease m' i = None \<and> i \<notin> fst ` set expired)"
proof -
  have wf: "wf_leases m" by (rule reach_wf [OF assms(1)])
  note c = collect_lookup [OF wf assms(3)]
  have e: "is_expired now l \<longleftrightarrow> ls_last_renewed l + nat (sint (ls_granted_ttl l)) * 10 ^ 9 \<le> now" if "lookup_lease m i = Some l" for i l
    using expired_iff [OF assms(2)] lookup_wf [OF wf that] by (simp add: wf_lease_def)
  have f: "i \<in> fst ` set expired \<longleftrightarrow> (\<exists>l. lookup_lease m i = Some l \<and> is_expired now l)" for i
    using c(2) by (auto simp: image_iff) force
  show ?thesis
  proof (intro conjI allI impI)
    fix i l assume l: "lookup_lease m i = Some l"
    show "if ls_last_renewed l + nat (sint (ls_granted_ttl l)) * 10 ^ 9 \<le> now
        then lookup_lease m' i = None \<and> (i, ls_keys l) \<in> set expired
        else lookup_lease m' i = Some l \<and> i \<notin> fst ` set expired"
      using e [OF l] c(1) [of i] c(2) [of i "ls_keys l"] f [of i] l by simp
  next
    fix i assume "lookup_lease m i = None"
    then show "lookup_lease m' i = None" "i \<notin> fst ` set expired" using c(1) [of i] f [of i] by simp_all
  qed
qed

theorem lease_sweep_exact_witness:
  "(1, [[107]]) \<in> set (fst (collect_expired 6000000000 demo_leases)) \<and> lookup_lease (snd (collect_expired 6000000000 demo_leases)) 1 = None"
proof -
  obtain expired m' where c: "collect_expired 6000000000 demo_leases = (expired, m')" by (cases "collect_expired 6000000000 demo_leases")
  have "lookup_lease demo_leases 1 = Some demo_lease" by (simp add: demo_lookup)
  then show ?thesis using lease_sweep_exact [OF demo_reach _ c] by (fastforce simp: c demo_lease_def)
qed

end
