(* ===== verification/Watch.thy ===== *)
theory Watch
  imports Raft_Prelude
begin

text \<open>
  Watches (\<open>raft-server/src/watch.rs\<close>) and the stream of the watch service (\<open>watch_service.rs\<close>). The
  broadcast channel of \<open>tokio\<close> is a parameter: a record of its operations on a state, and what is relied on
  of it is \<open>channel_ok\<close>. The hash map of watchers is an association list.
\<close>

section \<open>Events and watchers\<close>

datatype watch_event_type = EventPut | EventDelete

record watch_event =
  we_type :: watch_event_type
  we_key :: bytes
  we_value :: bytes
  we_mod_revision :: "64 word"
  we_create_revision :: "64 word"
  we_prev_value :: "bytes option"

record watcher =
  wt_key :: bytes
  wt_range_end :: bytes
  wt_start_revision :: "64 word"

definition watcher_accepts :: "watcher \<Rightarrow> watch_event \<Rightarrow> bool" where
  "watcher_accepts w event =
     (if we_mod_revision event < wt_start_revision w then False
      else if wt_range_end w = [] then wt_key w = we_key event
      else we_key event \<ge> wt_key w \<and> we_key event < wt_range_end w)"

section \<open>The hub\<close>

datatype recv_result = RecvOk watch_event | RecvEmpty | RecvLagged | RecvClosed

record 'ch channel_ops =
  ch_new :: "nat \<Rightarrow> 'ch"
  ch_send :: "watch_event \<Rightarrow> 'ch \<Rightarrow> 'ch"
  ch_subscribe :: "'ch \<Rightarrow> nat \<times> 'ch"
  ch_try_recv :: "nat \<Rightarrow> 'ch \<Rightarrow> recv_result \<times> 'ch"

record 'ch watch_hub =
  wh_channel :: 'ch
  wh_watchers :: "(64 word \<times> watcher) list"
  wh_next_id :: "64 word"

definition watch_hub_new :: "'ch channel_ops \<Rightarrow> nat \<Rightarrow> 'ch watch_hub" where
  "watch_hub_new ops capacity = \<lparr>wh_channel = ch_new ops capacity, wh_watchers = [], wh_next_id = 1\<rparr>"

definition watch_hub_default :: "'ch channel_ops \<Rightarrow> 'ch watch_hub" where
  "watch_hub_default ops = watch_hub_new ops 4096"

definition publish :: "'ch channel_ops \<Rightarrow> 'ch watch_hub \<Rightarrow> watch_event \<Rightarrow> 'ch watch_hub" where
  "publish ops hub event = hub\<lparr>wh_channel := ch_send ops event (wh_channel hub)\<rparr>"

definition create_watcher ::
  "'ch channel_ops \<Rightarrow> 'ch watch_hub \<Rightarrow> bytes \<Rightarrow> bytes \<Rightarrow> 64 word \<Rightarrow> (64 word \<times> nat) \<times> 'ch watch_hub" where
  "create_watcher ops hub key range_end start_revision =
     (let new_id = wh_next_id hub;
          w = \<lparr>wt_key = key, wt_range_end = range_end, wt_start_revision = start_revision\<rparr>;
          (receiver, c) = ch_subscribe ops (wh_channel hub)
      in ((new_id, receiver),
          hub\<lparr>wh_next_id := wh_next_id hub + 1, wh_watchers := AList.update new_id w (wh_watchers hub), wh_channel := c\<rparr>))"

definition cancel_watcher :: "'ch watch_hub \<Rightarrow> 64 word \<Rightarrow> bool \<times> 'ch watch_hub" where
  "cancel_watcher hub watch_id =
     (map_of (wh_watchers hub) watch_id \<noteq> None, hub\<lparr>wh_watchers := AList.delete watch_id (wh_watchers hub)\<rparr>)"

definition watcher_matches :: "'ch watch_hub \<Rightarrow> 64 word \<Rightarrow> watch_event \<Rightarrow> bool" where
  "watcher_matches hub watch_id event =
     (case map_of (wh_watchers hub) watch_id of None \<Rightarrow> False | Some w \<Rightarrow> watcher_accepts w event)"

definition watcher_count :: "'ch watch_hub \<Rightarrow> nat" where
  "watcher_count hub = length (wh_watchers hub)"

section \<open>The watch service\<close>

text \<open>Messages to the client.\<close>

record proto_key_value =
  pk_key :: bytes
  pk_value :: bytes
  pk_create_revision :: "64 word"
  pk_mod_revision :: "64 word"
  pk_lease_id :: "64 word"

record proto_event =
  pe_event_type :: nat
  pe_kv :: "proto_key_value option"
  pe_prev_kv :: "proto_key_value option"

record watch_response =
  wr_watch_id :: "64 word"
  wr_created :: bool
  wr_canceled :: bool
  wr_events :: "proto_event list"

definition to_proto_event :: "watch_event \<Rightarrow> proto_event" where
  "to_proto_event event =
     \<lparr>pe_event_type = (case we_type event of EventPut \<Rightarrow> 0 | EventDelete \<Rightarrow> 1),
      pe_kv = Some \<lparr>pk_key = we_key event, pk_value = we_value event, pk_create_revision = we_create_revision event,
                    pk_mod_revision = we_mod_revision event, pk_lease_id = 0\<rparr>,
      pe_prev_kv = map_option (\<lambda>pv. \<lparr>pk_key = we_key event, pk_value = pv, pk_create_revision = 0,
                    pk_mod_revision = 0, pk_lease_id = 0\<rparr>) (we_prev_value event)\<rparr>"

definition event_response :: "64 word \<Rightarrow> watch_event \<Rightarrow> watch_response" where
  "event_response watch_id event =
     \<lparr>wr_watch_id = watch_id, wr_created = False, wr_canceled = False, wr_events = [to_proto_event event]\<rparr>"

text \<open>The task of one connection: its watches with their receivers, and the responses sent so far. A send
  succeeds as long as the client reads: the number of responses the client still takes is part of the
  state.\<close>

record watch_task =
  tk_active :: "(64 word \<times> nat) list"
  tk_sent :: "watch_response list"
  tk_takes :: nat

definition tx_send :: "watch_response \<Rightarrow> watch_task \<Rightarrow> bool \<times> watch_task" where
  "tx_send resp t =
     (case tk_takes t of
        0 \<Rightarrow> (False, t)
      | Suc n \<Rightarrow> (True, t\<lparr>tk_sent := tk_sent t @ [resp], tk_takes := n\<rparr>))"

datatype watch_input =
    WatchCreate bytes bytes "64 word"
  | WatchCancel "64 word"
  | WatchNoRequest
  | WatchStreamError
  | WatchDisconnected
  | WatchPoll

datatype task_next = TaskContinues | TaskCleansUp | TaskReturns

text \<open>Receiving and forwarding the events of one watch; the loop ends with the first result that is not an
  event, and it need not end while events keep coming.\<close>

partial_function (option) poll_watch ::
  "'ch channel_ops \<Rightarrow> 64 word \<Rightarrow> nat \<Rightarrow> 'ch watch_hub \<Rightarrow> watch_task \<Rightarrow> (bool \<times> 'ch watch_hub \<times> watch_task) option" where
  "poll_watch ops watch_id receiver hub t =
     (case ch_try_recv ops receiver (wh_channel hub) of
        (result, c) \<Rightarrow>
          (let hub1 = hub\<lparr>wh_channel := c\<rparr>
           in case result of
                RecvOk event \<Rightarrow>
                  if \<not> watcher_matches hub1 watch_id event then poll_watch ops watch_id receiver hub1 t
                  else
                    (case tx_send (event_response watch_id event) t of
                       (ok, t1) \<Rightarrow> if \<not> ok then Some (False, hub1, t1) else poll_watch ops watch_id receiver hub1 t1)
              | RecvEmpty \<Rightarrow> Some (True, hub1, t)
              | RecvLagged \<Rightarrow> Some (True, hub1, t)
              | RecvClosed \<Rightarrow> Some (True, hub1, t)))"

fun poll_watches ::
  "'ch channel_ops \<Rightarrow> (64 word \<times> nat) list \<Rightarrow> 'ch watch_hub \<Rightarrow> watch_task \<Rightarrow> (bool \<times> 'ch watch_hub \<times> watch_task) option" where
  "poll_watches ops [] hub t = Some (True, hub, t)"
| "poll_watches ops ((watch_id, receiver) # ws) hub t =
     (case poll_watch ops watch_id receiver hub t of
        None \<Rightarrow> None
      | Some (False, hub1, t1) \<Rightarrow> Some (False, hub1, t1)
      | Some (True, hub1, t1) \<Rightarrow> poll_watches ops ws hub1 t1)"

definition watch_step ::
  "'ch channel_ops \<Rightarrow> watch_input \<Rightarrow> 'ch watch_hub \<Rightarrow> watch_task \<Rightarrow> (task_next \<times> 'ch watch_hub \<times> watch_task) option" where
  "watch_step ops input hub t =
     (case input of
        WatchCreate key range_end start_revision \<Rightarrow>
          (let ((watch_id, receiver), hub1) = create_watcher ops hub key range_end start_revision;
               t1 = t\<lparr>tk_active := tk_active t @ [(watch_id, receiver)]\<rparr>;
               (ok, t2) = tx_send \<lparr>wr_watch_id = watch_id, wr_created = True, wr_canceled = False, wr_events = []\<rparr> t1
           in Some (if ok then TaskContinues else TaskCleansUp, hub1, t2))
      | WatchCancel watch_id \<Rightarrow>
          (let (canceled, hub1) = cancel_watcher hub watch_id;
               t1 = t\<lparr>tk_active := filter (\<lambda>(i, _). i \<noteq> watch_id) (tk_active t)\<rparr>;
               (ok, t2) = tx_send \<lparr>wr_watch_id = watch_id, wr_created = False, wr_canceled = canceled, wr_events = []\<rparr> t1
           in Some (if ok then TaskContinues else TaskCleansUp, hub1, t2))
      | WatchNoRequest \<Rightarrow> Some (TaskContinues, hub, t)
      | WatchStreamError \<Rightarrow> Some (TaskCleansUp, hub, t)
      | WatchDisconnected \<Rightarrow> Some (TaskCleansUp, hub, t)
      | WatchPoll \<Rightarrow>
          map_option (\<lambda>(ok, hub1, t1). (if ok then TaskContinues else TaskReturns, hub1, t1))
            (poll_watches ops (tk_active t) hub t))"

text \<open>Cancelling the watchers of the connection when the loop is left.\<close>

definition watch_cleanup :: "'ch watch_hub \<Rightarrow> watch_task \<Rightarrow> 'ch watch_hub" where
  "watch_cleanup hub t = fold (\<lambda>(watch_id, _) h. snd (cancel_watcher h watch_id)) (tk_active t) hub"

section \<open>What is relied on of the channel\<close>

text \<open>A receiver is given the events sent since it subscribed, one by one and in order, as long as no more than
  the capacity of the channel wait for it. \<open>pending c rx\<close> are the events waiting for a receiver, \<open>lagged c rx\<close>
  says that it has fallen behind and \<open>subs c\<close> are the subscribed receivers.\<close>

definition recv_ok ::
  "'ch channel_ops \<Rightarrow> ('ch \<Rightarrow> nat \<Rightarrow> watch_event list) \<Rightarrow> ('ch \<Rightarrow> nat \<Rightarrow> bool) \<Rightarrow> bool" where
  "recv_ok ops pending lagged \<longleftrightarrow>
     (\<forall>c rx. \<not> lagged c rx \<longrightarrow>
        (case pending c rx of
           [] \<Rightarrow> ch_try_recv ops rx c = (RecvEmpty, c)
         | e # es \<Rightarrow> (case ch_try_recv ops rx c of
             (result, c') \<Rightarrow> result = RecvOk e \<and> pending c' = (pending c)(rx := es) \<and> lagged c' = lagged c)))"

definition send_ok ::
  "'ch channel_ops \<Rightarrow> nat \<Rightarrow> ('ch \<Rightarrow> nat \<Rightarrow> watch_event list) \<Rightarrow> ('ch \<Rightarrow> nat \<Rightarrow> bool) \<Rightarrow> ('ch \<Rightarrow> nat set) \<Rightarrow> bool" where
  "send_ok ops cap pending lagged subs \<longleftrightarrow>
     (\<forall>c rx e. rx \<in> subs c \<and> \<not> lagged c rx \<and> length (pending c rx) < cap \<longrightarrow>
        pending (ch_send ops e c) rx = pending c rx @ [e] \<and> \<not> lagged (ch_send ops e c) rx \<and> rx \<in> subs (ch_send ops e c)) \<and>
     (\<forall>c. case ch_subscribe ops c of (rx, c') \<Rightarrow> rx \<in> subs c' \<and> pending c' rx = [] \<and> \<not> lagged c' rx)"

lemma recv_step:
  assumes "recv_ok ops pending lagged" and "\<not> lagged c rx"
  shows "pending c rx = [] \<Longrightarrow> ch_try_recv ops rx c = (RecvEmpty, c)"
    and "pending c rx = e # es \<Longrightarrow>
      \<exists>c'. ch_try_recv ops rx c = (RecvOk e, c') \<and> pending c' = (pending c)(rx := es) \<and> lagged c' = lagged c"
  using assms(1) [unfolded recv_ok_def, rule_format, OF assms(2)] by (auto split: prod.splits)

lemma watcher_matches_channel [simp]: "watcher_matches (hub\<lparr>wh_channel := c\<rparr>) = watcher_matches hub"
  by (simp add: watcher_matches_def fun_eq_iff)

abbreviation "deliver hub i es \<equiv> map (event_response i) (filter (watcher_matches hub i) es)"

definition taken :: "watch_response list \<Rightarrow> watch_task \<Rightarrow> watch_task" where
  "taken rs t = t\<lparr>tk_sent := tk_sent t @ rs, tk_takes := tk_takes t - length rs\<rparr>"

lemma taken_simps [simp]:
  "tk_active (taken rs t) = tk_active t" "tk_sent (taken rs t) = tk_sent t @ rs"
  "tk_takes (taken rs t) = tk_takes t - length rs" "taken [] t = t"
  "taken rs' (taken rs t) = taken (rs @ rs') t"
  by (simp_all add: taken_def)

lemma tx_send_taken: "0 < tk_takes t \<Longrightarrow> tx_send r t = (True, taken [r] t)"
  by (cases "tk_takes t") (simp_all add: tx_send_def taken_def)

text \<open>Polling one watch returns, and sends exactly the accepted events of its receiver.\<close>

lemma poll_watch_exact:
  assumes ok: "recv_ok ops pending lagged"
  shows "pending (wh_channel hub) rx = es \<Longrightarrow> \<not> lagged (wh_channel hub) rx \<Longrightarrow>
    length (deliver hub i es) \<le> tk_takes t \<Longrightarrow>
    \<exists>c. poll_watch ops i rx hub t = Some (True, hub\<lparr>wh_channel := c\<rparr>, taken (deliver hub i es) t) \<and>
      pending c = (pending (wh_channel hub))(rx := []) \<and> lagged c = lagged (wh_channel hub)"
proof (induction es arbitrary: hub t)
  case Nil
  have "ch_try_recv ops rx (wh_channel hub) = (RecvEmpty, wh_channel hub)"
    using recv_step(1) [OF ok Nil.prems(2,1)] .
  then show ?case using Nil.prems(1)
    by (subst poll_watch.simps) (auto intro!: exI [of _ "wh_channel hub"])
next
  case (Cons e es)
  obtain c' where c': "ch_try_recv ops rx (wh_channel hub) = (RecvOk e, c')"
    "pending c' = (pending (wh_channel hub))(rx := es)" "lagged c' = lagged (wh_channel hub)"
    using recv_step(2) [OF ok Cons.prems(2,1)] by blast
  have left: "pending c' rx = es" "(pending c')(rx := []) = (pending (wh_channel hub))(rx := [])"
    unfolding c'(2) by simp_all
  let ?hub = "hub\<lparr>wh_channel := c'\<rparr>"
  show ?case
  proof (cases "watcher_matches hub i e")
    case False
    then have "poll_watch ops i rx hub t = poll_watch ops i rx ?hub t"
      using c'(1) by (subst poll_watch.simps) simp
    then show ?thesis using Cons.IH [of ?hub t] Cons.prems(2,3) left c'(3) False by simp
  next
    case True
    then have room: "0 < tk_takes t" using Cons.prems(3) by simp
    let ?t = "taken [event_response i e] t"
    have "poll_watch ops i rx hub t = poll_watch ops i rx ?hub ?t"
      using c'(1) True by (subst poll_watch.simps) (simp add: tx_send_taken [OF room])
    then show ?thesis using Cons.IH [of ?hub ?t] Cons.prems(2,3) left c'(3) True by simp
  qed
qed

lemma poll_watches_exact:
  assumes ok: "recv_ok ops pending lagged"
  shows "distinct (map snd ws) \<Longrightarrow> \<forall>(i, rx) \<in> set ws. \<not> lagged (wh_channel hub) rx \<Longrightarrow>
    sum_list (map (\<lambda>(i, rx). length (deliver hub i (pending (wh_channel hub) rx))) ws) \<le> tk_takes t \<Longrightarrow>
    \<exists>c. poll_watches ops ws hub t = Some (True, hub\<lparr>wh_channel := c\<rparr>,
      taken (concat (map (\<lambda>(i, rx). deliver hub i (pending (wh_channel hub) rx)) ws)) t)"
proof (induction ws arbitrary: hub t)
  case Nil
  then show ?case by (auto intro!: exI [of _ "wh_channel hub"])
next
  case (Cons w ws)
  obtain i rx where w: "w = (i, rx)" by fastforce
  let ?es = "pending (wh_channel hub) rx"
  obtain c where c: "poll_watch ops i rx hub t = Some (True, hub\<lparr>wh_channel := c\<rparr>, taken (deliver hub i ?es) t)"
    "pending c = (pending (wh_channel hub))(rx := [])" "lagged c = lagged (wh_channel hub)"
    using poll_watch_exact [OF ok refl, of hub rx i t] Cons.prems(2,3) w by auto
  have other: "\<And>j r. (j, r) \<in> set ws \<Longrightarrow> pending c r = pending (wh_channel hub) r"
    using Cons.prems(1) w c(2) by force
  have same: "map (\<lambda>(j, r). deliver hub j (pending c r)) ws = map (\<lambda>(j, r). deliver hub j (pending (wh_channel hub) r)) ws"
    by (rule map_cong [OF refl]) (use other in force)
  have "map (\<lambda>(j, r). length (deliver hub j (pending c r))) ws = map (\<lambda>(j, r). length (deliver hub j (pending (wh_channel hub) r))) ws"
    by (rule map_cong [OF refl]) (use other in force)
  then have room: "sum_list (map (\<lambda>(j, r). length (deliver hub j (pending c r))) ws) \<le> tk_takes t - length (deliver hub i ?es)"
    using Cons.prems(3) w by (simp only: list.map sum_list.Cons case_prod_conv)
  have "\<exists>ca. poll_watches ops ws (hub\<lparr>wh_channel := c\<rparr>) (taken (deliver hub i ?es) t) = Some (True, hub\<lparr>wh_channel := ca\<rparr>,
      taken (concat (map (\<lambda>(j, r). deliver hub j (pending c r)) ws)) (taken (deliver hub i ?es) t))"
    using Cons.IH [of "hub\<lparr>wh_channel := c\<rparr>" "taken (deliver hub i ?es) t"] Cons.prems(1,2) w c(3) room by simp
  then show ?case using c(1) w same by (simp only: poll_watches.simps option.case case_prod_conv bool.case list.map concat.simps taken_simps)
qed

lemma publish_all:
  assumes ok: "send_ok ops cap pending lagged subs"
  shows "rx \<in> subs (wh_channel hub) \<Longrightarrow> \<not> lagged (wh_channel hub) rx \<Longrightarrow>
    length (pending (wh_channel hub) rx) + length es \<le> cap \<Longrightarrow>
    \<exists>c. fold (\<lambda>e h. publish ops h e) es hub = hub\<lparr>wh_channel := c\<rparr> \<and>
      pending c rx = pending (wh_channel hub) rx @ es \<and> \<not> lagged c rx"
proof (induction es arbitrary: hub)
  case Nil
  then show ?case by (auto intro!: exI [of _ "wh_channel hub"])
next
  case (Cons e es)
  let ?c = "ch_send ops e (wh_channel hub)"
  have s: "pending ?c rx = pending (wh_channel hub) rx @ [e]" "\<not> lagged ?c rx" "rx \<in> subs ?c"
    using ok Cons.prems unfolding send_ok_def by auto
  show ?case
    using Cons.IH [of "hub\<lparr>wh_channel := ?c\<rparr>"] Cons.prems(3) s by (simp add: publish_def)
qed

section \<open>What a client of a watch receives\<close>

text \<open>The events a client asks for: changes from the start revision on, of one key or of a half-open range.\<close>

definition asked_for :: "bytes \<Rightarrow> bytes \<Rightarrow> 64 word \<Rightarrow> watch_event \<Rightarrow> bool" where
  "asked_for k range_end start e \<longleftrightarrow> start \<le> we_mod_revision e \<and>
     we_key e \<in> (if range_end = [] then {k} else {k..<range_end})"

lemma accepts_asked:
  "watcher_accepts \<lparr>wt_key = k, wt_range_end = range_end, wt_start_revision = start\<rparr> = asked_for k range_end start"
  by (auto simp: fun_eq_iff watcher_accepts_def asked_for_def not_less)

text \<open>C34: Let a connection create a watch and let at most as many events as the channel holds be published
  afterwards. Provided the client reads, the next poll of the connection ends, and it has sent the client one
  response for each published event that lies in the watched key or key range at or after the start
  revision, in the order of publication, carrying the identifier of the watch, and nothing else.\<close>

theorem watch_delivers_exactly:
  assumes recv: "recv_ok ops pending lagged" and send: "send_ok ops cap pending lagged subs"
    and idle: "tk_active t = []"
    and created: "watch_step ops (WatchCreate k range_end start) hub t = Some (TaskContinues, hub1, t1)"
    and fits: "length es \<le> cap" and reads: "length es \<le> tk_takes t1"
  shows "\<exists>hub2. watch_step ops WatchPoll (fold (\<lambda>e h. publish ops h e) es hub1) t1 =
    Some (TaskContinues, hub2,
      t1\<lparr>tk_sent := tk_sent t1 @ map (event_response (wh_next_id hub))
           (filter (asked_for k range_end start) es),
         tk_takes := tk_takes t1 - length
           (filter (asked_for k range_end start) es)\<rparr>)"
proof -
  obtain rx c where sub: "ch_subscribe ops (wh_channel hub) = (rx, c)" by fastforce
  then have new: "rx \<in> subs c" "pending c rx = []" "\<not> lagged c rx"
    using send [unfolded send_ok_def, THEN conjunct2, rule_format, of "wh_channel hub"] by simp_all
  let ?i = "wh_next_id hub"
  let ?w = "\<lparr>wt_key = k, wt_range_end = range_end, wt_start_revision = start\<rparr>"
  have h1: "wh_channel hub1 = c" "wh_watchers hub1 = AList.update ?i ?w (wh_watchers hub)" "tk_active t1 = [(?i, rx)]"
    using created idle sub
    by (auto simp: watch_step_def create_watcher_def tx_send_def Let_def split: nat.splits if_splits)
  then have m: "watcher_matches hub1 ?i = asked_for k range_end start"
    by (simp add: watcher_matches_def update_conv' fun_eq_iff flip: accepts_asked)
  obtain c2 where p: "fold (\<lambda>e h. publish ops h e) es hub1 = hub1\<lparr>wh_channel := c2\<rparr>" "pending c2 rx = es" "\<not> lagged c2 rx"
    using publish_all [OF send, of rx hub1 es] new h1(1) fits by auto
  let ?hub = "hub1\<lparr>wh_channel := c2\<rparr>"
  have "length (filter (asked_for k range_end start) es) \<le> tk_takes t1"
    using reads length_filter_le [of "asked_for k range_end start" es] by linarith
  then obtain c3 where "poll_watches ops [(?i, rx)] ?hub t1 = Some (True, ?hub\<lparr>wh_channel := c3\<rparr>, taken (deliver hub1 ?i es) t1)"
    using poll_watches_exact [OF recv, of "[(?i, rx)]" ?hub t1] p(2,3) m by auto
  then show ?thesis using p(1) h1(3) m by (simp add: watch_step_def taken_def)
qed

text \<open>A channel of capacity two, with the queue of each receiver; a receiver with more waiting has lagged.\<close>

definition queue_channel :: "(nat \<Rightarrow> watch_event list) channel_ops" where
  "queue_channel =
     \<lparr>ch_new = (\<lambda>_ _. []), ch_send = (\<lambda>e c rx. c rx @ [e]), ch_subscribe = (\<lambda>c. (0, c(0 := []))),
      ch_try_recv = (\<lambda>rx c. if 2 < length (c rx) then (RecvLagged, c(rx := drop (length (c rx) - 2) (c rx)))
        else case c rx of [] \<Rightarrow> (RecvEmpty, c) | e # es \<Rightarrow> (RecvOk e, c(rx := es)))\<rparr>"

definition demo_event :: "bytes \<Rightarrow> 64 word \<Rightarrow> watch_event" where
  "demo_event k r = \<lparr>we_type = EventPut, we_key = k, we_value = [7], we_mod_revision = r, we_create_revision = r, we_prev_value = None\<rparr>"

definition demo_task :: watch_task where
  "demo_task = \<lparr>tk_active = [], tk_sent = [], tk_takes = 9\<rparr>"

definition demo_hub :: "(nat \<Rightarrow> watch_event list) watch_hub" where
  "demo_hub = watch_hub_default queue_channel"

lemma queue_recv_ok: "recv_ok queue_channel (\<lambda>c. c) (\<lambda>c rx. 2 < length (c rx))"
  by (auto simp: recv_ok_def queue_channel_def fun_eq_iff split: list.split)

lemma queue_send_ok: "send_ok queue_channel 2 (\<lambda>c. c) (\<lambda>c rx. 2 < length (c rx)) (\<lambda>_. {0})"
  by (auto simp: send_ok_def queue_channel_def)

theorem watch_delivers_exactly_witness:
  "\<exists>hub1 t1 hub2. watch_step queue_channel (WatchCreate [1] [3] 5) demo_hub demo_task = Some (TaskContinues, hub1, t1) \<and>
    watch_step queue_channel WatchPoll (fold (\<lambda>e h. publish queue_channel h e) [demo_event [2] 6, demo_event [4] 7] hub1) t1 =
      Some (TaskContinues, hub2, t1\<lparr>tk_sent := tk_sent t1 @ [event_response 1 (demo_event [2] 6)], tk_takes := tk_takes t1 - 1\<rparr>)"
proof -
  let ?t1 = "taken [\<lparr>wr_watch_id = 1, wr_created = True, wr_canceled = False, wr_events = []\<rparr>] (demo_task\<lparr>tk_active := [(1, 0)]\<rparr>)"
  obtain hub1 where c: "watch_step queue_channel (WatchCreate [1] [3] 5) demo_hub demo_task = Some (TaskContinues, hub1, ?t1)"
    by (simp add: watch_step_def create_watcher_def demo_hub_def watch_hub_default_def watch_hub_new_def queue_channel_def
        demo_task_def tx_send_taken)
  have f: "filter (asked_for [1] [3] 5) [demo_event [2] 6, demo_event [4] 7] = [demo_event [2] 6]"
    by (simp add: asked_for_def demo_event_def)
  have i: "wh_next_id demo_hub = 1" by (simp add: demo_hub_def watch_hub_default_def watch_hub_new_def)
  show ?thesis
    using watch_delivers_exactly [OF queue_recv_ok queue_send_ok _ c, of "[demo_event [2] 6, demo_event [4] 7]"] c
    unfolding f i by (auto simp: demo_task_def)
qed

end
