(* ===== verification/Spec2Isabelle.thy ===== *)
theory Spec2Isabelle
  imports Cluster Mvcc_Gc Lease Watch
begin

text \<open>
  A verification development for raftrust, a replicated key-value store: a Raft consensus core, an LSM-tree
  storage engine, a multi-version store on top of it, and the server that applies committed commands.

  \<^bold>\<open>How the parts interact.\<close> A client command becomes an entry of the leader's Raft log
  (\<open>raft-consensus\<close>); the log is written to a write-ahead log (\<open>raft-storage/src/wal\<close>), replicated by
  AppendEntries, committed by a quorum and handed to the apply loop (\<open>raft-server/src/apply.rs\<close>), which
  writes to the multi-version store (\<open>raft-mvcc\<close>), attaches keys to leases and publishes watch events. The
  multi-version store keeps every version of a key under an internal key of the storage engine
  (\<open>raft-storage/src/lsm.rs\<close>): memtables, tables, a manifest, leveled compaction and a second use of the
  write-ahead log.

  \<^bold>\<open>How code is represented.\<close> A struct is a record, an enum a datatype, a method a function that takes the
  state and returns it. \<open>Result\<close> is a sum with the error on the left, a panic is \<open>None\<close> of an outer option.
  Byte strings are lists of \<open>8 word\<close>; revisions, lease numbers, hashes and checksums keep their width, and
  terms, indices and sizes are natural numbers. A \<open>HashMap\<close> is an association list with distinct keys, a
  \<open>BTreeMap\<close> a strictly sorted one. Locks make each method atomic and are not represented. What the code asks
  of the outside (file-system outcomes, clock readings, random numbers) is an argument, so that every
  failure is a branch of the model. Third-party code (CRC-32, the hashes of the Bloom filter, bit packing,
  the JSON codecs) is a parameter, and what is relied on of it is a named hypothesis, such as
  \<open>sst_env_ok\<close> and \<open>codec_ok\<close>, that the witnesses instantiate.

  \<^bold>\<open>Consensus.\<close>
  \<^item> \<open>Raft_Prelude\<close>: types, byte encodings, file outcomes, names of files, UTF-8.
  \<^item> \<open>Wal\<close> (\<open>wal/record.rs\<close>, \<open>reader.rs\<close>, \<open>writer.rs\<close>): replay after a crash returns all synced records
    and a prefix of the others; replay is total and sound on arbitrary bytes. The locale \<open>wal_payload\<close> lifts
    this to encoded records and is interpreted on log entries and on the operations of the LSM tree.
  \<^item> \<open>Raft_Log\<close> (\<open>log.rs\<close>): the log as a partial map from indices; reopening after failed writes and a crash.
  \<^item> \<open>Raft_State\<close> (\<open>message.rs\<close>, \<open>state.rs\<close>, \<open>election.rs\<close>, \<open>tick.rs\<close>, \<open>leadership_transfer.rs\<close>).
  \<^item> \<open>Membership\<close> (\<open>membership.rs\<close>): joint consensus; the locale \<open>voting_config\<close> holds the quorum argument.
  \<^item> \<open>Read_Index\<close> (\<open>read_index.rs\<close>): a read is confirmed only by a quorum of distinct acknowledgements.
  \<^item> \<open>Snapshot\<close> (\<open>snapshot.rs\<close>): a stored snapshot is loaded again; a failed one leaves the previous intact.
  \<^item> \<open>Raft_Node\<close> (\<open>node.rs\<close>): one definition per method of \<open>RaftNode\<close>.
  \<^item> \<open>Node_Vote\<close>, \<open>Node_Log\<close>: over arbitrary sequences of handler calls a node votes once per term and its
    indices stay ordered; AppendEntries makes the follower's log agree with the leader's; the commit rule.
  \<^item> \<open>Cluster\<close>: a step relation of nodes and a lossy, reordering, duplicating network with restarts; a term
    has one leader, provided a vote is counted by the election that asked for it, and a run without this
    proviso in which a term has two.

  \<^bold>\<open>Storage.\<close>
  \<^item> \<open>Sorted_Map\<close>, \<open>Memtable\<close> (\<open>memtable/mod.rs\<close>): the memtable refines a map and accounts its bytes exactly.
  \<^item> \<open>Sstable\<close>, \<open>Sstable_Table\<close> (\<open>sstable/*.rs\<close>, \<open>bloom.rs\<close>): blocks, index, footer and Bloom filter; a
    written table is read back, by lookup and by scan.
  \<^item> \<open>Manifest\<close>, \<open>Compaction\<close>, \<open>Compaction_View\<close> (\<open>compaction/*.rs\<close>): compaction preserves lookups of keys
    that the tables of level 0 agree on, and a run in which it revives an overwritten value.
  \<^item> \<open>Lsm\<close>, \<open>Lsm_View\<close>, \<open>Lsm_Ops\<close>, \<open>Lsm_Durable\<close> (\<open>lsm.rs\<close>): \<open>lsm_view\<close> is the map a tree stands for;
    puts, deletes, lookups and scans refine it through flushes and compactions, acknowledged writes survive
    a crash, and without faults every write succeeds. The bounds \<open>2 ^ 32\<close> on entries and \<open>2 ^ 60\<close> on bytes
    are those of the counters and offsets in table files.
  \<^item> \<open>Engine\<close> (\<open>engine.rs\<close>): the trait as a record of operations, its contract as the locales
    \<open>storage_engine\<close> and \<open>write_once_engine\<close>, interpreted on the LSM tree.

  \<^bold>\<open>Multi-version store.\<close>
  \<^item> \<open>Version\<close> (\<open>version.rs\<close>): round trips and order of versioned keys.
  \<^item> \<open>Mvcc\<close>, \<open>Mvcc_View\<close> (\<open>mvcc.rs\<close>): the store as a history of versions, proved inside the engine locales
    and stated for the LSM tree; reads return the newest version at or before a revision, for keys that are
    not prefixes of one another, and what goes wrong for keys that are.
  \<^item> \<open>Mvcc_Scan\<close>: the internal keys of a store are ordered by key and then newest first; range scans list the
    newest live versions.
  \<^item> \<open>Engine_Room\<close>: room for batches of writes and writes that succeed, as the locale \<open>bounded_engine\<close>.
  \<^item> \<open>Transaction\<close> (\<open>transaction.rs\<close>): commits are all or nothing, and what a committed transaction read
    still holds.
  \<^item> \<open>Mvcc_Gc\<close> (\<open>gc.rs\<close>, \<open>ttl.rs\<close>): garbage collection removes exactly the superseded versions below its
    bound and leaves current reads alone; expiry of keys is translated.

  \<^bold>\<open>Server.\<close>
  \<^item> \<open>Lease\<close> (\<open>lease.rs\<close>, \<open>lease_service.rs\<close>): the state of the lease manager is well formed after every
    sequence of operations; the remaining time is within the grant; a sweep takes exactly the expired leases.
  \<^item> \<open>Watch\<close> (\<open>watch.rs\<close>, \<open>watch_service.rs\<close>): a connection is sent exactly the published events its watch
    accepts. The broadcast channel of tokio is a parameter (\<open>recv_ok\<close>, \<open>send_ok\<close>).

  \<^bold>\<open>Fuel.\<close> No definition uses fuel: loops are structural recursions, or functions with a termination proof
  (replay of the log, handing out committed entries). The poll loop of a watch is a partial function, since
  events may keep coming, and it is proved to return.

  \<^bold>\<open>Not modelled.\<close> The apply loop and backups are not translated. The other gRPC and HTTP services, the server loop, the
  network clients, the command line tool, the benchmarks, configuration files and metrics are I/O on tokio,
  tonic and Prometheus. Concurrency inside a method is not represented: the locks of the code make methods
  atomic, except where a finding says so.
\<close>

end
